theory Spec2Isabelle
  imports Complex_Main "HOL-Library.Signed_Division" "HOL-Library.Monad_Syntax"
begin

section \<open>The machine: memory blocks, allocation, standard output, rounding\<close>

text \<open>
  The header convolution_gsl.h works on flat arrays of doubles behind pointers. Memory
  is a family of blocks: a pointer returned by an allocation, or an array handed in by
  the caller, is a block number, and a cell is addressed by a block and an offset in
  doubles.

  A double is held as the real number it denotes. The arithmetic of the machine is its
  field \<open>rounding\<close>: every double operation yields the rounding of the exact result (the
  standard model of floating-point arithmetic; overflow to infinity and NaN are not
  modelled). The results on what a routine computes hold for a machine whose rounding is
  the identity, and say so in their hypotheses; IEEE binary64 is \<open>double_round\<close> below.
\<close>

type_synonym block = nat

record machine =
  mem :: "block \<Rightarrow> int \<Rightarrow> real"
  next_block :: block
  stdout :: "string list"
  rounding :: "real \<Rightarrow> real"

definition load :: "machine \<Rightarrow> block \<Rightarrow> int \<Rightarrow> real" where
  "load s b a = mem s b a"

definition store :: "block \<Rightarrow> int \<Rightarrow> real \<Rightarrow> machine \<Rightarrow> machine" where
  "store b a v s = s\<lparr>mem := (mem s)(b := (mem s b)(a := v))\<rparr>"

definition printf :: "string \<Rightarrow> machine \<Rightarrow> machine" where
  "printf line s = s\<lparr>stdout := stdout s @ [line]\<rparr>"

definition alloc :: "machine \<Rightarrow> block \<times> machine" where
  "alloc s = (next_block s, s\<lparr>next_block := Suc (next_block s)\<rparr>)"

text \<open>
  Rounding to the nearest binary64 number, ties to the even significand: 53 significant
  bits, the exponent range taken to be unbounded.
\<close>

definition round_even :: "real \<Rightarrow> int" where
  "round_even x =
     (let f = \<lfloor>x\<rfloor>
      in if x - of_int f < 1 / 2 then f
         else if 1 / 2 < x - of_int f then f + 1
         else if even f then f else f + 1)"

definition double_round :: "real \<Rightarrow> real" where
  "double_round x =
     (if x = 0 then 0
      else let e = \<lfloor>log 2 \<bar>x\<bar>\<rfloor> - 52
           in of_int (round_even (x / 2 powr of_int e)) * 2 powr of_int e)"

section \<open>Machine integers\<close>

text \<open>
  The \<open>int\<close> of the source has 32 bits; the result of an operation on two of them wraps
  around, as the compiled code does. \<open>unsigned int\<close> is arithmetic modulo \<open>2\<^sup>3\<^sup>2\<close>, and so
  is an operation with one unsigned operand, the other being converted. \<open>size_t\<close>, the
  type of the dimensions and indices that GSL takes, has 64 bits.
\<close>

definition int32 :: "int \<Rightarrow> int" where
  "int32 x = (x + 2147483648) mod 4294967296 - 2147483648"

definition uint32 :: "int \<Rightarrow> int" where
  "uint32 x = x mod 4294967296"

definition size_t :: "int \<Rightarrow> int" where
  "size_t x = x mod 18446744073709551616"

definition add32 :: "int \<Rightarrow> int \<Rightarrow> int" where "add32 a b = int32 (a + b)"
definition sub32 :: "int \<Rightarrow> int \<Rightarrow> int" where "sub32 a b = int32 (a - b)"
definition mul32 :: "int \<Rightarrow> int \<Rightarrow> int" where "mul32 a b = int32 (a * b)"

definition addu :: "int \<Rightarrow> int \<Rightarrow> int" where "addu a b = uint32 (a + b)"
definition subu :: "int \<Rightarrow> int \<Rightarrow> int" where "subu a b = uint32 (a - b)"
definition mulu :: "int \<Rightarrow> int \<Rightarrow> int" where "mulu a b = uint32 (a * b)"

section \<open>Loops\<close>

text \<open>
  The loop \<^verbatim>\<open>for (i = lo; i < hi; ++i) body\<close>, and the same loop over a body that can
  fail: the loop stops at the first failure.
\<close>

function for_loop :: "int \<Rightarrow> int \<Rightarrow> (int \<Rightarrow> 'a \<Rightarrow> 'a) \<Rightarrow> 'a \<Rightarrow> 'a" where
  "for_loop i n body s = (if i < n then for_loop (i + 1) n body (body i s) else s)"
  by pat_completeness auto
termination
  by (relation "measure (\<lambda>(i, n, body, s). nat (n - i))") auto

declare for_loop.simps [simp del]

function for_loop_opt :: "int \<Rightarrow> int \<Rightarrow> (int \<Rightarrow> 'a \<Rightarrow> 'a option) \<Rightarrow> 'a \<Rightarrow> 'a option" where
  "for_loop_opt i n body s =
     (if i < n
      then (case body i s of None \<Rightarrow> None | Some s' \<Rightarrow> for_loop_opt (i + 1) n body s')
      else Some s)"
  by pat_completeness auto
termination
  by (relation "measure (\<lambda>(i, n, body, s). nat (n - i))") auto

declare for_loop_opt.simps [simp del]

section \<open>The GSL primitives the header calls\<close>

text \<open>
  GSL is an external library. Its matrix and vector views are modelled by the data
  movement they are documented to perform; the argument checks of the views, which end in
  the GSL error handler, are not modelled, the length check of the copy routines and the
  range check of \<open>gsl_matrix_get\<close> and \<open>gsl_matrix_set\<close> are. Allocation does not fail.
\<close>

record gsl_matrix =
  size1 :: int
  size2 :: int
  tda :: int
  data :: block

record gsl_vector =
  size_v :: int
  stride_v :: int
  data_v :: block
  offset_v :: int

definition gsl_matrix_alloc :: "int \<Rightarrow> int \<Rightarrow> machine \<Rightarrow> gsl_matrix \<times> machine" where
  "gsl_matrix_alloc n1 n2 s =
     (let (b, s') = alloc s in (\<lparr>size1 = n1, size2 = n2, tda = n2, data = b\<rparr>, s'))"

definition gsl_matrix_view_array :: "block \<Rightarrow> int \<Rightarrow> int \<Rightarrow> gsl_matrix" where
  "gsl_matrix_view_array base n1 n2 = \<lparr>size1 = n1, size2 = n2, tda = n2, data = base\<rparr>"

definition gsl_matrix_set_zero :: "gsl_matrix \<Rightarrow> machine \<Rightarrow> machine" where
  "gsl_matrix_set_zero m s =
     for_loop 0 (size1 m) (\<lambda>i. for_loop 0 (size2 m) (\<lambda>j. store (data m) (i * tda m + j) 0)) s"

definition gsl_matrix_get :: "gsl_matrix \<Rightarrow> int \<Rightarrow> int \<Rightarrow> machine \<Rightarrow> real option" where
  "gsl_matrix_get m i j s =
     (if 0 \<le> i \<and> i < size1 m \<and> 0 \<le> j \<and> j < size2 m
      then Some (load s (data m) (i * tda m + j)) else None)"

definition gsl_matrix_set :: "gsl_matrix \<Rightarrow> int \<Rightarrow> int \<Rightarrow> real \<Rightarrow> machine \<Rightarrow> machine option" where
  "gsl_matrix_set m i j x s =
     (if 0 \<le> i \<and> i < size1 m \<and> 0 \<le> j \<and> j < size2 m
      then Some (store (data m) (i * tda m + j) x s) else None)"

definition gsl_matrix_column :: "gsl_matrix \<Rightarrow> int \<Rightarrow> gsl_vector" where
  "gsl_matrix_column m j =
     \<lparr>size_v = size1 m, stride_v = tda m, data_v = data m, offset_v = j\<rparr>"

definition gsl_matrix_subcolumn :: "gsl_matrix \<Rightarrow> int \<Rightarrow> int \<Rightarrow> int \<Rightarrow> gsl_vector" where
  "gsl_matrix_subcolumn m j offset n =
     \<lparr>size_v = n, stride_v = tda m, data_v = data m, offset_v = offset * tda m + j\<rparr>"

definition gsl_vector_memcpy :: "gsl_vector \<Rightarrow> gsl_vector \<Rightarrow> machine \<Rightarrow> machine" where
  "gsl_vector_memcpy dest src s =
     (if size_v dest \<noteq> size_v src then s
      else for_loop 0 (size_v src) (\<lambda>j s'.
             store (data_v dest) (offset_v dest + stride_v dest * j)
               (load s' (data_v src) (offset_v src + stride_v src * j)) s') s)"

definition gsl_matrix_set_col :: "gsl_matrix \<Rightarrow> int \<Rightarrow> gsl_vector \<Rightarrow> machine \<Rightarrow> machine" where
  "gsl_matrix_set_col m j v s =
     (if size_v v \<noteq> size1 m then s
      else for_loop 0 (size1 m) (\<lambda>i s'.
             store (data m) (i * tda m + j)
               (load s' (data_v v) (offset_v v + stride_v v * i)) s') s)"

text \<open>
  The complex transform of length \<open>n\<close> over the elements at \<open>data[2*stride*k]\<close> (real
  part) and \<open>data[2*stride*k+1]\<close> (imaginary part): GSL documents it as the discrete
  Fourier transform with the sign \<open>-1\<close> forward and \<open>+1\<close> backward, in place. The code of
  GSL is not among the sources; each component it stores is taken to be the exact sum
  rounded once, with the rounding \<open>fl\<close> of the machine, which no implementation in doubles
  improves on. The inverse is the backward transform followed by the scaling by \<open>1/n\<close>,
  a rounded quotient and a rounded product. The wavetable and the scratch space carry no
  part of the result.
\<close>

definition dft :: "real \<Rightarrow> int \<Rightarrow> (int \<Rightarrow> complex) \<Rightarrow> int \<Rightarrow> complex" where
  "dft sign n z k =
     (\<Sum>m = 0..<n. z m * cis (sign * (2 * pi * real_of_int (k * m) / real_of_int n)))"

definition gsl_fft_complex_transform ::
  "(real \<Rightarrow> real) \<Rightarrow> block \<times> int \<Rightarrow> int \<Rightarrow> int \<Rightarrow> real \<Rightarrow> machine \<Rightarrow> machine" where
  "gsl_fft_complex_transform fl p stride n sign s =
     (let z = (\<lambda>m. Complex (load s (fst p) (snd p + 2 * stride * m))
                            (load s (fst p) (snd p + 2 * stride * m + 1)))
      in for_loop 0 n (\<lambda>k s'.
           store (fst p) (snd p + 2 * stride * k + 1) (fl (Im (dft sign n z k)))
             (store (fst p) (snd p + 2 * stride * k) (fl (Re (dft sign n z k))) s')) s)"

definition gsl_fft_complex_forward ::
  "(real \<Rightarrow> real) \<Rightarrow> block \<times> int \<Rightarrow> int \<Rightarrow> int \<Rightarrow> block \<Rightarrow> block \<Rightarrow> machine \<Rightarrow> machine" where
  "gsl_fft_complex_forward fl p stride n wavetable work s =
     gsl_fft_complex_transform fl p stride n (- 1) s"

definition gsl_fft_complex_inverse ::
  "(real \<Rightarrow> real) \<Rightarrow> block \<times> int \<Rightarrow> int \<Rightarrow> int \<Rightarrow> block \<Rightarrow> block \<Rightarrow> machine \<Rightarrow> machine" where
  "gsl_fft_complex_inverse fl p stride n wavetable work s =
     (let s1 = gsl_fft_complex_transform fl p stride n 1 s;
          norm = fl (1 / real_of_int n)
      in for_loop 0 n (\<lambda>i s'.
           let s'' = store (fst p) (snd p + 2 * stride * i)
                       (fl (load s' (fst p) (snd p + 2 * stride * i) * norm)) s'
           in store (fst p) (snd p + 2 * stride * i + 1)
                (fl (load s'' (fst p) (snd p + 2 * stride * i + 1) * norm)) s'') s1)"

text \<open>
  An element access \<open>m->data[a]\<close> written in the header. It is defined within the
  \<open>size1 * tda\<close> doubles of the matrix; outside them the behaviour of the program is
  undefined, which is the result \<open>None\<close>. So is a transform whose line, from the pointer
  it is given, does not lie within the matrix.
\<close>

definition in_matrix :: "gsl_matrix \<Rightarrow> int \<Rightarrow> bool" where
  "in_matrix m a \<longleftrightarrow> 0 \<le> a \<and> a < size1 m * tda m"

definition read_cell :: "gsl_matrix \<Rightarrow> int \<Rightarrow> machine \<Rightarrow> real option" where
  "read_cell m a s = (if in_matrix m a then Some (load s (data m) a) else None)"

definition write_cell :: "gsl_matrix \<Rightarrow> int \<Rightarrow> real \<Rightarrow> machine \<Rightarrow> machine option" where
  "write_cell m a v s = (if in_matrix m a then Some (store (data m) a v s) else None)"

definition line_in_matrix :: "gsl_matrix \<Rightarrow> int \<Rightarrow> int \<Rightarrow> int \<Rightarrow> bool" where
  "line_in_matrix m off stride n \<longleftrightarrow>
     n \<le> 0 \<or> (0 \<le> stride \<and> in_matrix m off \<and> in_matrix m (off + 2 * stride * (n - 1) + 1))"

section \<open>The size optimizer\<close>

text \<open>
  Modelled from the spec: \<open>find_closest_factor\<close> of factorize.h, which is not among the
  sources. The spec gives its contract: the smallest integer \<open>n \<ge> minimum\<close> that is a
  product of one or more values of the table of allowed factors, found here by a scan
  upwards from the minimum. The table is the zero-terminated array of the header.
\<close>

definition GSL_FACTORS :: "int list" where
  "GSL_FACTORS = [7, 6, 5, 4, 3, 2, 0]"

function is_product :: "int \<Rightarrow> int list \<Rightarrow> bool" where
  "is_product n fs =
     (n \<in> set fs \<or>
      (\<exists>f \<in> set fs. if 1 < f \<and> f < n \<and> n mod f = 0 then is_product (n div f) fs else False))"
  by pat_completeness auto
termination
proof (relation "measure (\<lambda>(n, fs). nat n)")
  show "wf (measure (\<lambda>(n, fs). nat n))" by simp
next
  fix n :: int and fs :: "int list" and f :: int
  assume "1 < f \<and> f < n \<and> n mod f = 0"
  then have "n div f < n" by (simp add: int_div_less_self)
  moreover have "0 < n" using \<open>1 < f \<and> f < n \<and> n mod f = 0\<close> by simp
  ultimately show "((n div f, fs), (n, fs)) \<in> measure (\<lambda>(n, fs). nat n)" by simp
qed

declare is_product.simps [simp del]

partial_function (option) scan_from :: "int list \<Rightarrow> int \<Rightarrow> int option" where
  "scan_from fs n = (if is_product n fs then Some n else scan_from fs (n + 1))"

definition find_closest_factor :: "int \<Rightarrow> int list \<Rightarrow> int option" where
  "find_closest_factor n factors = scan_from (takeWhile (\<lambda>f. f \<noteq> 0) factors) n"

section \<open>The workspace\<close>

text \<open>
  The enumeration \<open>GSL_Convolution_Mode\<close> is held in an int field, which can hold values
  other than the four enumerators: the \<open>default\<close> branch of \<open>convolve\<close> is for them.
\<close>

definition LINEAR :: int where "LINEAR = 0"
definition LINEAR_OPTIMAL :: int where "LINEAR_OPTIMAL = 1"
definition CIRCULAR :: int where "CIRCULAR = 2"
definition CIRCULAR_OPTIMAL :: int where "CIRCULAR_OPTIMAL = 3"

record Workspace =
  ws_column :: block
  ws_line :: block
  wv_column :: block
  wv_line :: block
  h_src :: int
  w_src :: int
  h_kernel :: int
  w_kernel :: int
  h_res :: int
  w_res :: int
  fft :: gsl_matrix
  fft_copy :: gsl_matrix
  mode :: int

text \<open>
  \<open>init_workspace\<close> writes the fields of the workspace it is given. A mode outside
  the enumeration leaves \<open>h_res\<close> and \<open>w_res\<close> as they were. The result is \<open>None\<close> when
  the size optimizer does not return. The sums are sums of ints: they wrap around.
\<close>

definition working_size :: "Workspace \<Rightarrow> int \<Rightarrow> int \<Rightarrow> int \<Rightarrow> int \<Rightarrow> int \<Rightarrow> (int \<times> int) option" where
  "working_size ws m hs wsrc hk wk =
     (if m = LINEAR then
        Some (add32 hs (add32 hk 1 sdiv 2), add32 wsrc (add32 wk 1 sdiv 2))
      else if m = LINEAR_OPTIMAL then
        (case find_closest_factor (add32 hs (add32 hk 1 sdiv 2)) GSL_FACTORS of
           None \<Rightarrow> None
         | Some h \<Rightarrow>
             (case find_closest_factor (add32 wsrc (add32 wk 1 sdiv 2)) GSL_FACTORS of
                None \<Rightarrow> None
              | Some w \<Rightarrow> Some (h, w)))
      else if m = CIRCULAR then Some (add32 hs hk, add32 wsrc wk)
      else if m = CIRCULAR_OPTIMAL then
        (case find_closest_factor (add32 hs hk) GSL_FACTORS of
           None \<Rightarrow> None
         | Some h \<Rightarrow>
             (case find_closest_factor (add32 wsrc wk) GSL_FACTORS of
                None \<Rightarrow> None
              | Some w \<Rightarrow> Some (h, w)))
      else Some (h_res ws, w_res ws))"

definition init_workspace ::
  "Workspace \<Rightarrow> int \<Rightarrow> int \<Rightarrow> int \<Rightarrow> int \<Rightarrow> int \<Rightarrow> machine \<Rightarrow> (Workspace \<times> machine) option" where
  "init_workspace ws m hs wsrc hk wk s =
     (case working_size ws m hs wsrc hk wk of
        None \<Rightarrow> None
      | Some (h, w) \<Rightarrow>
          (let (f, s1) = gsl_matrix_alloc (size_t h) (size_t (mul32 2 w)) s;
               (fc, s2) = gsl_matrix_alloc (size_t h) (size_t (mul32 2 w)) s1;
               (wc, s3) = alloc s2;
               (wl, s4) = alloc s3;
               (vc, s5) = alloc s4;
               (vl, s6) = alloc s5
           in Some (ws\<lparr>ws_column := wc, ws_line := wl, wv_column := vc, wv_line := vl,
                        h_src := hs, w_src := wsrc, h_kernel := hk, w_kernel := wk,
                        h_res := h, w_res := w, fft := f, fft_copy := fc, mode := m\<rparr>, s6)))"

section \<open>The stages of the four routines\<close>

text \<open>
  The routines \<open>linear_convolution\<close>, \<open>linear_convolution_optimal\<close> and
  \<open>circular_convolution_optimal\<close> repeat the same text for the packing of the kernel, the
  transforms, the spectral product and (the first two) the packing of the source and the
  extraction; each repeated passage is one definition here. \<open>circular_convolution\<close> has
  its own packing, product and extraction, written with GSL views and accessors.

  The counters of the loop that packs the source are \<open>unsigned int\<close> in the two linear
  routines, and so is the index arithmetic on them; all the other counters of these
  passages are \<open>int\<close>. An expression such as \<open>i*2*ws.w_res + 2*j\<close> is evaluated from the
  left, one 32-bit operation after the other.
\<close>

definition pack_source :: "Workspace \<Rightarrow> gsl_matrix \<Rightarrow> machine \<Rightarrow> machine option" where
  "pack_source ws src s0 =
     for_loop_opt 0 (uint32 (h_src ws)) (\<lambda>i.
       for_loop_opt 0 (uint32 (w_src ws)) (\<lambda>j s. do {
         v \<leftarrow> read_cell src (addu (mulu i (uint32 (w_src ws))) j) s;
         write_cell (fft ws) (addu (mulu (mulu i 2) (uint32 (w_res ws))) (mulu 2 j)) v s
       })) s0"

definition pack_kernel :: "Workspace \<Rightarrow> gsl_matrix \<Rightarrow> machine \<Rightarrow> machine option" where
  "pack_kernel ws kern s0 =
     for_loop_opt 0 (h_kernel ws) (\<lambda>i.
       let i_src = sub32 i (h_kernel ws sdiv 2);
           i_src = (if i_src < 0 then add32 i_src (h_res ws) else i_src)
       in for_loop_opt 0 (w_kernel ws) (\<lambda>j s.
            let j_src = sub32 j (w_kernel ws sdiv 2);
                j_src = (if j_src < 0 then add32 j_src (w_res ws) else j_src)
            in do {
              v \<leftarrow> read_cell kern (add32 (mul32 i (w_kernel ws)) j) s;
              write_cell (fft ws)
                (add32 (add32 (mul32 (mul32 i_src 2) (w_res ws)) (mul32 2 j_src)) 1) v s
            })) s0"

definition forward_transform :: "(real \<Rightarrow> real) \<Rightarrow> Workspace \<Rightarrow> machine \<Rightarrow> machine option" where
  "forward_transform fl ws s0 = do {
     s1 \<leftarrow> for_loop_opt 0 (h_res ws) (\<lambda>i s.
             let off = mul32 (mul32 i 2) (w_res ws)
             in if line_in_matrix (fft ws) off 1 (size_t (w_res ws))
                then Some (gsl_fft_complex_forward fl (data (fft ws), off) 1 (size_t (w_res ws))
                             (wv_line ws) (ws_line ws) s)
                else None) s0;
     for_loop_opt 0 (w_res ws) (\<lambda>j s.
       let off = mul32 2 j
       in if line_in_matrix (fft ws) off (size_t (w_res ws)) (size_t (h_res ws))
          then Some (gsl_fft_complex_forward fl (data (fft ws), off) (size_t (w_res ws))
                       (size_t (h_res ws)) (wv_column ws) (ws_column ws) s)
          else None) s1
   }"

definition spectral_product :: "(real \<Rightarrow> real) \<Rightarrow> Workspace \<Rightarrow> machine \<Rightarrow> machine option" where
  "spectral_product fl ws s0 =
     for_loop_opt 0 (h_res ws) (\<lambda>i.
       for_loop_opt 0 (w_res ws) (\<lambda>j s. do {
         re_h \<leftarrow> read_cell (fft ws) (add32 (mul32 (mul32 i 2) (w_res ws)) (mul32 2 j)) s;
         im_h \<leftarrow> read_cell (fft ws)
                  (add32 (add32 (mul32 (mul32 i 2) (w_res ws)) (mul32 2 j)) 1) s;
         re_hs \<leftarrow> read_cell (fft ws)
                   (add32 (mul32 (mul32 (sub32 (h_res ws) i smod h_res ws) 2) (w_res ws))
                          (sub32 (mul32 2 (w_res ws)) (mul32 2 j) smod mul32 2 (w_res ws))) s;
         im_hs' \<leftarrow> read_cell (fft ws)
                   (add32 (add32 (mul32 (mul32 (sub32 (h_res ws) i smod h_res ws) 2) (w_res ws))
                                 (sub32 (mul32 2 (w_res ws)) (mul32 2 j) smod mul32 2 (w_res ws)))
                          1) s;
         let im_hs = - im_hs';
         s' \<leftarrow> write_cell (fft_copy ws) (add32 (mul32 (mul32 i 2) (w_res ws)) (mul32 2 j))
                 (fl (0.5 * fl (fl (re_h * im_h) - fl (re_hs * im_hs)))) s;
         write_cell (fft_copy ws) (add32 (add32 (mul32 (mul32 i 2) (w_res ws)) (mul32 2 j)) 1)
           (fl (- 0.25 * fl (fl (fl (fl (re_h * re_h) - fl (im_h * im_h)) - fl (re_hs * re_hs))
                             + fl (im_hs * im_hs)))) s'
       })) s0"

definition spectral_product_get_set ::
  "(real \<Rightarrow> real) \<Rightarrow> Workspace \<Rightarrow> machine \<Rightarrow> machine option" where
  "spectral_product_get_set fl ws s0 =
     for_loop_opt 0 (h_res ws) (\<lambda>i.
       for_loop_opt 0 (w_res ws) (\<lambda>j s. do {
         re_h \<leftarrow> gsl_matrix_get (fft ws) i (mul32 2 j) s;
         im_h \<leftarrow> gsl_matrix_get (fft ws) i (add32 (mul32 2 j) 1) s;
         re_hs \<leftarrow> gsl_matrix_get (fft ws) (sub32 (h_res ws) i smod h_res ws)
                   (sub32 (mul32 2 (w_res ws)) (mul32 2 j) smod mul32 2 (w_res ws)) s;
         im_hs' \<leftarrow> gsl_matrix_get (fft ws) (sub32 (h_res ws) i smod h_res ws)
                   (add32 (sub32 (mul32 2 (w_res ws)) (mul32 2 j) smod mul32 2 (w_res ws)) 1) s;
         let im_hs = - im_hs';
         s' \<leftarrow> gsl_matrix_set (fft_copy ws) i (mul32 2 j)
                 (fl (0.5 * fl (fl (re_h * im_h) - fl (re_hs * im_hs)))) s;
         gsl_matrix_set (fft_copy ws) i (add32 (mul32 2 j) 1)
           (fl (- 0.25 * fl (fl (fl (fl (re_h * re_h) - fl (im_h * im_h)) - fl (re_hs * re_hs))
                             + fl (im_hs * im_hs)))) s'
       })) s0"

definition inverse_transform :: "(real \<Rightarrow> real) \<Rightarrow> Workspace \<Rightarrow> machine \<Rightarrow> machine option" where
  "inverse_transform fl ws s0 = do {
     s1 \<leftarrow> for_loop_opt 0 (h_res ws) (\<lambda>i s.
             let off = mul32 (mul32 i 2) (w_res ws)
             in if line_in_matrix (fft_copy ws) off 1 (size_t (w_res ws))
                then Some (gsl_fft_complex_inverse fl (data (fft_copy ws), off) 1
                             (size_t (w_res ws)) (wv_line ws) (ws_line ws) s)
                else None) s0;
     for_loop_opt 0 (w_res ws) (\<lambda>j s.
       let off = mul32 2 j
       in if line_in_matrix (fft_copy ws) off (size_t (w_res ws)) (size_t (h_res ws))
          then Some (gsl_fft_complex_inverse fl (data (fft_copy ws), off) (size_t (w_res ws))
                       (size_t (h_res ws)) (wv_column ws) (ws_column ws) s)
          else None) s1
   }"

definition extract_real :: "Workspace \<Rightarrow> gsl_matrix \<Rightarrow> machine \<Rightarrow> machine option" where
  "extract_real ws dst s0 =
     for_loop_opt 0 (h_src ws) (\<lambda>i.
       for_loop_opt 0 (w_src ws) (\<lambda>j s. do {
         v \<leftarrow> read_cell (fft_copy ws) (add32 (mul32 (mul32 i 2) (w_res ws)) (mul32 2 j)) s;
         write_cell dst (add32 (mul32 i (w_src ws)) j) v s
       })) s0"

text \<open>The passages of \<open>circular_convolution\<close>, through the views of GSL.\<close>

definition pack_source_columns :: "Workspace \<Rightarrow> gsl_matrix \<Rightarrow> machine \<Rightarrow> machine" where
  "pack_source_columns ws src s0 =
     for_loop 0 (uint32 (w_src ws)) (\<lambda>i s.
       let xv = gsl_matrix_subcolumn (fft ws) (mulu 2 i) 0 (size_t (h_src ws));
           yv = gsl_matrix_column src i
       in gsl_vector_memcpy xv yv s) s0"

definition pack_kernel_quadrants :: "Workspace \<Rightarrow> gsl_matrix \<Rightarrow> machine \<Rightarrow> machine" where
  "pack_kernel_quadrants ws kern s0 =
     (let s1 = for_loop 0 (uint32 (w_kernel ws sdiv 2)) (\<lambda>i s.
                 let xv = gsl_matrix_subcolumn (fft ws)
                            (addu (addu (uint32 (sub32 (mul32 2 (w_res ws))
                                                       (mul32 2 (w_kernel ws sdiv 2))))
                                        (mulu 2 i)) 1)
                            (size_t (sub32 (h_res ws) (h_kernel ws sdiv 2)))
                            (size_t (h_kernel ws sdiv 2));
                     yv = gsl_matrix_subcolumn kern i 0 (size_t (h_kernel ws sdiv 2));
                     s' = gsl_vector_memcpy xv yv s;
                     xv = gsl_matrix_subcolumn (fft ws)
                            (addu (addu (uint32 (sub32 (mul32 2 (w_res ws))
                                                       (mul32 2 (w_kernel ws sdiv 2))))
                                        (mulu 2 i)) 1)
                            0 (size_t (add32 (h_kernel ws) 1 sdiv 2));
                     yv = gsl_matrix_subcolumn kern i (size_t (h_kernel ws sdiv 2))
                            (size_t (add32 (h_kernel ws) 1 sdiv 2))
                 in gsl_vector_memcpy xv yv s') s0
      in for_loop (uint32 (w_kernel ws sdiv 2)) (uint32 (w_kernel ws)) (\<lambda>i s.
           let xv = gsl_matrix_subcolumn (fft ws)
                      (addu (mulu 2 (subu i (uint32 (w_kernel ws sdiv 2)))) 1)
                      (size_t (sub32 (h_res ws) (h_kernel ws sdiv 2)))
                      (size_t (h_kernel ws sdiv 2));
               yv = gsl_matrix_subcolumn kern i 0 (size_t (h_kernel ws sdiv 2));
               s' = gsl_vector_memcpy xv yv s;
               xv = gsl_matrix_subcolumn (fft ws)
                      (addu (mulu 2 (subu i (uint32 (w_kernel ws sdiv 2)))) 1)
                      0 (size_t (add32 (h_kernel ws) 1 sdiv 2));
               yv = gsl_matrix_subcolumn kern i (size_t (h_kernel ws sdiv 2))
                      (size_t (add32 (h_kernel ws) 1 sdiv 2))
           in gsl_vector_memcpy xv yv s') s1)"

definition extract_columns :: "Workspace \<Rightarrow> gsl_matrix \<Rightarrow> machine \<Rightarrow> machine" where
  "extract_columns ws dst s0 =
     for_loop 0 (uint32 (w_src ws)) (\<lambda>i s.
       let xv = gsl_matrix_subcolumn (fft_copy ws) (mulu 2 i) 0 (size_t (h_src ws))
       in gsl_matrix_set_col dst i xv s) s0"

text \<open>
  The passages of \<open>circular_convolution_optimal\<close>. The index of the periodic extension
  is one conditional addition or subtraction of the dimension of the source.
\<close>

definition wrap_index :: "int \<Rightarrow> int \<Rightarrow> int \<Rightarrow> int" where
  "wrap_index i kdim sdim =
     (let i_src = sub32 i (add32 kdim 1 sdiv 2)
      in if i_src < 0 then add32 i_src sdim
         else if i_src \<ge> sdim then sub32 i_src sdim
         else i_src)"

definition pack_source_wrapped :: "Workspace \<Rightarrow> gsl_matrix \<Rightarrow> machine \<Rightarrow> machine option" where
  "pack_source_wrapped ws src s0 =
     for_loop_opt 0 (add32 (h_src ws) (h_kernel ws)) (\<lambda>i.
       let i_src = wrap_index i (h_kernel ws) (h_src ws)
       in for_loop_opt 0 (add32 (w_src ws) (w_kernel ws)) (\<lambda>j s.
            let j_src = wrap_index j (w_kernel ws) (w_src ws)
            in do {
              v \<leftarrow> read_cell src (add32 (mul32 i_src (w_src ws)) j_src) s;
              write_cell (fft ws) (add32 (mul32 (mul32 i 2) (w_res ws)) (mul32 2 j)) v s
            })) s0"

definition extract_central :: "Workspace \<Rightarrow> gsl_matrix \<Rightarrow> machine \<Rightarrow> machine option" where
  "extract_central ws dst s0 =
     for_loop_opt 0 (h_src ws) (\<lambda>i.
       for_loop_opt 0 (w_src ws) (\<lambda>j s. do {
         v \<leftarrow> read_cell (fft_copy ws)
                (add32 (mul32 (mul32 (add32 i (add32 (h_kernel ws) 1 sdiv 2)) 2) (w_res ws))
                       (mul32 2 (add32 (add32 (w_kernel ws) 1 sdiv 2) j))) s;
         write_cell dst (add32 (mul32 i (w_src ws)) j) v s
       })) s0"

section \<open>The four routines and the entry point\<close>

text \<open>
  A routine returns nothing: all it leaves is the machine, or \<open>None\<close> when one of its
  accesses is undefined.
\<close>

definition linear_convolution ::
  "Workspace \<Rightarrow> gsl_matrix \<Rightarrow> gsl_matrix \<Rightarrow> gsl_matrix \<Rightarrow> machine \<Rightarrow> machine option" where
  "linear_convolution ws src kern dst s0 = do {
     let s1 = gsl_matrix_set_zero (fft ws) s0;
     s2 \<leftarrow> pack_source ws src s1;
     s3 \<leftarrow> pack_kernel ws kern s2;
     s4 \<leftarrow> forward_transform (rounding s0) ws s3;
     s5 \<leftarrow> spectral_product (rounding s0) ws s4;
     s6 \<leftarrow> inverse_transform (rounding s0) ws s5;
     extract_real ws dst s6
   }"

definition linear_convolution_optimal ::
  "Workspace \<Rightarrow> gsl_matrix \<Rightarrow> gsl_matrix \<Rightarrow> gsl_matrix \<Rightarrow> machine \<Rightarrow> machine option" where
  "linear_convolution_optimal ws src kern dst s0 = do {
     let s1 = gsl_matrix_set_zero (fft ws) s0;
     s2 \<leftarrow> pack_source ws src s1;
     s3 \<leftarrow> pack_kernel ws kern s2;
     s4 \<leftarrow> forward_transform (rounding s0) ws s3;
     s5 \<leftarrow> spectral_product (rounding s0) ws s4;
     s6 \<leftarrow> inverse_transform (rounding s0) ws s5;
     extract_real ws dst s6
   }"

definition circular_convolution ::
  "Workspace \<Rightarrow> gsl_matrix \<Rightarrow> gsl_matrix \<Rightarrow> gsl_matrix \<Rightarrow> machine \<Rightarrow> machine option" where
  "circular_convolution ws src kern dst s0 = do {
     let s1 = gsl_matrix_set_zero (fft ws) s0;
     let s2 = pack_source_columns ws src s1;
     let s3 = pack_kernel_quadrants ws kern s2;
     s4 \<leftarrow> forward_transform (rounding s0) ws s3;
     s5 \<leftarrow> spectral_product_get_set (rounding s0) ws s4;
     s6 \<leftarrow> inverse_transform (rounding s0) ws s5;
     Some (extract_columns ws dst s6)
   }"

definition circular_convolution_optimal ::
  "Workspace \<Rightarrow> gsl_matrix \<Rightarrow> gsl_matrix \<Rightarrow> gsl_matrix \<Rightarrow> machine \<Rightarrow> machine option" where
  "circular_convolution_optimal ws src kern dst s0 = do {
     let s1 = gsl_matrix_set_zero (fft ws) s0;
     s2 \<leftarrow> pack_source_wrapped ws src s1;
     s3 \<leftarrow> pack_kernel ws kern s2;
     s4 \<leftarrow> forward_transform (rounding s0) ws s3;
     s5 \<leftarrow> spectral_product (rounding s0) ws s4;
     s6 \<leftarrow> inverse_transform (rounding s0) ws s5;
     extract_central ws dst s6
   }"

text \<open>
  \<open>convolve\<close> returns nothing (\<open>void\<close>). The arguments \<open>src\<close>, \<open>kern\<close> and \<open>dst\<close> are
  the caller's arrays, which the views take to have \<open>h_src * w_src\<close> and
  \<open>h_kernel * w_kernel\<close> elements.
\<close>

definition convolve :: "Workspace \<Rightarrow> block \<Rightarrow> block \<Rightarrow> block \<Rightarrow> machine \<Rightarrow> machine option" where
  "convolve ws src kern dst s =
     (let src_view = gsl_matrix_view_array src (size_t (h_src ws)) (size_t (w_src ws));
          kernel_view = gsl_matrix_view_array kern (size_t (h_kernel ws)) (size_t (w_kernel ws));
          dst_view = gsl_matrix_view_array dst (size_t (h_src ws)) (size_t (w_src ws))
      in if mode ws = LINEAR then linear_convolution ws src_view kernel_view dst_view s
         else if mode ws = LINEAR_OPTIMAL then
           linear_convolution_optimal ws src_view kernel_view dst_view s
         else if mode ws = CIRCULAR then circular_convolution ws src_view kernel_view dst_view s
         else if mode ws = CIRCULAR_OPTIMAL then
           circular_convolution_optimal ws src_view kernel_view dst_view s
         else
           Some (printf ''   - CIRCULAR_OPTIMAL''
             (printf ''   - CIRCULAR ''
               (printf ''   - LINEAR_OPTIMAL ''
                 (printf ''   - LINEAR ''
                   (printf ''Unrecognized convolution mode, possible modes are :'' s))))))"

section \<open>The stages without overflow\<close>

text \<open>
  The same passages over unbounded integers, with every access taken as it is written:
  what the passages compute as long as no index overflows and no access leaves its array.
  The lemmas \<open>*_refines\<close> below give the bounds under which a passage is its counterpart
  here; the analysis of the loops is carried out on these.
\<close>

definition working_size_ideal :: "Workspace \<Rightarrow> int \<Rightarrow> int \<Rightarrow> int \<Rightarrow> int \<Rightarrow> int \<Rightarrow> (int \<times> int) option" where
  "working_size_ideal ws m hs wsrc hk wk =
     (if m = LINEAR then Some (hs + (hk + 1) sdiv 2, wsrc + (wk + 1) sdiv 2)
      else if m = LINEAR_OPTIMAL then
        (case find_closest_factor (hs + (hk + 1) sdiv 2) GSL_FACTORS of
           None \<Rightarrow> None
         | Some h \<Rightarrow>
             (case find_closest_factor (wsrc + (wk + 1) sdiv 2) GSL_FACTORS of
                None \<Rightarrow> None
              | Some w \<Rightarrow> Some (h, w)))
      else if m = CIRCULAR then Some (hs + hk, wsrc + wk)
      else if m = CIRCULAR_OPTIMAL then
        (case find_closest_factor (hs + hk) GSL_FACTORS of
           None \<Rightarrow> None
         | Some h \<Rightarrow>
             (case find_closest_factor (wsrc + wk) GSL_FACTORS of
                None \<Rightarrow> None
              | Some w \<Rightarrow> Some (h, w)))
      else Some (h_res ws, w_res ws))"

definition init_workspace_ideal ::
  "Workspace \<Rightarrow> int \<Rightarrow> int \<Rightarrow> int \<Rightarrow> int \<Rightarrow> int \<Rightarrow> machine \<Rightarrow> (Workspace \<times> machine) option" where
  "init_workspace_ideal ws m hs wsrc hk wk s =
     (case working_size_ideal ws m hs wsrc hk wk of
        None \<Rightarrow> None
      | Some (h, w) \<Rightarrow>
          (let (f, s1) = gsl_matrix_alloc h (2 * w) s;
               (fc, s2) = gsl_matrix_alloc h (2 * w) s1;
               (wc, s3) = alloc s2;
               (wl, s4) = alloc s3;
               (vc, s5) = alloc s4;
               (vl, s6) = alloc s5
           in Some (ws\<lparr>ws_column := wc, ws_line := wl, wv_column := vc, wv_line := vl,
                        h_src := hs, w_src := wsrc, h_kernel := hk, w_kernel := wk,
                        h_res := h, w_res := w, fft := f, fft_copy := fc, mode := m\<rparr>, s6)))"


definition pack_kernel_ideal :: "Workspace \<Rightarrow> gsl_matrix \<Rightarrow> machine \<Rightarrow> machine" where
  "pack_kernel_ideal ws kern s0 =
     for_loop 0 (h_kernel ws) (\<lambda>i.
       let i_src = i - h_kernel ws sdiv 2;
           i_src = (if i_src < 0 then i_src + h_res ws else i_src)
       in for_loop 0 (w_kernel ws) (\<lambda>j s.
            let j_src = j - w_kernel ws sdiv 2;
                j_src = (if j_src < 0 then j_src + w_res ws else j_src)
            in store (data (fft ws)) (i_src * 2 * w_res ws + 2 * j_src + 1)
                 (load s (data kern) (i * w_kernel ws + j)) s)) s0"

definition forward_transform_ideal :: "(real \<Rightarrow> real) \<Rightarrow> Workspace \<Rightarrow> machine \<Rightarrow> machine" where
  "forward_transform_ideal fl ws s0 =
     (let s1 = for_loop 0 (h_res ws) (\<lambda>i.
                 gsl_fft_complex_forward fl (data (fft ws), i * 2 * w_res ws) 1 (w_res ws)
                   (wv_line ws) (ws_line ws)) s0
      in for_loop 0 (w_res ws) (\<lambda>j.
           gsl_fft_complex_forward fl (data (fft ws), 2 * j) (w_res ws) (h_res ws)
             (wv_column ws) (ws_column ws)) s1)"

definition spectral_product_ideal :: "(real \<Rightarrow> real) \<Rightarrow> Workspace \<Rightarrow> machine \<Rightarrow> machine" where
  "spectral_product_ideal fl ws s0 =
     for_loop 0 (h_res ws) (\<lambda>i.
       for_loop 0 (w_res ws) (\<lambda>j s.
         let re_h = load s (data (fft ws)) (i * 2 * w_res ws + 2 * j);
             im_h = load s (data (fft ws)) (i * 2 * w_res ws + 2 * j + 1);
             re_hs = load s (data (fft ws))
                       (((h_res ws - i) smod h_res ws) * 2 * w_res ws
                        + ((2 * w_res ws - 2 * j) smod (2 * w_res ws)));
             im_hs = - load s (data (fft ws))
                       (((h_res ws - i) smod h_res ws) * 2 * w_res ws
                        + ((2 * w_res ws - 2 * j) smod (2 * w_res ws)) + 1);
             s' = store (data (fft_copy ws)) (i * 2 * w_res ws + 2 * j)
                    (fl (0.5 * fl (fl (re_h * im_h) - fl (re_hs * im_hs)))) s
         in store (data (fft_copy ws)) (i * 2 * w_res ws + 2 * j + 1)
              (fl (- 0.25 * fl (fl (fl (fl (re_h * re_h) - fl (im_h * im_h)) - fl (re_hs * re_hs))
                                + fl (im_hs * im_hs)))) s')) s0"

definition inverse_transform_ideal :: "(real \<Rightarrow> real) \<Rightarrow> Workspace \<Rightarrow> machine \<Rightarrow> machine" where
  "inverse_transform_ideal fl ws s0 =
     (let s1 = for_loop 0 (h_res ws) (\<lambda>i.
                 gsl_fft_complex_inverse fl (data (fft_copy ws), i * 2 * w_res ws) 1 (w_res ws)
                   (wv_line ws) (ws_line ws)) s0
      in for_loop 0 (w_res ws) (\<lambda>j.
           gsl_fft_complex_inverse fl (data (fft_copy ws), 2 * j) (w_res ws) (h_res ws)
             (wv_column ws) (ws_column ws)) s1)"


definition pack_source_columns_ideal :: "Workspace \<Rightarrow> gsl_matrix \<Rightarrow> machine \<Rightarrow> machine" where
  "pack_source_columns_ideal ws src s0 =
     for_loop 0 (w_src ws) (\<lambda>i s.
       let xv = gsl_matrix_subcolumn (fft ws) (2 * i) 0 (h_src ws);
           yv = gsl_matrix_column src i
       in gsl_vector_memcpy xv yv s) s0"

definition pack_kernel_quadrants_ideal :: "Workspace \<Rightarrow> gsl_matrix \<Rightarrow> machine \<Rightarrow> machine" where
  "pack_kernel_quadrants_ideal ws kern s0 =
     (let s1 = for_loop 0 (w_kernel ws sdiv 2) (\<lambda>i s.
                 let xv = gsl_matrix_subcolumn (fft ws)
                            (2 * w_res ws - 2 * (w_kernel ws sdiv 2) + 2 * i + 1)
                            (h_res ws - h_kernel ws sdiv 2) (h_kernel ws sdiv 2);
                     yv = gsl_matrix_subcolumn kern i 0 (h_kernel ws sdiv 2);
                     s' = gsl_vector_memcpy xv yv s;
                     xv = gsl_matrix_subcolumn (fft ws)
                            (2 * w_res ws - 2 * (w_kernel ws sdiv 2) + 2 * i + 1)
                            0 ((h_kernel ws + 1) sdiv 2);
                     yv = gsl_matrix_subcolumn kern i (h_kernel ws sdiv 2)
                            ((h_kernel ws + 1) sdiv 2)
                 in gsl_vector_memcpy xv yv s') s0
      in for_loop (w_kernel ws sdiv 2) (w_kernel ws) (\<lambda>i s.
           let xv = gsl_matrix_subcolumn (fft ws) (2 * (i - w_kernel ws sdiv 2) + 1)
                      (h_res ws - h_kernel ws sdiv 2) (h_kernel ws sdiv 2);
               yv = gsl_matrix_subcolumn kern i 0 (h_kernel ws sdiv 2);
               s' = gsl_vector_memcpy xv yv s;
               xv = gsl_matrix_subcolumn (fft ws) (2 * (i - w_kernel ws sdiv 2) + 1)
                      0 ((h_kernel ws + 1) sdiv 2);
               yv = gsl_matrix_subcolumn kern i (h_kernel ws sdiv 2)
                      ((h_kernel ws + 1) sdiv 2)
           in gsl_vector_memcpy xv yv s') s1)"

definition extract_columns_ideal :: "Workspace \<Rightarrow> gsl_matrix \<Rightarrow> machine \<Rightarrow> machine" where
  "extract_columns_ideal ws dst s0 =
     for_loop 0 (w_src ws) (\<lambda>i s.
       let xv = gsl_matrix_subcolumn (fft_copy ws) (2 * i) 0 (h_src ws)
       in gsl_matrix_set_col dst i xv s) s0"

definition wrap_index_ideal :: "int \<Rightarrow> int \<Rightarrow> int \<Rightarrow> int" where
  "wrap_index_ideal i kdim sdim =
     (let i_src = i - (kdim + 1) sdiv 2
      in if i_src < 0 then i_src + sdim
         else if i_src \<ge> sdim then i_src - sdim
         else i_src)"

definition pack_source_wrapped_ideal :: "Workspace \<Rightarrow> gsl_matrix \<Rightarrow> machine \<Rightarrow> machine" where
  "pack_source_wrapped_ideal ws src s0 =
     for_loop 0 (h_src ws + h_kernel ws) (\<lambda>i.
       let i_src = wrap_index_ideal i (h_kernel ws) (h_src ws)
       in for_loop 0 (w_src ws + w_kernel ws) (\<lambda>j s.
            let j_src = wrap_index_ideal j (w_kernel ws) (w_src ws)
            in store (data (fft ws)) (i * 2 * w_res ws + 2 * j)
                 (load s (data src) (i_src * w_src ws + j_src)) s)) s0"

definition extract_central_ideal :: "Workspace \<Rightarrow> gsl_matrix \<Rightarrow> machine \<Rightarrow> machine" where
  "extract_central_ideal ws dst s0 =
     for_loop 0 (h_src ws) (\<lambda>i.
       for_loop 0 (w_src ws) (\<lambda>j s.
         store (data dst) (i * w_src ws + j)
           (load s (data (fft_copy ws))
              ((i + (h_kernel ws + 1) sdiv 2) * 2 * w_res ws
               + 2 * ((w_kernel ws + 1) sdiv 2 + j))) s)) s0"

section \<open>Reading the working buffers\<close>

text \<open>
  The complex sample at row \<open>i\<close> and column \<open>j\<close> of a working buffer of \<open>w\<close> complex
  columns: interleaved, the real part at the even offset.
\<close>

definition cell :: "machine \<Rightarrow> block \<Rightarrow> int \<Rightarrow> int \<Rightarrow> int \<Rightarrow> complex" where
  "cell s b w i j = Complex (load s b (i * 2 * w + 2 * j)) (load s b (i * 2 * w + 2 * j + 1))"

text \<open>The inverse transform of one line: the backward sum scaled by \<open>1/n\<close>.\<close>

definition idft :: "int \<Rightarrow> (int \<Rightarrow> complex) \<Rightarrow> int \<Rightarrow> complex" where
  "idft n z k = dft 1 n z k / of_int n"

text \<open>
  What the transforms of GSL store for one line on a machine of rounding \<open>fl\<close>: the
  components of the sum rounded, and for the inverse the rounded products with the rounded
  \<open>1/n\<close>.
\<close>

definition rdft :: "(real \<Rightarrow> real) \<Rightarrow> real \<Rightarrow> int \<Rightarrow> (int \<Rightarrow> complex) \<Rightarrow> int \<Rightarrow> complex" where
  "rdft fl sign n z k = Complex (fl (Re (dft sign n z k))) (fl (Im (dft sign n z k)))"

definition ridft :: "(real \<Rightarrow> real) \<Rightarrow> int \<Rightarrow> (int \<Rightarrow> complex) \<Rightarrow> int \<Rightarrow> complex" where
  "ridft fl n z k =
     Complex (fl (Re (rdft fl 1 n z k) * fl (1 / real_of_int n)))
             (fl (Im (rdft fl 1 n z k) * fl (1 / real_of_int n)))"

text \<open>
  The value that the spectral product stores at one index, from the sample \<open>z\<close> at the
  index and the sample \<open>zm\<close> at the mirrored index, every operation rounded.
\<close>

definition product_re :: "(real \<Rightarrow> real) \<Rightarrow> complex \<Rightarrow> complex \<Rightarrow> real" where
  "product_re fl z zm = fl (0.5 * fl (fl (Re z * Im z) - fl (Re zm * (- Im zm))))"

definition product_im :: "(real \<Rightarrow> real) \<Rightarrow> complex \<Rightarrow> complex \<Rightarrow> real" where
  "product_im fl z zm =
     fl (- 0.25 * fl (fl (fl (fl (Re z * Re z) - fl (Im z * Im z)) - fl (Re zm * Re zm))
                      + fl ((- Im zm) * (- Im zm))))"

section \<open>The mathematics behind the pipeline\<close>

text \<open>
  The root of unity that the transform of length \<open>n\<close> multiplies by, and the cyclic
  convolution of two \<open>h \<times> w\<close> arrays, which the pipeline of transforms and spectral product
  computes from the two channels of the packed buffer.
\<close>

definition omega :: "real \<Rightarrow> int \<Rightarrow> int \<Rightarrow> complex" where
  "omega sign n e = cis (sign * (2 * pi * real_of_int e / real_of_int n))"

definition cyclic1 :: "int \<Rightarrow> (int \<Rightarrow> complex) \<Rightarrow> (int \<Rightarrow> complex) \<Rightarrow> int \<Rightarrow> complex" where
  "cyclic1 n a b p = (\<Sum>i = 0..<n. a i * b ((p - i) mod n))"

definition cyclic2 ::
  "int \<Rightarrow> int \<Rightarrow> (int \<Rightarrow> int \<Rightarrow> 'a) \<Rightarrow> (int \<Rightarrow> int \<Rightarrow> 'a) \<Rightarrow> int \<Rightarrow> int \<Rightarrow> 'a::comm_semiring_0" where
  "cyclic2 h w x y p q =
     (\<Sum>i = 0..<h. \<Sum>j = 0..<w. x i j * y ((p - i) mod h) ((q - j) mod w))"

text \<open>
  Where the packing of the kernel leaves it: the kernel index that is written last at the
  wrapped position \<open>a\<close> of an axis of length \<open>n\<close>, for a kernel of \<open>k\<close> entries, and whether
  any is written there.
\<close>

definition kernel_hit :: "int \<Rightarrow> int \<Rightarrow> int \<Rightarrow> bool" where
  "kernel_hit k n a \<longleftrightarrow> a < k - k div 2 \<or> n - k div 2 \<le> a"

definition kernel_index :: "int \<Rightarrow> int \<Rightarrow> int \<Rightarrow> int" where
  "kernel_index k n a = (if a < k - k div 2 then a + k div 2 else a - n + k div 2)"

definition kernel_wrap :: "int \<Rightarrow> int \<Rightarrow> int \<Rightarrow> int" where
  "kernel_wrap k n i = (let i_src = i - k sdiv 2 in if i_src < 0 then i_src + n else i_src)"

text \<open>
  What a workspace must satisfy for the routines to stay within its buffers: the shape of
  the two buffers, positive dimensions, and room for the source and half the kernel. Every
  workspace that \<open>init_workspace\<close> builds for a recognized mode and positive dimensions
  satisfies it.
\<close>

definition workspace_ok :: "Workspace \<Rightarrow> bool" where
  "workspace_ok ws \<longleftrightarrow>
     0 < h_src ws \<and> 0 < w_src ws \<and> 0 < h_kernel ws \<and> 0 < w_kernel ws \<and>
     h_src ws + (h_kernel ws + 1) div 2 \<le> h_res ws \<and>
     w_src ws + (w_kernel ws + 1) div 2 \<le> w_res ws \<and>
     size1 (fft ws) = h_res ws \<and> size2 (fft ws) = 2 * w_res ws \<and> tda (fft ws) = 2 * w_res ws \<and>
     size1 (fft_copy ws) = h_res ws \<and> size2 (fft_copy ws) = 2 * w_res ws \<and>
     tda (fft_copy ws) = 2 * w_res ws \<and>
     data (fft ws) \<noteq> data (fft_copy ws)"

text \<open>
  The sizes for which no index of the routines overflows an \<open>int\<close>: the number of doubles
  of a working buffer, the number of elements of the kernel, and the sums of the dimensions
  of the source and the kernel, are below \<open>2\<^sup>3\<^sup>1\<close>.
\<close>

definition fits_int :: "Workspace \<Rightarrow> bool" where
  "fits_int ws \<longleftrightarrow>
     h_res ws * (2 * w_res ws) < 2147483648 \<and>
     h_kernel ws * w_kernel ws < 2147483648 \<and>
     h_src ws + h_kernel ws < 2147483648 \<and>
     w_src ws + w_kernel ws < 2147483648"

section \<open>The convolutions of the specification\<close>

text \<open>
  The direct spatial-domain convolution of the same size as the source: the kernel is
  centred at row \<open>\<lfloor>hk/2\<rfloor>\<close> and column \<open>\<lfloor>wk/2\<rfloor>\<close>, and the source is zero outside its
  extent. Source and kernel are flat row-major arrays.
\<close>

definition direct_convolution ::
  "int \<Rightarrow> int \<Rightarrow> int \<Rightarrow> int \<Rightarrow> (int \<Rightarrow> real) \<Rightarrow> (int \<Rightarrow> real) \<Rightarrow> int \<Rightarrow> int \<Rightarrow> real" where
  "direct_convolution hs wsrc hk wk src ker p q =
     (\<Sum>m = 0..<hk. \<Sum>n = 0..<wk.
        ker (m * wk + n) *
        (let i = p - (m - hk div 2); j = q - (n - wk div 2)
         in if 0 \<le> i \<and> i < hs \<and> 0 \<le> j \<and> j < wsrc then src (i * wsrc + j) else 0))"

text \<open>
  The same sum over a source given by rows and columns and zero outside \<open>a \<times> b\<close>; the
  sum that \<open>circular_convolution_optimal\<close> computes, which reads the source at the wrapped
  indices; and the periodic (circular) convolution, which reads it modulo its dimensions.
\<close>

definition padded_convolution ::
  "int \<Rightarrow> int \<Rightarrow> int \<Rightarrow> int \<Rightarrow> (int \<Rightarrow> int \<Rightarrow> real) \<Rightarrow> (int \<Rightarrow> real) \<Rightarrow> int \<Rightarrow> int \<Rightarrow> real" where
  "padded_convolution a b hk wk S ker p q =
     (\<Sum>m = 0..<hk. \<Sum>n = 0..<wk.
        ker (m * wk + n) *
        (if 0 \<le> p + hk div 2 - m \<and> p + hk div 2 - m < a \<and>
            0 \<le> q + wk div 2 - n \<and> q + wk div 2 - n < b
         then S (p + hk div 2 - m) (q + wk div 2 - n) else 0))"

definition wrapped_convolution ::
  "int \<Rightarrow> int \<Rightarrow> int \<Rightarrow> int \<Rightarrow> (int \<Rightarrow> real) \<Rightarrow> (int \<Rightarrow> real) \<Rightarrow> int \<Rightarrow> int \<Rightarrow> real" where
  "wrapped_convolution hs wsrc hk wk src ker p q =
     (\<Sum>m = 0..<hk. \<Sum>n = 0..<wk.
        ker (m * wk + n) *
        src (wrap_index_ideal (p + hk - m) hk hs * wsrc + wrap_index_ideal (q + wk - n) wk wsrc))"

definition periodic_convolution ::
  "int \<Rightarrow> int \<Rightarrow> int \<Rightarrow> int \<Rightarrow> (int \<Rightarrow> real) \<Rightarrow> (int \<Rightarrow> real) \<Rightarrow> int \<Rightarrow> int \<Rightarrow> real" where
  "periodic_convolution hs wsrc hk wk src ker p q =
     (\<Sum>m = 0..<hk. \<Sum>n = 0..<wk.
        ker (m * wk + n) *
        src (((p - (m - hk div 2)) mod hs) * wsrc + (q - (n - wk div 2)) mod wsrc))"

section \<open>Concrete inputs for the examples\<close>

text \<open>
  A machine whose blocks 0, 1 and 2 are the caller's source, kernel and destination
  arrays, all cells zero, with exact arithmetic, and a workspace that has not been
  initialised.
\<close>

definition machine0 :: machine where
  "machine0 = \<lparr>mem = (\<lambda>b a. 0), next_block = 3, stdout = [], rounding = (\<lambda>x. x)\<rparr>"

definition null_matrix :: gsl_matrix where
  "null_matrix = \<lparr>size1 = 0, size2 = 0, tda = 0, data = 0\<rparr>"

definition workspace0 :: Workspace where
  "workspace0 = \<lparr>ws_column = 0, ws_line = 0, wv_column = 0, wv_line = 0,
     h_src = 0, w_src = 0, h_kernel = 0, w_kernel = 0, h_res = 0, w_res = 0,
     fft = null_matrix, fft_copy = null_matrix, mode = 0\<rparr>"

text \<open>
  The workspace that \<open>init_workspace\<close> builds on \<open>machine0\<close> in the mode LINEAR for a
  1 \<times> 1 source and a 1 \<times> 1 kernel, and the machine it leaves.
\<close>

definition workspace1 :: Workspace where
  "workspace1 = \<lparr>ws_column = 5, ws_line = 6, wv_column = 7, wv_line = 8,
     h_src = 1, w_src = 1, h_kernel = 1, w_kernel = 1, h_res = 2, w_res = 2,
     fft = \<lparr>size1 = 2, size2 = 4, tda = 4, data = 3\<rparr>,
     fft_copy = \<lparr>size1 = 2, size2 = 4, tda = 4, data = 4\<rparr>, mode = 0\<rparr>"

definition machine1 :: machine where
  "machine1 = \<lparr>mem = (\<lambda>b a. 0), next_block = 9, stdout = [], rounding = (\<lambda>x. x)\<rparr>"

text \<open>
  The machine at the call of \<open>convolve\<close> in the examples: the source holds 3 and the kernel
  holds 2 at offset 0.
\<close>

definition machine2 :: machine where
  "machine2 = store 1 0 2 (store 0 0 3 machine1)"

text \<open>
  The workspace that \<open>init_workspace\<close> builds on \<open>machine0\<close> in the mode
  CIRCULAR_OPTIMAL for a 4 \<times> 4 source and a 3 \<times> 3 kernel: the working size is 7 \<times> 7.
\<close>

definition workspace2 :: Workspace where
  "workspace2 = \<lparr>ws_column = 5, ws_line = 6, wv_column = 7, wv_line = 8,
     h_src = 4, w_src = 4, h_kernel = 3, w_kernel = 3, h_res = 7, w_res = 7,
     fft = \<lparr>size1 = 7, size2 = 14, tda = 14, data = 3\<rparr>,
     fft_copy = \<lparr>size1 = 7, size2 = 14, tda = 14, data = 4\<rparr>, mode = 3\<rparr>"

text \<open>
  The workspace that \<open>init_workspace\<close> builds on \<open>machine0\<close> in the mode
  CIRCULAR_OPTIMAL for a 65535 \<times> 65535 source and a 1 \<times> 1 kernel: the working size is
  65536 \<times> 65536.
\<close>

definition workspace3 :: Workspace where
  "workspace3 = \<lparr>ws_column = 5, ws_line = 6, wv_column = 7, wv_line = 8,
     h_src = 65535, w_src = 65535, h_kernel = 1, w_kernel = 1, h_res = 65536, w_res = 65536,
     fft = \<lparr>size1 = 65536, size2 = 131072, tda = 131072, data = 3\<rparr>,
     fft_copy = \<lparr>size1 = 65536, size2 = 131072, tda = 131072, data = 4\<rparr>, mode = 3\<rparr>"

text \<open>
  The workspace that \<open>init_workspace\<close> builds on \<open>machine0\<close> in the mode LINEAR for a
  4 \<times> 4 source and a 3 \<times> 3 kernel (the working size is 6 \<times> 6), and a machine at the
  call of \<open>convolve\<close> whose source holds 1, ..., 16 and whose kernel holds 1, ..., 9, row
  by row.
\<close>

definition workspace4 :: Workspace where
  "workspace4 = \<lparr>ws_column = 5, ws_line = 6, wv_column = 7, wv_line = 8,
     h_src = 4, w_src = 4, h_kernel = 3, w_kernel = 3, h_res = 6, w_res = 6,
     fft = \<lparr>size1 = 6, size2 = 12, tda = 12, data = 3\<rparr>,
     fft_copy = \<lparr>size1 = 6, size2 = 12, tda = 12, data = 4\<rparr>, mode = 0\<rparr>"




text \<open>
  A machine whose working buffer (block 3, read with the 6 complex columns of \<open>workspace4\<close>)
  holds 3 + 2i at row 1, column 2 and 5 + 7i at the mirrored index, row 5, column 4.
\<close>

definition machine5 :: machine where
  "machine5 = machine1\<lparr>mem := (\<lambda>b a.
     if b = 3 \<and> a = 16 then 3
     else if b = 3 \<and> a = 17 then 2
     else if b = 3 \<and> a = 68 then 5
     else if b = 3 \<and> a = 69 then 7
     else 0)\<rparr>"

text \<open>
  A machine whose source holds the row 1, 2 and whose kernel holds the row 1, 1: the
  input of a 1 \<times> 2 source and a 1 \<times> 2 kernel.
\<close>

definition machine6 :: machine where
  "machine6 = machine1\<lparr>mem := (\<lambda>b a.
     if b = 0 \<and> a = 0 then 1
     else if b = 0 \<and> a = 1 then 2
     else if b = 1 \<and> (a = 0 \<or> a = 1) then 1
     else 0)\<rparr>"
section \<open>Basic facts: memory, loops, integer division\<close>

lemmas mode_defs = LINEAR_def LINEAR_OPTIMAL_def CIRCULAR_def CIRCULAR_OPTIMAL_def

lemma load_store [simp]:
  "load (store b a v s) b' a' = (if b' = b \<and> a' = a then v else load s b' a')"
  by (simp add: load_def store_def)

lemma next_block_store [simp]: "next_block (store b a v s) = next_block s"
  by (simp add: store_def)

lemma stdout_store [simp]: "stdout (store b a v s) = stdout s"
  by (simp add: store_def)

lemma for_loop_empty [simp]: "hi \<le> lo \<Longrightarrow> for_loop lo hi body s = s"
  by (subst for_loop.simps) simp

lemma for_loop_step: "lo < hi \<Longrightarrow> for_loop lo hi body s = for_loop (lo + 1) hi body (body lo s)"
  by (subst for_loop.simps) simp

lemma for_loop_invariant:
  assumes "P lo s"
    and "\<And>i t. lo \<le> i \<Longrightarrow> i < hi \<Longrightarrow> P i t \<Longrightarrow> P (i + 1) (body i t)"
    and "lo \<le> hi"
  shows "P hi (for_loop lo hi body s)"
  using assms
proof (induction lo hi body s rule: for_loop.induct)
  case (1 i n body s)
  show ?case
  proof (cases "i < n")
    case True
    have "P n (for_loop (i + 1) n body (body i s))"
    proof (rule "1.IH" [OF True])
      show "P (i + 1) (body i s)" using "1.prems" True by simp
      show "\<And>j t. i + 1 \<le> j \<Longrightarrow> j < n \<Longrightarrow> P j t \<Longrightarrow> P (j + 1) (body j t)"
        using "1.prems"(2) by simp
      show "i + 1 \<le> n" using True by simp
    qed
    then show ?thesis using True by (simp add: for_loop_step)
  next
    case False
    then have "i = n" using "1.prems"(3) by simp
    then show ?thesis using "1.prems"(1) by simp
  qed
qed

lemma takeWhile_GSL_FACTORS: "takeWhile (\<lambda>f. f \<noteq> 0) GSL_FACTORS = [7, 6, 5, 4, 3, 2]"
  by (simp add: GSL_FACTORS_def)

lemma is_product_power2: "is_product (2 ^ Suc k) [7, 6, 5, 4, 3, 2]"
proof (induction k)
  case 0
  show ?case by (subst is_product.simps) simp
next
  case (Suc k)
  have "(2::int) < 2 ^ Suc (Suc k)"
    using power_strict_increasing [of 1 "Suc (Suc k)" "2::int"] by simp
  moreover have "(2::int) ^ Suc (Suc k) div 2 = 2 ^ Suc k" by simp
  ultimately show ?case using Suc by (subst is_product.simps) simp
qed

lemma scan_from_bounded:
  assumes "is_product p fs" and "n \<le> p"
  shows "\<exists>r. scan_from fs n = Some r \<and> n \<le> r \<and> r \<le> p \<and> is_product r fs"
  using assms
proof (induction "nat (p - n)" arbitrary: n)
  case 0
  then have "n = p" by simp
  then show ?case using "0.prems" by (subst scan_from.simps) simp
next
  case (Suc d)
  show ?case
  proof (cases "is_product n fs")
    case True
    then show ?thesis using Suc.prems by (subst scan_from.simps) simp
  next
    case False
    have "d = nat (p - (n + 1))" and "n + 1 \<le> p" using Suc.hyps(2) by simp_all
    from Suc.hyps(1) [OF this(1) Suc.prems(1) this(2)]
    obtain r where "scan_from fs (n + 1) = Some r" "n + 1 \<le> r" "r \<le> p" "is_product r fs"
      by blast
    then show ?thesis using False by (subst scan_from.simps) simp
  qed
qed

lemma find_closest_factor_returns:
  "\<exists>r. find_closest_factor n GSL_FACTORS = Some r \<and> n \<le> r"
proof -
  have "n \<le> 2 ^ Suc (nat n)"
  proof -
    have "nat n < 2 ^ nat n" by (rule less_exp)
    then have "int (nat n) < int (2 ^ nat n)" by (simp only: of_nat_less_iff)
    moreover have "(0::int) < 2 ^ nat n" by simp
    ultimately show ?thesis by (simp split: if_splits)
  qed
  from scan_from_bounded [OF is_product_power2 this]
  show ?thesis by (auto simp: find_closest_factor_def takeWhile_GSL_FACTORS)
qed

lemma sdiv_nonneg [simp]: "0 \<le> a \<Longrightarrow> a sdiv 2 = a div (2::int)"
  by (simp add: signed_divide_int_def sgn_if)

lemma smod_nonneg: "0 \<le> a \<Longrightarrow> 0 < b \<Longrightarrow> a smod b = a mod (b::int)"
  by (simp add: signed_modulo_int_def sgn_if)

lemma for_loop_effect:
  assumes eff: "\<And>i s. lo \<le> i \<Longrightarrow> i < hi \<Longrightarrow>
      (\<forall>b a. b \<noteq> B \<or> (\<forall>i'. lo \<le> i' \<and> i' < i \<longrightarrow> a \<notin> A i') \<longrightarrow> load s b a = load s0 b a) \<Longrightarrow>
      (\<forall>b a. b \<noteq> B \<or> a \<notin> A i \<longrightarrow> load (body i s) b a = load s b a) \<and>
      (\<forall>a\<in>A i. Q i a (load (body i s) B a))"
  shows "(\<forall>b a. b \<noteq> B \<or> (\<forall>i. lo \<le> i \<and> i < hi \<longrightarrow> a \<notin> A i) \<longrightarrow>
            load (for_loop lo hi body s0) b a = load s0 b a) \<and>
         (\<forall>i a. lo \<le> i \<and> i < hi \<and> a \<in> A i \<and> (\<forall>i'. i < i' \<and> i' < hi \<longrightarrow> a \<notin> A i') \<longrightarrow>
            Q i a (load (for_loop lo hi body s0) B a))"
proof (cases "lo \<le> hi")
  case False
  then have "for_loop lo hi body s0 = s0" by simp
  moreover have "\<not> (lo \<le> i \<and> i < hi)" for i using False by simp
  ultimately show ?thesis by auto
next
  case True
  define P where "P k s \<longleftrightarrow>
      (\<forall>b a. b \<noteq> B \<or> (\<forall>i. lo \<le> i \<and> i < k \<longrightarrow> a \<notin> A i) \<longrightarrow> load s b a = load s0 b a) \<and>
      (\<forall>i a. lo \<le> i \<and> i < k \<and> a \<in> A i \<and> (\<forall>i'. i < i' \<and> i' < k \<longrightarrow> a \<notin> A i') \<longrightarrow>
          Q i a (load s B a))" for k s
  have "P hi (for_loop lo hi body s0)"
  proof (rule for_loop_invariant [OF _ _ True])
    show "P lo s0" by (auto simp: P_def)
  next
    fix k s
    assume k: "lo \<le> k" "k < hi" and Pk: "P k s"
    from Pk have fr: "\<forall>b a. b \<noteq> B \<or> (\<forall>i'. lo \<le> i' \<and> i' < k \<longrightarrow> a \<notin> A i') \<longrightarrow> load s b a = load s0 b a"
      by (simp add: P_def)
    from eff [OF k fr]
    have e1: "\<And>b a. b \<noteq> B \<or> a \<notin> A k \<Longrightarrow> load (body k s) b a = load s b a"
      and e2: "\<And>a. a \<in> A k \<Longrightarrow> Q k a (load (body k s) B a)"
      by blast+
    show "P (k + 1) (body k s)"
      unfolding P_def
    proof (intro conjI allI impI)
      fix b a
      assume h: "b \<noteq> B \<or> (\<forall>i. lo \<le> i \<and> i < k + 1 \<longrightarrow> a \<notin> A i)"
      then have "b \<noteq> B \<or> a \<notin> A k" using k by auto
      then have "load (body k s) b a = load s b a" by (rule e1)
      moreover have "b \<noteq> B \<or> (\<forall>i. lo \<le> i \<and> i < k \<longrightarrow> a \<notin> A i)" using h by auto
      then have "load s b a = load s0 b a" using fr by blast
      ultimately show "load (body k s) b a = load s0 b a" by simp
    next
      fix i a
      assume h: "lo \<le> i \<and> i < k + 1 \<and> a \<in> A i \<and> (\<forall>i'. i < i' \<and> i' < k + 1 \<longrightarrow> a \<notin> A i')"
      show "Q i a (load (body k s) B a)"
      proof (cases "i = k")
        case True
        then show ?thesis using e2 h by simp
      next
        case False
        then have ik: "i < k" using h by simp
        then have "a \<notin> A k" using h by simp
        then have "load (body k s) B a = load s B a" using e1 by blast
        moreover have "Q i a (load s B a)"
          using Pk h ik unfolding P_def by auto
        ultimately show ?thesis by simp
      qed
    qed
  qed
  then show ?thesis by (simp add: P_def)
qed

lemma for_loop_next_block:
  assumes "\<And>i t. next_block (body i t) = next_block t"
  shows "next_block (for_loop lo hi body s) = next_block s"
  using assms
proof (induction lo hi body s rule: for_loop.induct)
  case (1 i n body s)
  show ?case
  proof (cases "i < n")
    case True
    then show ?thesis using "1.IH" [OF True "1.prems"] "1.prems" by (simp add: for_loop_step)
  next
    case False
    then show ?thesis by simp
  qed
qed

lemma for_loop_stdout:
  assumes "\<And>i t. stdout (body i t) = stdout t"
  shows "stdout (for_loop lo hi body s) = stdout s"
  using assms
proof (induction lo hi body s rule: for_loop.induct)
  case (1 i n body s)
  show ?case
  proof (cases "i < n")
    case True
    then show ?thesis using "1.IH" [OF True "1.prems"] "1.prems" by (simp add: for_loop_step)
  next
    case False
    then show ?thesis by simp
  qed
qed

lemma flat_unique:
  fixes i i' j j' n :: int
  assumes "0 \<le> j" "j < n" "0 \<le> j'" "j' < n" "i * n + j = i' * n + j'"
  shows "i = i' \<and> j = j'"
proof -
  have n: "n \<noteq> 0" using assms by simp
  have "(j + i * n) div n = i" "(j' + i' * n) div n = i'"
    using assms n by (simp_all only: div_mult_self1 [OF n] div_pos_pos_trivial add_0)
  moreover have "j + i * n = j' + i' * n" using assms(5) by (simp add: add.commute)
  ultimately have "i = i'" by simp
  then show ?thesis using assms(5) by simp
qed

lemma for_loop2_effect:
  assumes eff: "\<And>i j s. lo1 \<le> i \<Longrightarrow> i < hi1 \<Longrightarrow> lo2 \<le> j \<Longrightarrow> j < hi2 \<Longrightarrow>
      (\<forall>b a. b \<noteq> B \<longrightarrow> load s b a = load s0 b a) \<Longrightarrow>
      (\<forall>b a. b \<noteq> B \<or> a \<notin> A i j \<longrightarrow> load (body i j s) b a = load s b a) \<and>
      (\<forall>a\<in>A i j. Q i j a (load (body i j s) B a))"
  shows "(\<forall>b a. b \<noteq> B \<or> (\<forall>i j. lo1 \<le> i \<and> i < hi1 \<and> lo2 \<le> j \<and> j < hi2 \<longrightarrow> a \<notin> A i j) \<longrightarrow>
            load (for_loop lo1 hi1 (\<lambda>i. for_loop lo2 hi2 (body i)) s0) b a = load s0 b a) \<and>
         (\<forall>i j a. lo1 \<le> i \<and> i < hi1 \<and> lo2 \<le> j \<and> j < hi2 \<and> a \<in> A i j \<and>
            (\<forall>i' j'. lo1 \<le> i' \<and> i' < hi1 \<and> lo2 \<le> j' \<and> j' < hi2 \<and>
               (i < i' \<or> (i = i' \<and> j < j')) \<longrightarrow> a \<notin> A i' j') \<longrightarrow>
            Q i j a (load (for_loop lo1 hi1 (\<lambda>i. for_loop lo2 hi2 (body i)) s0) B a))"
proof -
  define A' where "A' i = {a. \<exists>j. lo2 \<le> j \<and> j < hi2 \<and> a \<in> A i j}" for i
  define Q' where "Q' i a v \<longleftrightarrow>
      (\<forall>j. lo2 \<le> j \<and> j < hi2 \<and> a \<in> A i j \<and> (\<forall>j'. j < j' \<and> j' < hi2 \<longrightarrow> a \<notin> A i j') \<longrightarrow> Q i j a v)"
    for i a v
  have outer: "(\<forall>b a. b \<noteq> B \<or> a \<notin> A' i \<longrightarrow> load (for_loop lo2 hi2 (body i) s) b a = load s b a) \<and>
      (\<forall>a\<in>A' i. Q' i a (load (for_loop lo2 hi2 (body i) s) B a))"
    if i: "lo1 \<le> i" "i < hi1"
      and s: "\<forall>b a. b \<noteq> B \<or> (\<forall>i'. lo1 \<le> i' \<and> i' < i \<longrightarrow> a \<notin> A' i') \<longrightarrow> load s b a = load s0 b a"
    for i s
  proof -
    have inner: "(\<forall>b a. b \<noteq> B \<or> a \<notin> A i j \<longrightarrow> load (body i j t) b a = load t b a) \<and>
        (\<forall>a\<in>A i j. Q i j a (load (body i j t) B a))"
      if j: "lo2 \<le> j" "j < hi2"
        and t: "\<forall>b a. b \<noteq> B \<or> (\<forall>j'. lo2 \<le> j' \<and> j' < j \<longrightarrow> a \<notin> A i j') \<longrightarrow> load t b a = load s b a"
      for j t
    proof (rule eff [OF i j])
      show "\<forall>b a. b \<noteq> B \<longrightarrow> load t b a = load s0 b a" using t s by simp
    qed
    from for_loop_effect [of lo2 hi2 B "A i" s "body i" "Q i", OF inner]
    have r1: "\<And>b a. b \<noteq> B \<or> (\<forall>j. lo2 \<le> j \<and> j < hi2 \<longrightarrow> a \<notin> A i j) \<Longrightarrow>
          load (for_loop lo2 hi2 (body i) s) b a = load s b a"
      and r2: "\<And>j a. lo2 \<le> j \<and> j < hi2 \<and> a \<in> A i j \<and> (\<forall>j'. j < j' \<and> j' < hi2 \<longrightarrow> a \<notin> A i j') \<Longrightarrow>
          Q i j a (load (for_loop lo2 hi2 (body i) s) B a)"
      by blast+
    show ?thesis
    proof (intro conjI allI impI ballI)
      fix b a
      assume "b \<noteq> B \<or> a \<notin> A' i"
      then have "b \<noteq> B \<or> (\<forall>j. lo2 \<le> j \<and> j < hi2 \<longrightarrow> a \<notin> A i j)" by (auto simp: A'_def)
      then show "load (for_loop lo2 hi2 (body i) s) b a = load s b a" by (rule r1)
    next
      fix a
      assume "a \<in> A' i"
      show "Q' i a (load (for_loop lo2 hi2 (body i) s) B a)"
        unfolding Q'_def using r2 by blast
    qed
  qed
  from for_loop_effect [of lo1 hi1 B A' s0 "\<lambda>i. for_loop lo2 hi2 (body i)" Q', OF outer]
  have o1: "\<And>b a. b \<noteq> B \<or> (\<forall>i. lo1 \<le> i \<and> i < hi1 \<longrightarrow> a \<notin> A' i) \<Longrightarrow>
        load (for_loop lo1 hi1 (\<lambda>i. for_loop lo2 hi2 (body i)) s0) b a = load s0 b a"
    and o2: "\<And>i a. lo1 \<le> i \<and> i < hi1 \<and> a \<in> A' i \<and> (\<forall>i'. i < i' \<and> i' < hi1 \<longrightarrow> a \<notin> A' i') \<Longrightarrow>
        Q' i a (load (for_loop lo1 hi1 (\<lambda>i. for_loop lo2 hi2 (body i)) s0) B a)"
    by blast+
  show ?thesis
  proof (intro conjI allI impI)
    fix b a
    assume "b \<noteq> B \<or> (\<forall>i j. lo1 \<le> i \<and> i < hi1 \<and> lo2 \<le> j \<and> j < hi2 \<longrightarrow> a \<notin> A i j)"
    then have "b \<noteq> B \<or> (\<forall>i. lo1 \<le> i \<and> i < hi1 \<longrightarrow> a \<notin> A' i)" by (auto simp: A'_def)
    then show "load (for_loop lo1 hi1 (\<lambda>i. for_loop lo2 hi2 (body i)) s0) b a = load s0 b a"
      by (rule o1)
  next
    fix i j a
    assume h: "lo1 \<le> i \<and> i < hi1 \<and> lo2 \<le> j \<and> j < hi2 \<and> a \<in> A i j \<and>
            (\<forall>i' j'. lo1 \<le> i' \<and> i' < hi1 \<and> lo2 \<le> j' \<and> j' < hi2 \<and>
               (i < i' \<or> (i = i' \<and> j < j')) \<longrightarrow> a \<notin> A i' j')"
    have "a \<in> A' i" using h by (auto simp: A'_def)
    moreover have "\<forall>i'. i < i' \<and> i' < hi1 \<longrightarrow> a \<notin> A' i'"
    proof (intro allI impI)
      fix i'
      assume "i < i' \<and> i' < hi1"
      then have "\<And>j'. lo2 \<le> j' \<and> j' < hi2 \<Longrightarrow> a \<notin> A i' j'" using h by simp
      then show "a \<notin> A' i'" by (auto simp: A'_def)
    qed
    ultimately have "Q' i a (load (for_loop lo1 hi1 (\<lambda>i. for_loop lo2 hi2 (body i)) s0) B a)"
      using o2 [of i a] h by simp
    moreover have "\<forall>j'. j < j' \<and> j' < hi2 \<longrightarrow> a \<notin> A i j'" using h by simp
    ultimately show "Q i j a (load (for_loop lo1 hi1 (\<lambda>i. for_loop lo2 hi2 (body i)) s0) B a)"
      using h unfolding Q'_def by blast
  qed
qed

section \<open>Geometry, dispatch and index bounds\<close>

lemma working_size_recognized:
  assumes "0 < hs" "0 < wsrc" "0 < hk" "0 < wk"
    and "m = LINEAR \<or> m = LINEAR_OPTIMAL \<or> m = CIRCULAR \<or> m = CIRCULAR_OPTIMAL"
  shows "\<exists>h w. working_size_ideal ws m hs wsrc hk wk = Some (h, w) \<and>
           (m = LINEAR \<longrightarrow> h = hs + (hk + 1) div 2 \<and> w = wsrc + (wk + 1) div 2) \<and>
           (m = LINEAR_OPTIMAL \<longrightarrow> hs + (hk + 1) div 2 \<le> h \<and> wsrc + (wk + 1) div 2 \<le> w) \<and>
           (m = CIRCULAR \<longrightarrow> h = hs + hk \<and> w = wsrc + wk) \<and>
           (m = CIRCULAR_OPTIMAL \<longrightarrow> hs + hk \<le> h \<and> wsrc + wk \<le> w)"
proof -
  obtain a where a: "find_closest_factor (hs + (hk + 1) div 2) GSL_FACTORS = Some a"
      "hs + (hk + 1) div 2 \<le> a"
    using find_closest_factor_returns by blast
  obtain b where b: "find_closest_factor (wsrc + (wk + 1) div 2) GSL_FACTORS = Some b"
      "wsrc + (wk + 1) div 2 \<le> b"
    using find_closest_factor_returns by blast
  obtain c where c: "find_closest_factor (hs + hk) GSL_FACTORS = Some c" "hs + hk \<le> c"
    using find_closest_factor_returns by blast
  obtain d where d: "find_closest_factor (wsrc + wk) GSL_FACTORS = Some d" "wsrc + wk \<le> d"
    using find_closest_factor_returns by blast
  have nn: "0 \<le> hk + 1" "0 \<le> wk + 1" using assms(3,4) by simp_all
  from assms(5) consider "m = LINEAR" | "m = LINEAR_OPTIMAL" | "m = CIRCULAR"
    | "m = CIRCULAR_OPTIMAL" by blast
  then show ?thesis
  proof cases
    case 1
    then show ?thesis using nn by (simp add: working_size_ideal_def mode_defs)
  next
    case 2
    then show ?thesis using nn a b by (simp add: working_size_ideal_def mode_defs)
  next
    case 3
    then show ?thesis by (simp add: working_size_ideal_def mode_defs)
  next
    case 4
    then show ?thesis using c d by (simp add: working_size_ideal_def mode_defs)
  qed
qed

lemma init_workspace_fields:
  assumes "working_size_ideal ws m hs wsrc hk wk = Some (h, w)"
  shows "\<exists>ws' s'. init_workspace_ideal ws m hs wsrc hk wk s = Some (ws', s') \<and>
           h_src ws' = hs \<and> w_src ws' = wsrc \<and> h_kernel ws' = hk \<and> w_kernel ws' = wk \<and>
           h_res ws' = h \<and> w_res ws' = w \<and> mode ws' = m \<and>
           fft ws' = \<lparr>size1 = h, size2 = 2 * w, tda = 2 * w, data = next_block s\<rparr> \<and>
           fft_copy ws' = \<lparr>size1 = h, size2 = 2 * w, tda = 2 * w, data = Suc (next_block s)\<rparr> \<and>
           mem s' = mem s \<and> stdout s' = stdout s \<and> next_block s < next_block s'"
  using assms by (simp add: init_workspace_ideal_def gsl_matrix_alloc_def alloc_def)

lemma flat_index_bound:
  fixes i j h w :: int
  assumes "0 \<le> i" "i < h" "0 \<le> j" "j < w"
  shows "0 \<le> i * w + j \<and> i * w + j < h * w"
proof -
  have "0 \<le> i * w" using assms by simp
  moreover have "(i + 1) * w \<le> h * w" using assms by (intro mult_right_mono) simp_all
  ultimately show ?thesis using assms by (simp add: algebra_simps)
qed

lemma wrap_index_range:
  assumes "0 < k" "(k + 1) div 2 \<le> n" "0 \<le> i" "i < n + k"
  shows "0 \<le> wrap_index_ideal i k n \<and> wrap_index_ideal i k n < n"
proof -
  have "k - (k + 1) div 2 \<le> (k + 1) div 2" by simp
  then show ?thesis using assms by (simp add: wrap_index_ideal_def Let_def)
qed
section \<open>The stages, one by one\<close>

lemma cell_index_unique:
  fixes i i' j j' w c c' :: int
  assumes "0 \<le> j" "j < w" "0 \<le> j'" "j' < w" "0 \<le> c" "c \<le> 1" "0 \<le> c'" "c' \<le> 1"
    and "i * 2 * w + 2 * j + c = i' * 2 * w + 2 * j' + c'"
  shows "i = i' \<and> j = j' \<and> c = c'"
proof -
  have "i * (2 * w) + (2 * j + c) = i' * (2 * w) + (2 * j' + c')"
    using assms(9) by (simp add: algebra_simps)
  moreover have "0 \<le> 2 * j + c" "2 * j + c < 2 * w" "0 \<le> 2 * j' + c'" "2 * j' + c' < 2 * w"
    using assms(1-8) by simp_all
  ultimately have "i = i' \<and> 2 * j + c = 2 * j' + c'"
    using flat_unique [of "2 * j + c" "2 * w" "2 * j' + c'" i i'] by simp
  then show ?thesis using assms(5-8) by presburger
qed

lemma cell_index_eq [simp]:
  fixes i i' j j' w :: int
  assumes "0 \<le> j" "j < w" "0 \<le> j'" "j' < w"
  shows "(i * 2 * w + 2 * j = i' * 2 * w + 2 * j') = (i = i' \<and> j = j')"
    and "(i * 2 * w + 2 * j + 1 = i' * 2 * w + 2 * j' + 1) = (i = i' \<and> j = j')"
    and "i * 2 * w + 2 * j \<noteq> i' * 2 * w + 2 * j' + 1"
    and "i * 2 * w + 2 * j + 1 \<noteq> i' * 2 * w + 2 * j'"
  using cell_index_unique [OF assms, of 0 0 i i'] cell_index_unique [OF assms, of 1 1 i i']
    cell_index_unique [OF assms, of 0 1 i i'] cell_index_unique [OF assms, of 1 0 i i']
  by auto

lemma odd_neq_even [simp]:
  fixes j j' :: int
  shows "2 * j + 1 \<noteq> 2 * j'" and "2 * j' \<noteq> 2 * j + 1"
  by presburger+

lemma mirror_row:
  fixes i h :: int
  assumes "0 \<le> i" "i < h"
  shows "(h - i) smod h = (- i) mod h"
proof -
  have "(h - i) smod h = (h - i) mod h" using assms by (simp add: smod_nonneg)
  also have "\<dots> = (- i) mod h" by (metis add.commute mod_add_self1 uminus_add_conv_diff)
  finally show ?thesis .
qed

lemma mirror_col:
  fixes j w :: int
  assumes "0 \<le> j" "j < w"
  shows "(2 * w - 2 * j) smod (2 * w) = 2 * ((- j) mod w)"
proof -
  have "(2 * w - 2 * j) smod (2 * w) = (2 * (w - j)) mod (2 * w)"
    using assms by (simp add: smod_nonneg algebra_simps)
  also have "\<dots> = 2 * ((w - j) mod w)" by (simp only: mod_mult_mult1)
  also have "(w - j) mod w = (- j) mod w" by (metis add.commute mod_add_self1 uminus_add_conv_diff)
  finally show ?thesis .
qed

lemma mirror_range:
  fixes i h :: int
  assumes "0 < h"
  shows "0 \<le> (- i) mod h" "(- i) mod h < h"
  using assms by simp_all

lemma spectral_product_effect:
  assumes W: "0 < w_res ws" and FC: "data (fft ws) \<noteq> data (fft_copy ws)"
  shows "(\<forall>b a. b \<noteq> data (fft_copy ws) \<or>
            (\<forall>i j. 0 \<le> i \<and> i < h_res ws \<and> 0 \<le> j \<and> j < w_res ws \<longrightarrow>
               a \<noteq> i * 2 * w_res ws + 2 * j \<and> a \<noteq> i * 2 * w_res ws + 2 * j + 1) \<longrightarrow>
            load (spectral_product_ideal (\<lambda>x. x) ws s) b a = load s b a) \<and>
         (\<forall>i j. 0 \<le> i \<and> i < h_res ws \<and> 0 \<le> j \<and> j < w_res ws \<longrightarrow>
            cell (spectral_product_ideal (\<lambda>x. x) ws s) (data (fft_copy ws)) (w_res ws) i j =
              (let z = cell s (data (fft ws)) (w_res ws) i j;
                   zs = cnj (cell s (data (fft ws)) (w_res ws) ((- i) mod h_res ws) ((- j) mod w_res ws))
               in Complex (0.5 * (Re z * Im z - Re zs * Im zs))
                    (- 0.25 * (Re z * Re z - Im z * Im z - Re zs * Re zs + Im zs * Im zs))))"
proof -
  let ?W = "w_res ws" and ?H = "h_res ws"
  let ?F = "data (fft ws)" and ?C = "data (fft_copy ws)"
  define val where "val i j =
      (let z = cell s ?F ?W i j;
           zs = cnj (cell s ?F ?W ((- i) mod ?H) ((- j) mod ?W))
       in Complex (0.5 * (Re z * Im z - Re zs * Im zs))
            (- 0.25 * (Re z * Re z - Im z * Im z - Re zs * Re zs + Im zs * Im zs)))" for i j
  define A where "A i j = {i * 2 * ?W + 2 * j, i * 2 * ?W + 2 * j + 1}" for i j :: int
  define Q where "Q i j a v \<longleftrightarrow>
      (a = i * 2 * ?W + 2 * j \<longrightarrow> v = Re (val i j)) \<and>
      (a = i * 2 * ?W + 2 * j + 1 \<longrightarrow> v = Im (val i j))" for i j a v
  define body where "body i j t =
      (let re_h = load t ?F (i * 2 * ?W + 2 * j);
           im_h = load t ?F (i * 2 * ?W + 2 * j + 1);
           re_hs = load t ?F (((?H - i) smod ?H) * 2 * ?W + ((2 * ?W - 2 * j) smod (2 * ?W)));
           im_hs = - load t ?F (((?H - i) smod ?H) * 2 * ?W + ((2 * ?W - 2 * j) smod (2 * ?W)) + 1);
           t' = store ?C (i * 2 * ?W + 2 * j) (0.5 * (re_h * im_h - re_hs * im_hs)) t
       in store ?C (i * 2 * ?W + 2 * j + 1)
            (- 0.25 * (re_h * re_h - im_h * im_h - re_hs * re_hs + im_hs * im_hs)) t')" for i j t
  have sp: "spectral_product_ideal (\<lambda>x. x) ws s = for_loop 0 ?H (\<lambda>i. for_loop 0 ?W (body i)) s"
    unfolding spectral_product_ideal_def body_def by (rule refl)
  have eff: "(\<forall>b a. b \<noteq> ?C \<or> a \<notin> A i j \<longrightarrow> load (body i j t) b a = load t b a) \<and>
      (\<forall>a\<in>A i j. Q i j a (load (body i j t) ?C a))"
    if "0 \<le> i" "i < ?H" "0 \<le> j" "j < ?W" and t: "\<forall>b a. b \<noteq> ?C \<longrightarrow> load t b a = load s b a"
    for i j t
  proof -
    have rd: "load t ?F a = load s ?F a" for a using t FC by simp
    have m1: "(?H - i) smod ?H = (- i) mod ?H" using that(1,2) by (rule mirror_row)
    have m2: "(2 * ?W - 2 * j) smod (2 * ?W) = 2 * ((- j) mod ?W)"
      using that(3,4) by (rule mirror_col)
    have fr: "\<forall>b a. b \<noteq> ?C \<or> a \<notin> A i j \<longrightarrow> load (body i j t) b a = load t b a"
      by (simp add: body_def A_def Let_def)
    have v0: "load (body i j t) ?C (i * 2 * ?W + 2 * j) = Re (val i j)"
      by (simp add: body_def Let_def rd m1 m2 val_def cell_def)
    have v1: "load (body i j t) ?C (i * 2 * ?W + 2 * j + 1) = Im (val i j)"
      by (simp add: body_def Let_def rd m1 m2 val_def cell_def)
    have "\<forall>a\<in>A i j. Q i j a (load (body i j t) ?C a)"
      using v0 v1 by (simp add: A_def Q_def)
    with fr show ?thesis by blast
  qed
  have disj: "i = i' \<and> j = j'"
    if "0 \<le> j" "j < ?W" "0 \<le> j'" "j' < ?W" "a \<in> A i j" "a \<in> A i' j'" for i i' j j' a
  proof -
    from that(5) obtain c where c: "0 \<le> c" "c \<le> 1" "a = i * 2 * ?W + 2 * j + c"
      by (auto simp: A_def)
    from that(6) obtain c' where c': "0 \<le> c'" "c' \<le> 1" "a = i' * 2 * ?W + 2 * j' + c'"
      by (auto simp: A_def)
    have "i * 2 * ?W + 2 * j + c = i' * 2 * ?W + 2 * j' + c'" using c(3) c'(3) by simp
    from cell_index_unique [OF that(1-4) c(1,2) c'(1,2) this] show ?thesis by simp
  qed
  from for_loop2_effect [of 0 ?H 0 ?W ?C s A body Q, OF eff, folded sp]
  have r1: "\<And>b a. b \<noteq> ?C \<or> (\<forall>i j. 0 \<le> i \<and> i < ?H \<and> 0 \<le> j \<and> j < ?W \<longrightarrow> a \<notin> A i j) \<Longrightarrow>
        load (spectral_product_ideal (\<lambda>x. x) ws s) b a = load s b a"
    and r2: "\<And>i j a. 0 \<le> i \<and> i < ?H \<and> 0 \<le> j \<and> j < ?W \<and> a \<in> A i j \<and>
        (\<forall>i' j'. 0 \<le> i' \<and> i' < ?H \<and> 0 \<le> j' \<and> j' < ?W \<and> (i < i' \<or> (i = i' \<and> j < j'))
            \<longrightarrow> a \<notin> A i' j') \<Longrightarrow> Q i j a (load (spectral_product_ideal (\<lambda>x. x) ws s) ?C a)"
    by blast+
  show ?thesis
  proof (intro conjI allI impI)
    fix b a
    assume h: "b \<noteq> ?C \<or> (\<forall>i j. 0 \<le> i \<and> i < ?H \<and> 0 \<le> j \<and> j < ?W \<longrightarrow>
               a \<noteq> i * 2 * ?W + 2 * j \<and> a \<noteq> i * 2 * ?W + 2 * j + 1)"
    have "b \<noteq> ?C \<or> (\<forall>i j. 0 \<le> i \<and> i < ?H \<and> 0 \<le> j \<and> j < ?W \<longrightarrow> a \<notin> A i j)"
      using h unfolding A_def by blast
    then show "load (spectral_product_ideal (\<lambda>x. x) ws s) b a = load s b a" by (rule r1)
  next
    fix i j
    assume ij: "0 \<le> i \<and> i < ?H \<and> 0 \<le> j \<and> j < ?W"
    have last: "\<forall>i' j'. 0 \<le> i' \<and> i' < ?H \<and> 0 \<le> j' \<and> j' < ?W \<and> (i < i' \<or> (i = i' \<and> j < j'))
        \<longrightarrow> a \<notin> A i' j'" if "a \<in> A i j" for a
    proof (intro allI impI notI)
      fix i' j'
      assume h: "0 \<le> i' \<and> i' < ?H \<and> 0 \<le> j' \<and> j' < ?W \<and> (i < i' \<or> (i = i' \<and> j < j'))"
        and "a \<in> A i' j'"
      with disj [of j j' a i i'] that ij have "i = i' \<and> j = j'" by blast
      with h show False by simp
    qed
    have in0: "i * 2 * ?W + 2 * j \<in> A i j" and in1: "i * 2 * ?W + 2 * j + 1 \<in> A i j"
      by (simp_all add: A_def)
    have "Q i j (i * 2 * ?W + 2 * j) (load (spectral_product_ideal (\<lambda>x. x) ws s) ?C (i * 2 * ?W + 2 * j))"
      by (rule r2) (use ij in0 last [OF in0] in blast)
    moreover have "Q i j (i * 2 * ?W + 2 * j + 1)
        (load (spectral_product_ideal (\<lambda>x. x) ws s) ?C (i * 2 * ?W + 2 * j + 1))"
      by (rule r2) (use ij in1 last [OF in1] in blast)
    ultimately have "cell (spectral_product_ideal (\<lambda>x. x) ws s) ?C ?W i j = val i j"
      by (simp add: Q_def cell_def complex_eq_iff)
    then show "cell (spectral_product_ideal (\<lambda>x. x) ws s) ?C ?W i j =
              (let z = cell s ?F ?W i j;
                   zs = cnj (cell s ?F ?W ((- i) mod ?H) ((- j) mod ?W))
               in Complex (0.5 * (Re z * Im z - Re zs * Im zs))
                    (- 0.25 * (Re z * Re z - Im z * Im z - Re zs * Re zs + Im zs * Im zs)))"
      by (simp add: val_def)
  qed
qed

lemma stride_index_unique:
  fixes k k' st c c' :: int
  assumes "st \<noteq> 0" "0 \<le> c" "c \<le> 1" "0 \<le> c'" "c' \<le> 1"
    and "2 * st * k + c = 2 * st * k' + c'"
  shows "k = k' \<and> c = c'"
proof -
  have "2 * (st * (k - k')) = c' - c" using assms(6) by (simp add: algebra_simps)
  then have "c' - c = 0" using assms(2-5) by presburger
  then have "st * (k - k') = 0" and "c = c'" using \<open>2 * (st * (k - k')) = c' - c\<close> by simp_all
  then show ?thesis using assms(1) by simp
qed

lemma transform_effect:
  assumes st: "st \<noteq> 0"
  shows "(\<forall>b a. b \<noteq> B \<or> (\<forall>k. 0 \<le> k \<and> k < n \<longrightarrow> a \<noteq> off + 2 * st * k \<and> a \<noteq> off + 2 * st * k + 1) \<longrightarrow>
            load (gsl_fft_complex_transform (\<lambda>x. x) (B, off) st n sign s) b a = load s b a) \<and>
         (\<forall>k. 0 \<le> k \<and> k < n \<longrightarrow>
            Complex (load (gsl_fft_complex_transform (\<lambda>x. x) (B, off) st n sign s) B (off + 2 * st * k))
                    (load (gsl_fft_complex_transform (\<lambda>x. x) (B, off) st n sign s) B (off + 2 * st * k + 1))
            = dft sign n (\<lambda>m. Complex (load s B (off + 2 * st * m)) (load s B (off + 2 * st * m + 1))) k)"
proof -
  define z where "z m = Complex (load s B (off + 2 * st * m)) (load s B (off + 2 * st * m + 1))" for m
  have zf: "z = (\<lambda>m. Complex (load s B (off + 2 * st * m)) (load s B (off + 2 * st * m + 1)))"
    by (rule ext) (simp add: z_def)
  define A where "A k = {off + 2 * st * k, off + 2 * st * k + 1}" for k :: int
  define Q where "Q k a v \<longleftrightarrow> (a = off + 2 * st * k \<longrightarrow> v = Re (dft sign n z k)) \<and>
      (a = off + 2 * st * k + 1 \<longrightarrow> v = Im (dft sign n z k))" for k a v
  define body where "body k t = store B (off + 2 * st * k + 1) (Im (dft sign n z k))
             (store B (off + 2 * st * k) (Re (dft sign n z k)) t)" for k t
  let ?res = "gsl_fft_complex_transform (\<lambda>x. x) (B, off) st n sign s"
  have res: "?res = for_loop 0 n body s"
    unfolding gsl_fft_complex_transform_def body_def zf by (simp add: Let_def)
  have eff: "(\<forall>b a. b \<noteq> B \<or> a \<notin> A k \<longrightarrow> load (body k t) b a = load t b a) \<and>
      (\<forall>a\<in>A k. Q k a (load (body k t) B a))" for k t
    by (simp add: body_def A_def Q_def)
  have disj: "k = k'" if "a \<in> A k" "a \<in> A k'" for k k' a
  proof -
    from that(1) obtain c where c: "0 \<le> c" "c \<le> 1" "a = off + 2 * st * k + c"
      by (auto simp: A_def)
    from that(2) obtain c' where c': "0 \<le> c'" "c' \<le> 1" "a = off + 2 * st * k' + c'"
      by (auto simp: A_def)
    have "2 * st * k + c = 2 * st * k' + c'" using c(3) c'(3) by simp
    from stride_index_unique [OF st c(1,2) c'(1,2) this] show ?thesis by simp
  qed
  from for_loop_effect [of 0 n B A s body Q, OF eff, folded res]
  have r1: "\<And>b a. b \<noteq> B \<or> (\<forall>k. 0 \<le> k \<and> k < n \<longrightarrow> a \<notin> A k) \<Longrightarrow> load ?res b a = load s b a"
    and r2: "\<And>k a. 0 \<le> k \<and> k < n \<and> a \<in> A k \<and> (\<forall>k'. k < k' \<and> k' < n \<longrightarrow> a \<notin> A k') \<Longrightarrow>
        Q k a (load ?res B a)"
    by blast+
  show ?thesis
  proof (intro conjI allI impI)
    fix b a
    assume h: "b \<noteq> B \<or> (\<forall>k. 0 \<le> k \<and> k < n \<longrightarrow> a \<noteq> off + 2 * st * k \<and> a \<noteq> off + 2 * st * k + 1)"
    have "b \<noteq> B \<or> (\<forall>k. 0 \<le> k \<and> k < n \<longrightarrow> a \<notin> A k)" using h unfolding A_def by blast
    then show "load ?res b a = load s b a" by (rule r1)
  next
    fix k
    assume k: "0 \<le> k \<and> k < n"
    have last: "\<forall>k'. k < k' \<and> k' < n \<longrightarrow> a \<notin> A k'" if "a \<in> A k" for a
      using disj [OF that] by auto
    have in0: "off + 2 * st * k \<in> A k" and in1: "off + 2 * st * k + 1 \<in> A k"
      by (simp_all add: A_def)
    have "Q k (off + 2 * st * k) (load ?res B (off + 2 * st * k))"
      by (rule r2) (use k in0 last [OF in0] in blast)
    moreover have "Q k (off + 2 * st * k + 1) (load ?res B (off + 2 * st * k + 1))"
      by (rule r2) (use k in1 last [OF in1] in blast)
    ultimately show "Complex (load ?res B (off + 2 * st * k)) (load ?res B (off + 2 * st * k + 1))
        = dft sign n (\<lambda>m. Complex (load s B (off + 2 * st * m)) (load s B (off + 2 * st * m + 1))) k"
      by (simp add: Q_def complex_eq_iff zf)
  qed
qed


lemma stride_cells_disjoint:
  fixes st :: int
  assumes "st \<noteq> 0"
    and "a = off + 2 * st * k \<or> a = off + 2 * st * k + 1"
    and "a = off + 2 * st * k' \<or> a = off + 2 * st * k' + 1"
  shows "k = k'"
proof -
  from assms(2) obtain c where c: "0 \<le> c" "c \<le> 1" "a = off + 2 * st * k + c" by auto
  from assms(3) obtain c' where c': "0 \<le> c'" "c' \<le> 1" "a = off + 2 * st * k' + c'" by auto
  have "2 * st * k + c = 2 * st * k' + c'" using c(3) c'(3) by simp
  from stride_index_unique [OF assms(1) c(1,2) c'(1,2) this] show ?thesis by simp
qed

lemma forward_effect:
  assumes st: "st \<noteq> 0"
  shows "(\<forall>b a. b \<noteq> B \<or> (\<forall>k. 0 \<le> k \<and> k < n \<longrightarrow> a \<noteq> off + 2 * st * k \<and> a \<noteq> off + 2 * st * k + 1) \<longrightarrow>
            load (gsl_fft_complex_forward (\<lambda>x. x) (B, off) st n wt wk s) b a = load s b a) \<and>
         (\<forall>k. 0 \<le> k \<and> k < n \<longrightarrow>
            Complex (load (gsl_fft_complex_forward (\<lambda>x. x) (B, off) st n wt wk s) B (off + 2 * st * k))
                    (load (gsl_fft_complex_forward (\<lambda>x. x) (B, off) st n wt wk s) B (off + 2 * st * k + 1))
            = dft (- 1) n (\<lambda>m. Complex (load s B (off + 2 * st * m)) (load s B (off + 2 * st * m + 1))) k)"
  unfolding gsl_fft_complex_forward_def by (rule transform_effect [OF st])

lemma inverse_effect:
  assumes st: "st \<noteq> 0"
  shows "(\<forall>b a. b \<noteq> B \<or> (\<forall>k. 0 \<le> k \<and> k < n \<longrightarrow> a \<noteq> off + 2 * st * k \<and> a \<noteq> off + 2 * st * k + 1) \<longrightarrow>
            load (gsl_fft_complex_inverse (\<lambda>x. x) (B, off) st n wt wk s) b a = load s b a) \<and>
         (\<forall>k. 0 \<le> k \<and> k < n \<longrightarrow>
            Complex (load (gsl_fft_complex_inverse (\<lambda>x. x) (B, off) st n wt wk s) B (off + 2 * st * k))
                    (load (gsl_fft_complex_inverse (\<lambda>x. x) (B, off) st n wt wk s) B (off + 2 * st * k + 1))
            = idft n (\<lambda>m. Complex (load s B (off + 2 * st * m)) (load s B (off + 2 * st * m + 1))) k)"
proof -
  define s1 where "s1 = gsl_fft_complex_transform (\<lambda>x. x) (B, off) st n 1 s"
  define z where "z = (\<lambda>m. Complex (load s B (off + 2 * st * m)) (load s B (off + 2 * st * m + 1)))"
  define nrm where "nrm = 1 / real_of_int n"
  define A where "A k = {off + 2 * st * k, off + 2 * st * k + 1}" for k :: int
  define Q where "Q k a v \<longleftrightarrow> (a = off + 2 * st * k \<longrightarrow> v = Re (dft 1 n z k) * nrm) \<and>
      (a = off + 2 * st * k + 1 \<longrightarrow> v = Im (dft 1 n z k) * nrm)" for k a v
  define body where "body i t =
      (let t' = store B (off + 2 * st * i) (load t B (off + 2 * st * i) * nrm) t
       in store B (off + 2 * st * i + 1) (load t' B (off + 2 * st * i + 1) * nrm) t')" for i t
  let ?res = "gsl_fft_complex_inverse (\<lambda>x. x) (B, off) st n wt wk s"
  have res: "?res = for_loop 0 n body s1"
    unfolding gsl_fft_complex_inverse_def body_def s1_def nrm_def by (simp add: Let_def)
  from transform_effect [OF st, of B n off 1 s, folded s1_def z_def]
  have t1: "\<And>b a. b \<noteq> B \<or> (\<forall>k. 0 \<le> k \<and> k < n \<longrightarrow> a \<noteq> off + 2 * st * k \<and> a \<noteq> off + 2 * st * k + 1) \<Longrightarrow>
        load s1 b a = load s b a"
    and t2: "\<And>k. 0 \<le> k \<and> k < n \<Longrightarrow>
        Complex (load s1 B (off + 2 * st * k)) (load s1 B (off + 2 * st * k + 1)) = dft 1 n z k"
    by blast+
  have disj: "k = k'" if "a \<in> A k" "a \<in> A k'" for k k' a
    using stride_cells_disjoint [OF st, of a off k k'] that by (simp add: A_def)
  have eff: "(\<forall>b a. b \<noteq> B \<or> a \<notin> A k \<longrightarrow> load (body k t) b a = load t b a) \<and>
      (\<forall>a\<in>A k. Q k a (load (body k t) B a))"
    if k: "0 \<le> k" "k < n"
      and t: "\<forall>b a. b \<noteq> B \<or> (\<forall>k'. 0 \<le> k' \<and> k' < k \<longrightarrow> a \<notin> A k') \<longrightarrow> load t b a = load s1 b a"
    for k t
  proof -
    have fresh: "\<forall>k'. 0 \<le> k' \<and> k' < k \<longrightarrow> a \<notin> A k'" if "a \<in> A k" for a
      using disj [OF that] by auto
    have in0: "off + 2 * st * k \<in> A k" and in1: "off + 2 * st * k + 1 \<in> A k"
      by (simp_all add: A_def)
    have l0: "load t B (off + 2 * st * k) = Re (dft 1 n z k)"
      using t fresh [OF in0] t2 [of k] k by (simp add: complex_eq_iff)
    have l1: "load t B (off + 2 * st * k + 1) = Im (dft 1 n z k)"
      using t fresh [OF in1] t2 [of k] k by (simp add: complex_eq_iff)
    show ?thesis by (simp add: body_def A_def Q_def Let_def l0 l1)
  qed
  from for_loop_effect [of 0 n B A s1 body Q, OF eff, folded res]
  have r1: "\<And>b a. b \<noteq> B \<or> (\<forall>k. 0 \<le> k \<and> k < n \<longrightarrow> a \<notin> A k) \<Longrightarrow> load ?res b a = load s1 b a"
    and r2: "\<And>k a. 0 \<le> k \<and> k < n \<and> a \<in> A k \<and> (\<forall>k'. k < k' \<and> k' < n \<longrightarrow> a \<notin> A k') \<Longrightarrow>
        Q k a (load ?res B a)"
    by blast+
  show ?thesis
  proof (intro conjI allI impI)
    fix b a
    assume h: "b \<noteq> B \<or> (\<forall>k. 0 \<le> k \<and> k < n \<longrightarrow> a \<noteq> off + 2 * st * k \<and> a \<noteq> off + 2 * st * k + 1)"
    have "b \<noteq> B \<or> (\<forall>k. 0 \<le> k \<and> k < n \<longrightarrow> a \<notin> A k)" using h unfolding A_def by blast
    then have "load ?res b a = load s1 b a" by (rule r1)
    also have "\<dots> = load s b a" using h by (rule t1)
    finally show "load ?res b a = load s b a" .
  next
    fix k
    assume k: "0 \<le> k \<and> k < n"
    have last: "\<forall>k'. k < k' \<and> k' < n \<longrightarrow> a \<notin> A k'" if "a \<in> A k" for a
      using disj [OF that] by auto
    have in0: "off + 2 * st * k \<in> A k" and in1: "off + 2 * st * k + 1 \<in> A k"
      by (simp_all add: A_def)
    have "Q k (off + 2 * st * k) (load ?res B (off + 2 * st * k))"
      by (rule r2) (use k in0 last [OF in0] in blast)
    moreover have "Q k (off + 2 * st * k + 1) (load ?res B (off + 2 * st * k + 1))"
      by (rule r2) (use k in1 last [OF in1] in blast)
    ultimately have "Complex (load ?res B (off + 2 * st * k)) (load ?res B (off + 2 * st * k + 1))
        = dft 1 n z k * of_real nrm"
      by (simp add: Q_def complex_eq_iff)
    also have "\<dots> = idft n z k" by (simp add: idft_def nrm_def)
    finally show "Complex (load ?res B (off + 2 * st * k)) (load ?res B (off + 2 * st * k + 1))
        = idft n (\<lambda>m. Complex (load s B (off + 2 * st * m)) (load s B (off + 2 * st * m + 1))) k"
      by (simp add: z_def)
  qed
qed

lemma dft_cong:
  assumes "\<And>m. 0 \<le> m \<Longrightarrow> m < n \<Longrightarrow> z m = z' m"
  shows "dft sign n z k = dft sign n z' k"
  unfolding dft_def by (rule sum.cong) (simp_all add: assms)

lemma idft_cong:
  assumes "\<And>m. 0 \<le> m \<Longrightarrow> m < n \<Longrightarrow> z m = z' m"
  shows "idft n z k = idft n z' k"
  unfolding idft_def using dft_cong [of n z z' 1 k] assms by simp

lemma line_loop_effect:
  fixes addr :: "int \<Rightarrow> int \<Rightarrow> int"
  assumes inj: "\<And>t t' k k' c c'. 0 \<le> t \<and> t < N \<and> 0 \<le> t' \<and> t' < N \<and> 0 \<le> k \<and> k < n \<and> 0 \<le> k' \<and> k' < n \<and>
        0 \<le> c \<and> c \<le> 1 \<and> 0 \<le> c' \<and> c' \<le> 1 \<and> addr t k + c = addr t' k' + c' \<Longrightarrow> t = t' \<and> k = k' \<and> c = c'"
    and spec: "\<And>t s. 0 \<le> t \<Longrightarrow> t < N \<Longrightarrow>
        (\<forall>b a. b \<noteq> B \<or> (\<forall>k. 0 \<le> k \<and> k < n \<longrightarrow> a \<noteq> addr t k \<and> a \<noteq> addr t k + 1) \<longrightarrow>
            load (body t s) b a = load s b a) \<and>
        (\<forall>k. 0 \<le> k \<and> k < n \<longrightarrow>
            Complex (load (body t s) B (addr t k)) (load (body t s) B (addr t k + 1))
            = T (\<lambda>m. Complex (load s B (addr t m)) (load s B (addr t m + 1))) k)"
    and cong: "\<And>z z' k. (\<And>m. 0 \<le> m \<Longrightarrow> m < n \<Longrightarrow> z m = z' m) \<Longrightarrow> T z k = T z' k"
  shows "(\<forall>b a. b \<noteq> B \<or> (\<forall>t k. 0 \<le> t \<and> t < N \<and> 0 \<le> k \<and> k < n \<longrightarrow> a \<noteq> addr t k \<and> a \<noteq> addr t k + 1) \<longrightarrow>
            load (for_loop 0 N body s0) b a = load s0 b a) \<and>
         (\<forall>t k. 0 \<le> t \<and> t < N \<and> 0 \<le> k \<and> k < n \<longrightarrow>
            Complex (load (for_loop 0 N body s0) B (addr t k)) (load (for_loop 0 N body s0) B (addr t k + 1))
            = T (\<lambda>m. Complex (load s0 B (addr t m)) (load s0 B (addr t m + 1))) k)"
proof -
  let ?res = "for_loop 0 N body s0"
  define z0 where "z0 t = (\<lambda>m. Complex (load s0 B (addr t m)) (load s0 B (addr t m + 1)))" for t
  define A where "A t = {a. \<exists>k. 0 \<le> k \<and> k < n \<and> (a = addr t k \<or> a = addr t k + 1)}" for t
  define Q where "Q t a v \<longleftrightarrow> (\<forall>k. 0 \<le> k \<and> k < n \<longrightarrow>
      (a = addr t k \<longrightarrow> v = Re (T (z0 t) k)) \<and> (a = addr t k + 1 \<longrightarrow> v = Im (T (z0 t) k)))" for t a v
  have ex: "\<exists>k c. 0 \<le> k \<and> k < n \<and> 0 \<le> c \<and> c \<le> 1 \<and> a = addr t k + c" if "a \<in> A t" for t a
  proof -
    from that obtain k where k: "0 \<le> k" "k < n" "a = addr t k \<or> a = addr t k + 1"
      by (auto simp: A_def)
    from k(3) show ?thesis
    proof
      assume "a = addr t k"
      then have "a = addr t k + 0" by simp
      with k(1,2) show ?thesis by (intro exI [of _ k] exI [of _ 0]) simp
    next
      assume "a = addr t k + 1"
      with k(1,2) show ?thesis by (intro exI [of _ k] exI [of _ 1]) simp
    qed
  qed
  have disj: "t = t'" if "0 \<le> t" "t < N" "0 \<le> t'" "t' < N" "a \<in> A t" "a \<in> A t'" for t t' a
  proof -
    from ex [OF that(5)] obtain k c where c: "0 \<le> k" "k < n" "0 \<le> c" "c \<le> 1" "a = addr t k + c"
      by blast
    from ex [OF that(6)] obtain k' c' where c': "0 \<le> k'" "k' < n" "0 \<le> c'" "c' \<le> 1" "a = addr t' k' + c'"
      by blast
    have "addr t k + c = addr t' k' + c'" using c(5) c'(5) by simp
    with inj [of t t' k k' c c'] that(1-4) c(1-4) c'(1-4) show ?thesis by simp
  qed
  have eff: "(\<forall>b a. b \<noteq> B \<or> a \<notin> A t \<longrightarrow> load (body t s) b a = load s b a) \<and>
      (\<forall>a\<in>A t. Q t a (load (body t s) B a))"
    if t: "0 \<le> t" "t < N"
      and s: "\<forall>b a. b \<noteq> B \<or> (\<forall>t'. 0 \<le> t' \<and> t' < t \<longrightarrow> a \<notin> A t') \<longrightarrow> load s b a = load s0 b a"
    for t s
  proof -
    have same: "load s B a = load s0 B a" if "a \<in> A t" for a
    proof -
      have "\<forall>t'. 0 \<le> t' \<and> t' < t \<longrightarrow> a \<notin> A t'"
      proof (intro allI impI notI)
        fix t'
        assume t': "0 \<le> t' \<and> t' < t" and "a \<in> A t'"
        then have "t = t'" using disj [of t t' a] t that by simp
        with t' show False by simp
      qed
      then show ?thesis using s [rule_format, of B a] by simp
    qed
    have zs: "Complex (load s B (addr t m)) (load s B (addr t m + 1)) = z0 t m"
      if "0 \<le> m" "m < n" for m
    proof -
      have "addr t m \<in> A t" "addr t m + 1 \<in> A t" using that by (auto simp: A_def)
      then show ?thesis using same by (simp add: z0_def)
    qed
    from spec [OF t, of s]
    have s1: "\<And>b a. b \<noteq> B \<or> (\<forall>k. 0 \<le> k \<and> k < n \<longrightarrow> a \<noteq> addr t k \<and> a \<noteq> addr t k + 1) \<Longrightarrow>
            load (body t s) b a = load s b a"
      and s2: "\<And>k. 0 \<le> k \<and> k < n \<Longrightarrow>
            Complex (load (body t s) B (addr t k)) (load (body t s) B (addr t k + 1))
            = T (\<lambda>m. Complex (load s B (addr t m)) (load s B (addr t m + 1))) k"
      by blast+
    have s2': "Complex (load (body t s) B (addr t k)) (load (body t s) B (addr t k + 1)) = T (z0 t) k"
      if "0 \<le> k \<and> k < n" for k
    proof -
      have "T (\<lambda>m. Complex (load s B (addr t m)) (load s B (addr t m + 1))) k = T (z0 t) k"
        by (rule cong) (rule zs)
      with s2 [OF that] show ?thesis by simp
    qed
    show ?thesis
    proof (intro conjI allI impI ballI)
      fix b a
      assume "b \<noteq> B \<or> a \<notin> A t"
      then have "b \<noteq> B \<or> (\<forall>k. 0 \<le> k \<and> k < n \<longrightarrow> a \<noteq> addr t k \<and> a \<noteq> addr t k + 1)"
        unfolding A_def by blast
      then show "load (body t s) b a = load s b a" by (rule s1)
    next
      fix a
      assume "a \<in> A t"
      show "Q t a (load (body t s) B a)"
        unfolding Q_def
      proof (intro allI impI conjI)
        fix k
        assume k: "0 \<le> k \<and> k < n" and "a = addr t k"
        then show "load (body t s) B a = Re (T (z0 t) k)"
          using s2' [OF k] by (simp add: complex_eq_iff)
      next
        fix k
        assume k: "0 \<le> k \<and> k < n" and "a = addr t k + 1"
        then show "load (body t s) B a = Im (T (z0 t) k)"
          using s2' [OF k] by (simp add: complex_eq_iff)
      qed
    qed
  qed
  from for_loop_effect [of 0 N B A s0 body Q, OF eff]
  have r1: "\<And>b a. b \<noteq> B \<or> (\<forall>t. 0 \<le> t \<and> t < N \<longrightarrow> a \<notin> A t) \<Longrightarrow> load ?res b a = load s0 b a"
    and r2: "\<And>t a. 0 \<le> t \<and> t < N \<and> a \<in> A t \<and> (\<forall>t'. t < t' \<and> t' < N \<longrightarrow> a \<notin> A t') \<Longrightarrow>
        Q t a (load ?res B a)"
    by blast+
  show ?thesis
  proof (intro conjI allI impI)
    fix b a
    assume h: "b \<noteq> B \<or> (\<forall>t k. 0 \<le> t \<and> t < N \<and> 0 \<le> k \<and> k < n \<longrightarrow> a \<noteq> addr t k \<and> a \<noteq> addr t k + 1)"
    have "b \<noteq> B \<or> (\<forall>t. 0 \<le> t \<and> t < N \<longrightarrow> a \<notin> A t)" using h unfolding A_def by blast
    then show "load ?res b a = load s0 b a" by (rule r1)
  next
    fix t k
    assume tk: "0 \<le> t \<and> t < N \<and> 0 \<le> k \<and> k < n"
    have last: "\<forall>t'. t < t' \<and> t' < N \<longrightarrow> a \<notin> A t'" if "a \<in> A t" for a
    proof (intro allI impI notI)
      fix t'
      assume t': "t < t' \<and> t' < N" and "a \<in> A t'"
      then have "t = t'" using disj [of t t' a] tk that by simp
      with t' show False by simp
    qed
    have in0: "addr t k \<in> A t" and in1: "addr t k + 1 \<in> A t" using tk by (auto simp: A_def)
    have "Q t (addr t k) (load ?res B (addr t k))"
      by (rule r2) (use tk in0 last [OF in0] in blast)
    moreover have "Q t (addr t k + 1) (load ?res B (addr t k + 1))"
      by (rule r2) (use tk in1 last [OF in1] in blast)
    ultimately have "Complex (load ?res B (addr t k)) (load ?res B (addr t k + 1)) = T (z0 t) k"
      using tk unfolding Q_def by (simp add: complex_eq_iff)
    then show "Complex (load ?res B (addr t k)) (load ?res B (addr t k + 1))
        = T (\<lambda>m. Complex (load s0 B (addr t m)) (load s0 B (addr t m + 1))) k"
      by (simp add: z0_def)
  qed
qed

lemma col_addr:
  fixes t k w :: int
  shows "2 * t + 2 * w * k = k * 2 * w + 2 * t"
  by (simp add: algebra_simps)

lemma two_pass_effect:
  assumes W: "0 < W"
    and rowspec: "\<And>t s. 0 \<le> t \<Longrightarrow> t < H \<Longrightarrow>
        (\<forall>b a. b \<noteq> B \<or> (\<forall>k. 0 \<le> k \<and> k < W \<longrightarrow> a \<noteq> t * 2 * W + 2 * 1 * k \<and> a \<noteq> t * 2 * W + 2 * 1 * k + 1) \<longrightarrow>
            load (rowbody t s) b a = load s b a) \<and>
        (\<forall>k. 0 \<le> k \<and> k < W \<longrightarrow>
            Complex (load (rowbody t s) B (t * 2 * W + 2 * 1 * k)) (load (rowbody t s) B (t * 2 * W + 2 * 1 * k + 1))
            = Tw (\<lambda>m. Complex (load s B (t * 2 * W + 2 * 1 * m)) (load s B (t * 2 * W + 2 * 1 * m + 1))) k)"
    and colspec: "\<And>t s. 0 \<le> t \<Longrightarrow> t < W \<Longrightarrow>
        (\<forall>b a. b \<noteq> B \<or> (\<forall>k. 0 \<le> k \<and> k < H \<longrightarrow> a \<noteq> 2 * t + 2 * W * k \<and> a \<noteq> 2 * t + 2 * W * k + 1) \<longrightarrow>
            load (colbody t s) b a = load s b a) \<and>
        (\<forall>k. 0 \<le> k \<and> k < H \<longrightarrow>
            Complex (load (colbody t s) B (2 * t + 2 * W * k)) (load (colbody t s) B (2 * t + 2 * W * k + 1))
            = Th (\<lambda>m. Complex (load s B (2 * t + 2 * W * m)) (load s B (2 * t + 2 * W * m + 1))) k)"
    and congw: "\<And>z z' k. (\<And>m. 0 \<le> m \<Longrightarrow> m < W \<Longrightarrow> z m = z' m) \<Longrightarrow> Tw z k = Tw z' k"
    and congh: "\<And>z z' k. (\<And>m. 0 \<le> m \<Longrightarrow> m < H \<Longrightarrow> z m = z' m) \<Longrightarrow> Th z k = Th z' k"
  shows "(\<forall>b a. b \<noteq> B \<or> (\<forall>i j. 0 \<le> i \<and> i < H \<and> 0 \<le> j \<and> j < W \<longrightarrow>
              a \<noteq> i * 2 * W + 2 * j \<and> a \<noteq> i * 2 * W + 2 * j + 1) \<longrightarrow>
            load (for_loop 0 W colbody (for_loop 0 H rowbody s)) b a = load s b a) \<and>
         (\<forall>u v. 0 \<le> u \<and> u < H \<and> 0 \<le> v \<and> v < W \<longrightarrow>
            cell (for_loop 0 W colbody (for_loop 0 H rowbody s)) B W u v
              = Th (\<lambda>i. Tw (cell s B W i) v) u)"
proof -
  define s1 where "s1 = for_loop 0 H rowbody s"
  let ?res = "for_loop 0 W colbody s1"
  have inj_r: "t = t' \<and> k = k' \<and> c = c'"
    if "0 \<le> t \<and> t < H \<and> 0 \<le> t' \<and> t' < H \<and> 0 \<le> k \<and> k < W \<and> 0 \<le> k' \<and> k' < W \<and>
        0 \<le> c \<and> c \<le> 1 \<and> 0 \<le> c' \<and> c' \<le> 1 \<and>
        t * 2 * W + 2 * 1 * k + c = t' * 2 * W + 2 * 1 * k' + c'" for t t' k k' c c' :: int
    using cell_index_unique [of k W k' c c' t t'] that by simp
  have inj_c: "t = t' \<and> k = k' \<and> c = c'"
    if "0 \<le> t \<and> t < W \<and> 0 \<le> t' \<and> t' < W \<and> 0 \<le> k \<and> k < H \<and> 0 \<le> k' \<and> k' < H \<and>
        0 \<le> c \<and> c \<le> 1 \<and> 0 \<le> c' \<and> c' \<le> 1 \<and>
        2 * t + 2 * W * k + c = 2 * t' + 2 * W * k' + c'" for t t' k k' c c' :: int
    using cell_index_unique [of t W t' c c' k k'] that by (simp add: col_addr)
  from line_loop_effect [of H W "\<lambda>t k. t * 2 * W + 2 * 1 * k" B rowbody Tw s, OF inj_r rowspec congw,
      folded s1_def]
  have a1: "\<And>b a. b \<noteq> B \<or> (\<forall>t k. 0 \<le> t \<and> t < H \<and> 0 \<le> k \<and> k < W \<longrightarrow>
                a \<noteq> t * 2 * W + 2 * 1 * k \<and> a \<noteq> t * 2 * W + 2 * 1 * k + 1) \<Longrightarrow> load s1 b a = load s b a"
    and a2: "\<And>t k. 0 \<le> t \<and> t < H \<and> 0 \<le> k \<and> k < W \<Longrightarrow>
        Complex (load s1 B (t * 2 * W + 2 * 1 * k)) (load s1 B (t * 2 * W + 2 * 1 * k + 1))
          = Tw (\<lambda>m. Complex (load s B (t * 2 * W + 2 * 1 * m)) (load s B (t * 2 * W + 2 * 1 * m + 1))) k"
    by blast+
  from line_loop_effect [of W H "\<lambda>t k. 2 * t + 2 * W * k" B colbody Th s1, OF inj_c colspec congh]
  have b1: "\<And>b a. b \<noteq> B \<or> (\<forall>t k. 0 \<le> t \<and> t < W \<and> 0 \<le> k \<and> k < H \<longrightarrow>
                a \<noteq> 2 * t + 2 * W * k \<and> a \<noteq> 2 * t + 2 * W * k + 1) \<Longrightarrow> load ?res b a = load s1 b a"
    and b2: "\<And>t k. 0 \<le> t \<and> t < W \<and> 0 \<le> k \<and> k < H \<Longrightarrow>
        Complex (load ?res B (2 * t + 2 * W * k)) (load ?res B (2 * t + 2 * W * k + 1))
          = Th (\<lambda>m. Complex (load s1 B (2 * t + 2 * W * m)) (load s1 B (2 * t + 2 * W * m + 1))) k"
    by blast+
  have c1: "cell s1 B W i j = Tw (cell s B W i) j" if "0 \<le> i \<and> i < H \<and> 0 \<le> j \<and> j < W" for i j
  proof -
    have "(\<lambda>m. Complex (load s B (i * 2 * W + 2 * 1 * m)) (load s B (i * 2 * W + 2 * 1 * m + 1)))
        = cell s B W i"
      by (rule ext) (simp add: cell_def)
    with a2 [OF that] show ?thesis by (simp add: cell_def)
  qed
  show ?thesis
    unfolding s1_def [symmetric]
  proof (intro conjI allI impI)
    fix b a
    assume h: "b \<noteq> B \<or> (\<forall>i j. 0 \<le> i \<and> i < H \<and> 0 \<le> j \<and> j < W \<longrightarrow>
              a \<noteq> i * 2 * W + 2 * j \<and> a \<noteq> i * 2 * W + 2 * j + 1)"
    have "b \<noteq> B \<or> (\<forall>t k. 0 \<le> t \<and> t < W \<and> 0 \<le> k \<and> k < H \<longrightarrow>
                a \<noteq> 2 * t + 2 * W * k \<and> a \<noteq> 2 * t + 2 * W * k + 1)"
      using h by (auto simp: col_addr)
    then have "load ?res b a = load s1 b a" by (rule b1)
    also have "b \<noteq> B \<or> (\<forall>t k. 0 \<le> t \<and> t < H \<and> 0 \<le> k \<and> k < W \<longrightarrow>
                a \<noteq> t * 2 * W + 2 * 1 * k \<and> a \<noteq> t * 2 * W + 2 * 1 * k + 1)"
      using h by auto
    then have "load s1 b a = load s b a" by (rule a1)
    finally show "load ?res b a = load s b a" .
  next
    fix u v
    assume uv: "0 \<le> u \<and> u < H \<and> 0 \<le> v \<and> v < W"
    then have vu: "0 \<le> v \<and> v < W \<and> 0 \<le> u \<and> u < H" by simp
    have "(\<lambda>m. Complex (load s1 B (2 * v + 2 * W * m)) (load s1 B (2 * v + 2 * W * m + 1)))
        = (\<lambda>m. cell s1 B W m v)"
      by (rule ext) (simp add: cell_def col_addr)
    with b2 [OF vu] have "cell ?res B W u v = Th (\<lambda>m. cell s1 B W m v) u"
      by (simp add: cell_def col_addr)
    also have "\<dots> = Th (\<lambda>i. Tw (cell s B W i) v) u"
      by (rule congh) (use c1 uv in simp)
    finally show "cell ?res B W u v = Th (\<lambda>i. Tw (cell s B W i) v) u" .
  qed
qed

lemma forward_transform_effect:
  assumes W: "0 < w_res ws"
  shows "(\<forall>b a. b \<noteq> data (fft ws) \<or> (\<forall>i j. 0 \<le> i \<and> i < h_res ws \<and> 0 \<le> j \<and> j < w_res ws \<longrightarrow>
              a \<noteq> i * 2 * w_res ws + 2 * j \<and> a \<noteq> i * 2 * w_res ws + 2 * j + 1) \<longrightarrow>
            load (forward_transform_ideal (\<lambda>x. x) ws s) b a = load s b a) \<and>
         (\<forall>u v. 0 \<le> u \<and> u < h_res ws \<and> 0 \<le> v \<and> v < w_res ws \<longrightarrow>
            cell (forward_transform_ideal (\<lambda>x. x) ws s) (data (fft ws)) (w_res ws) u v
              = dft (- 1) (h_res ws) (\<lambda>i. dft (- 1) (w_res ws) (cell s (data (fft ws)) (w_res ws) i) v) u)"
proof -
  have one: "(1::int) \<noteq> 0" by simp
  have wne: "w_res ws \<noteq> 0" using W by simp
  have ft: "forward_transform_ideal (\<lambda>x. x) ws s =
      for_loop 0 (w_res ws)
        (\<lambda>j. gsl_fft_complex_forward (\<lambda>x. x) (data (fft ws), 2 * j) (w_res ws) (h_res ws) (wv_column ws) (ws_column ws))
        (for_loop 0 (h_res ws)
          (\<lambda>i. gsl_fft_complex_forward (\<lambda>x. x) (data (fft ws), i * 2 * w_res ws) 1 (w_res ws) (wv_line ws) (ws_line ws)) s)"
    by (simp add: forward_transform_ideal_def Let_def)
  show ?thesis
    unfolding ft
    by (rule two_pass_effect [OF W forward_effect [OF one] forward_effect [OF wne] dft_cong dft_cong])
qed

lemma inverse_transform_effect:
  assumes W: "0 < w_res ws"
  shows "(\<forall>b a. b \<noteq> data (fft_copy ws) \<or> (\<forall>i j. 0 \<le> i \<and> i < h_res ws \<and> 0 \<le> j \<and> j < w_res ws \<longrightarrow>
              a \<noteq> i * 2 * w_res ws + 2 * j \<and> a \<noteq> i * 2 * w_res ws + 2 * j + 1) \<longrightarrow>
            load (inverse_transform_ideal (\<lambda>x. x) ws s) b a = load s b a) \<and>
         (\<forall>u v. 0 \<le> u \<and> u < h_res ws \<and> 0 \<le> v \<and> v < w_res ws \<longrightarrow>
            cell (inverse_transform_ideal (\<lambda>x. x) ws s) (data (fft_copy ws)) (w_res ws) u v
              = idft (h_res ws) (\<lambda>i. idft (w_res ws) (cell s (data (fft_copy ws)) (w_res ws) i) v) u)"
proof -
  have one: "(1::int) \<noteq> 0" by simp
  have wne: "w_res ws \<noteq> 0" using W by simp
  have ft: "inverse_transform_ideal (\<lambda>x. x) ws s =
      for_loop 0 (w_res ws)
        (\<lambda>j. gsl_fft_complex_inverse (\<lambda>x. x) (data (fft_copy ws), 2 * j) (w_res ws) (h_res ws) (wv_column ws) (ws_column ws))
        (for_loop 0 (h_res ws)
          (\<lambda>i. gsl_fft_complex_inverse (\<lambda>x. x) (data (fft_copy ws), i * 2 * w_res ws) 1 (w_res ws) (wv_line ws) (ws_line ws)) s)"
    by (simp add: inverse_transform_ideal_def Let_def)
  show ?thesis
    unfolding ft
    by (rule two_pass_effect [OF W inverse_effect [OF one] inverse_effect [OF wne] idft_cong idft_cong])
qed

section \<open>Roots of unity, inversion and the convolution theorem\<close>

lemma dft_root: "dft sign n z k = (\<Sum>m = 0..<n. z m * omega sign n (k * m))"
  by (simp add: dft_def omega_def)

lemma omega_add: "omega sign n (a + b) = omega sign n a * omega sign n b"
  by (simp add: omega_def cis_mult algebra_simps add_divide_distrib)

lemma omega_zero [simp]: "omega sign n 0 = 1"
  by (simp add: omega_def)

lemma omega_multiple:
  assumes "n \<noteq> 0" "sign = 1 \<or> sign = - 1"
  shows "omega sign n (n * t) = 1"
proof -
  have "sign * (2 * pi * real_of_int (n * t) / real_of_int n) = 2 * pi * (sign * real_of_int t)"
    using assms(1) by simp
  moreover have "sign * real_of_int t \<in> \<int>" using assms(2) by auto
  ultimately show ?thesis by (simp only: omega_def cis_multiple_2pi)
qed

lemma omega_mod:
  assumes "n \<noteq> 0" "sign = 1 \<or> sign = - 1"
  shows "omega sign n (e mod n) = omega sign n e"
proof -
  have "omega sign n e = omega sign n (n * (e div n) + e mod n)" by simp
  also have "\<dots> = omega sign n (n * (e div n)) * omega sign n (e mod n)" by (rule omega_add)
  also have "\<dots> = omega sign n (e mod n)" using omega_multiple [OF assms] by simp
  finally show ?thesis by simp
qed

lemma omega_cong_mod:
  assumes "n \<noteq> 0" "sign = 1 \<or> sign = - 1" "a mod n = b mod n"
  shows "omega sign n a = omega sign n b"
  using omega_mod [OF assms(1,2), of a] omega_mod [OF assms(1,2), of b] assms(3) by simp

lemma omega_minus: "omega sign n (- e) = omega (- sign) n e"
  by (simp add: omega_def)

lemma omega_cnj: "cnj (omega sign n e) = omega (- sign) n e"
  by (simp add: omega_def cis_cnj)

lemma omega_inverse: "omega (- 1) n e * omega 1 n e = 1"
  by (simp add: omega_def cis_mult)

lemma omega_power: "omega 1 n (int u * d) = omega 1 n d ^ u"
  by (simp add: omega_def DeMoivre algebra_simps)

lemma omega_eq_1:
  assumes "0 < n" "omega 1 n d = 1"
  shows "d mod n = 0"
proof -
  from assms(2) have "cos (2 * pi * real_of_int d / real_of_int n) = 1"
    by (simp add: omega_def complex_eq_iff)
  then obtain k :: int where "2 * pi * real_of_int d / real_of_int n = of_int k * 2 * pi"
    by (auto simp: cos_one_2pi_int)
  then have "real_of_int d = real_of_int (k * n)" using assms(1) by (simp add: field_simps)
  then have "d = k * n" by (simp only: of_int_eq_iff)
  then show ?thesis by simp
qed

lemma sum_int_range:
  fixes f :: "int \<Rightarrow> 'a::comm_monoid_add"
  assumes "0 \<le> n"
  shows "(\<Sum>u = 0..<n. f u) = (\<Sum>u<nat n. f (int u))"
proof -
  have "int ` {0..<nat n} = {0..<n}"
    using assms by (simp add: image_int_atLeastLessThan)
  then have "{0..<n} = int ` {..<nat n}" by (simp add: lessThan_atLeast0)
  then show ?thesis by (simp add: sum.reindex)
qed

lemma omega_orthogonal:
  assumes n: "0 < n"
  shows "(\<Sum>u = 0..<n. omega 1 n (u * d)) = (if d mod n = 0 then of_int n else 0)"
proof (cases "d mod n = 0")
  case True
  have "omega 1 n (u * d) = 1" for u
  proof -
    have "(u * d) mod n = 0 mod n" using True by (simp add: mod_mult_right_eq [symmetric])
    from omega_cong_mod [OF _ _ this, of 1] n show ?thesis by simp
  qed
  then show ?thesis using True n by simp
next
  case False
  define r where "r = omega 1 n d"
  have r1: "r \<noteq> 1" using omega_eq_1 [OF n, of d] False by (auto simp: r_def)
  have rn: "r ^ nat n = 1"
  proof -
    have "r ^ nat n = omega 1 n (int (nat n) * d)" by (simp only: r_def omega_power)
    also have "\<dots> = omega 1 n (n * d)" using n by simp
    also have "\<dots> = 1" using omega_multiple [of n 1 d] n by simp
    finally show ?thesis .
  qed
  have "(\<Sum>u = 0..<n. omega 1 n (u * d)) = (\<Sum>u<nat n. omega 1 n (int u * d))"
    using n by (simp add: sum_int_range)
  also have "\<dots> = (\<Sum>u<nat n. r ^ u)" by (simp only: omega_power r_def)
  also have "\<dots> = (r ^ nat n - 1) / (r - 1)" using r1 by (rule geometric_sum)
  also have "\<dots> = 0" using rn by simp
  finally show ?thesis using False by simp
qed

lemma idft_root: "idft n f p = (\<Sum>u = 0..<n. f u * omega 1 n (p * u)) / of_int n"
  by (simp add: idft_def dft_root)

lemma idft_dft:
  assumes n: "0 < n" and p: "0 \<le> p" "p < n"
  shows "idft n (dft (- 1) n a) p = a p"
proof -
  have tm: "(\<Sum>i = 0..<n. a i * omega (- 1) n (u * i)) * omega 1 n (p * u)
      = (\<Sum>i = 0..<n. a i * omega 1 n (u * (p - i)))" for u
  proof -
    have "omega (- 1) n (u * i) * omega 1 n (p * u) = omega 1 n (u * (p - i))" for i
    proof -
      have "omega (- 1) n (u * i) = omega 1 n (- (u * i))" by (simp add: omega_minus)
      then have "omega (- 1) n (u * i) * omega 1 n (p * u) = omega 1 n (- (u * i) + p * u)"
        by (simp only: omega_add)
      also have "- (u * i) + p * u = u * (p - i)" by (simp add: algebra_simps)
      finally show ?thesis .
    qed
    then show ?thesis by (simp add: sum_distrib_right mult.assoc)
  qed
  have delta: "(if (p - i) mod n = 0 then of_int n else 0) = (if i = p then (of_int n :: complex) else 0)"
    if "i \<in> {0..<n}" for i
  proof -
    have "(p - i) mod n = 0 \<longleftrightarrow> i = p"
    proof
      assume "(p - i) mod n = 0"
      then have "n dvd (p - i)" by (simp add: dvd_eq_mod_eq_0)
      moreover have "\<bar>p - i\<bar> < n" using that p by auto
      ultimately have "p - i = 0" using n dvd_imp_le_int [of "p - i" n] by auto
      then show "i = p" by simp
    qed simp
    then show ?thesis by simp
  qed
  have "(\<Sum>u = 0..<n. dft (- 1) n a u * omega 1 n (p * u))
      = (\<Sum>u = 0..<n. \<Sum>i = 0..<n. a i * omega 1 n (u * (p - i)))"
    by (simp only: dft_root tm)
  also have "\<dots> = (\<Sum>i = 0..<n. \<Sum>u = 0..<n. a i * omega 1 n (u * (p - i)))"
    by (rule sum.swap)
  also have "\<dots> = (\<Sum>i = 0..<n. a i * (\<Sum>u = 0..<n. omega 1 n (u * (p - i))))"
    by (simp add: sum_distrib_left)
  also have "\<dots> = (\<Sum>i = 0..<n. a i * (if (p - i) mod n = 0 then of_int n else 0))"
    by (simp only: omega_orthogonal [OF n])
  also have "\<dots> = (\<Sum>i = 0..<n. a i * (if i = p then of_int n else 0))"
    by (rule sum.cong) (simp_all only: delta)
  also have "\<dots> = (\<Sum>i = 0..<n. if i = p then a p * of_int n else 0)"
    by (rule sum.cong) simp_all
  also have "\<dots> = a p * of_int n" using p by (simp add: sum.delta)
  finally show ?thesis using n by (simp add: idft_root)
qed

lemma shift_reindex:
  fixes g :: "int \<Rightarrow> 'a::comm_monoid_add"
  assumes n: "0 < n"
  shows "(\<Sum>p = 0..<n. g ((p - i) mod n)) = (\<Sum>k = 0..<n. g k)"
proof (rule sum.reindex_bij_witness [of _ "\<lambda>k. (k + i) mod n" "\<lambda>p. (p - i) mod n"])
  fix p
  assume "p \<in> {0..<n}"
  then show "((p - i) mod n + i) mod n = p" by (simp add: mod_add_left_eq)
  show "(p - i) mod n \<in> {0..<n}" using n by simp
next
  fix k
  assume "k \<in> {0..<n}"
  then show "((k + i) mod n - i) mod n = k" by (simp add: mod_diff_left_eq)
  show "(k + i) mod n \<in> {0..<n}" using n by simp
qed simp

lemma dft_cyclic1:
  assumes n: "0 < n"
  shows "dft (- 1) n (cyclic1 n a b) u = dft (- 1) n a u * dft (- 1) n b u"
proof -
  have nz: "n \<noteq> 0" using n by simp
  have sg: "(- 1 :: real) = 1 \<or> (- 1 :: real) = - 1" by simp
  have split: "omega (- 1) n (u * p) = omega (- 1) n (u * i) * omega (- 1) n (u * ((p - i) mod n))" for p i
  proof -
    have "(u * (p - i)) mod n = (u * ((p - i) mod n)) mod n" by (simp add: mod_mult_right_eq)
    then have "omega (- 1) n (u * (p - i)) = omega (- 1) n (u * ((p - i) mod n))"
      by (rule omega_cong_mod [OF nz sg])
    moreover have "omega (- 1) n (u * p) = omega (- 1) n (u * i + u * (p - i))"
      by (simp add: algebra_simps)
    ultimately show ?thesis by (simp only: omega_add)
  qed
  have inner: "(\<Sum>p = 0..<n. a i * b ((p - i) mod n) * omega (- 1) n (u * p))
      = a i * omega (- 1) n (u * i) * dft (- 1) n b u" for i
  proof -
    have "(\<Sum>p = 0..<n. a i * b ((p - i) mod n) * omega (- 1) n (u * p))
        = (\<Sum>p = 0..<n. a i * omega (- 1) n (u * i) *
              (b ((p - i) mod n) * omega (- 1) n (u * ((p - i) mod n))))"
    proof (rule sum.cong)
      fix p
      show "a i * b ((p - i) mod n) * omega (- 1) n (u * p)
          = a i * omega (- 1) n (u * i) * (b ((p - i) mod n) * omega (- 1) n (u * ((p - i) mod n)))"
        by (subst split [of p i]) (simp only: ac_simps)
    qed simp
    also have "\<dots> = a i * omega (- 1) n (u * i) *
        (\<Sum>p = 0..<n. b ((p - i) mod n) * omega (- 1) n (u * ((p - i) mod n)))"
      by (simp only: sum_distrib_left)
    also have "(\<Sum>p = 0..<n. b ((p - i) mod n) * omega (- 1) n (u * ((p - i) mod n)))
        = (\<Sum>k = 0..<n. b k * omega (- 1) n (u * k))"
      by (rule shift_reindex [OF n, of "\<lambda>k. b k * omega (- 1) n (u * k)" i])
    finally show ?thesis by (simp only: dft_root)
  qed
  have "dft (- 1) n (cyclic1 n a b) u
      = (\<Sum>p = 0..<n. \<Sum>i = 0..<n. a i * b ((p - i) mod n) * omega (- 1) n (u * p))"
    by (simp add: dft_root cyclic1_def sum_distrib_right)
  also have "\<dots> = (\<Sum>i = 0..<n. \<Sum>p = 0..<n. a i * b ((p - i) mod n) * omega (- 1) n (u * p))"
    by (rule sum.swap)
  also have "\<dots> = (\<Sum>i = 0..<n. a i * omega (- 1) n (u * i) * dft (- 1) n b u)"
    by (simp only: inner)
  also have "\<dots> = dft (- 1) n a u * dft (- 1) n b u"
    by (simp add: dft_root sum_distrib_right)
  finally show ?thesis .
qed

lemma dft_sum: "dft sign n (\<lambda>m. \<Sum>i\<in>I. g i m) k = (\<Sum>i\<in>I. dft sign n (g i) k)"
proof -
  have "dft sign n (\<lambda>m. \<Sum>i\<in>I. g i m) k = (\<Sum>m = 0..<n. \<Sum>i\<in>I. g i m * omega sign n (k * m))"
    by (simp add: dft_root sum_distrib_right)
  also have "\<dots> = (\<Sum>i\<in>I. \<Sum>m = 0..<n. g i m * omega sign n (k * m))" by (rule sum.swap)
  finally show ?thesis by (simp add: dft_root)
qed

lemma dft_linear:
  "dft sign n (\<lambda>m. a m + c * b m) k = dft sign n a k + c * dft sign n b k"
  by (simp add: dft_root sum.distrib sum_distrib_left algebra_simps)

lemma dft_scale: "dft sign n (\<lambda>m. z m / c) k = dft sign n z k / c"
  by (simp add: dft_root sum_divide_distrib)

lemma idft_dft_swap:
  "idft w (\<lambda>v. dft sign h (\<lambda>i. g i v) u) q = dft sign h (\<lambda>i. idft w (g i) q) u"
proof -
  have "(\<Sum>v = 0..<w. dft sign h (\<lambda>i. g i v) u * omega 1 w (q * v))
      = (\<Sum>v = 0..<w. \<Sum>i = 0..<h. g i v * omega 1 w (q * v) * omega sign h (u * i))"
    by (simp add: dft_root sum_distrib_right sum_distrib_left mult_ac)
  also have "\<dots> = (\<Sum>i = 0..<h. \<Sum>v = 0..<w. g i v * omega 1 w (q * v) * omega sign h (u * i))"
    by (rule sum.swap)
  also have "\<dots> = (\<Sum>i = 0..<h. (\<Sum>v = 0..<w. g i v * omega 1 w (q * v)) * omega sign h (u * i))"
    by (simp add: sum_distrib_right)
  finally have "idft w (\<lambda>v. dft sign h (\<lambda>i. g i v) u) q
      = (\<Sum>i = 0..<h. (\<Sum>v = 0..<w. g i v * omega 1 w (q * v)) * omega sign h (u * i)) / of_int w"
    by (simp add: idft_root)
  also have "\<dots> = (\<Sum>i = 0..<h. (\<Sum>v = 0..<w. g i v * omega 1 w (q * v)) * omega sign h (u * i) / of_int w)"
    by (rule sum_divide_distrib)
  also have "\<dots> = (\<Sum>i = 0..<h. (\<Sum>v = 0..<w. g i v * omega 1 w (q * v)) / of_int w * omega sign h (u * i))"
    by (rule sum.cong) simp_all
  finally show ?thesis by (simp only: idft_root dft_root)
qed

lemma idft2_dft2:
  assumes "0 < h" "0 < w" "0 \<le> p" "p < h" "0 \<le> q" "q < w"
  shows "idft h (\<lambda>u. idft w (\<lambda>v. dft (- 1) h (\<lambda>i. dft (- 1) w (f i) v) u) q) p = f p q"
proof -
  have "idft w (\<lambda>v. dft (- 1) h (\<lambda>i. dft (- 1) w (f i) v) u) q = dft (- 1) h (\<lambda>i. f i q) u" for u
  proof -
    have "idft w (\<lambda>v. dft (- 1) h (\<lambda>i. dft (- 1) w (f i) v) u) q
        = dft (- 1) h (\<lambda>i. idft w (dft (- 1) w (f i)) q) u"
      by (rule idft_dft_swap)
    also have "\<dots> = dft (- 1) h (\<lambda>i. f i q) u"
      by (simp only: idft_dft [OF assms(2,5,6)])
    finally show ?thesis .
  qed
  then have "idft h (\<lambda>u. idft w (\<lambda>v. dft (- 1) h (\<lambda>i. dft (- 1) w (f i) v) u) q) p
      = idft h (dft (- 1) h (\<lambda>i. f i q)) p"
    by simp
  also have "\<dots> = f p q" by (rule idft_dft [OF assms(1,3,4)])
  finally show ?thesis .
qed

lemma dft2_cyclic2:
  assumes "0 < h" "0 < w"
  shows "dft (- 1) h (\<lambda>p. dft (- 1) w (cyclic2 h w x y p) v) u
      = dft (- 1) h (\<lambda>i. dft (- 1) w (x i) v) u * dft (- 1) h (\<lambda>i. dft (- 1) w (y i) v) u"
proof -
  have row: "dft (- 1) w (cyclic2 h w x y p) v
      = cyclic1 h (\<lambda>i. dft (- 1) w (x i) v) (\<lambda>i. dft (- 1) w (y i) v) p" for p
  proof -
    have "cyclic2 h w x y p = (\<lambda>q. \<Sum>i = 0..<h. cyclic1 w (x i) (y ((p - i) mod h)) q)"
      by (rule ext) (simp add: cyclic2_def cyclic1_def)
    then have "dft (- 1) w (cyclic2 h w x y p) v
        = (\<Sum>i = 0..<h. dft (- 1) w (cyclic1 w (x i) (y ((p - i) mod h))) v)"
      by (simp only: dft_sum)
    also have "\<dots> = (\<Sum>i = 0..<h. dft (- 1) w (x i) v * dft (- 1) w (y ((p - i) mod h)) v)"
      by (simp only: dft_cyclic1 [OF assms(2)])
    finally show ?thesis by (simp add: cyclic1_def)
  qed
  have "dft (- 1) h (\<lambda>p. dft (- 1) w (cyclic2 h w x y p) v) u
      = dft (- 1) h (cyclic1 h (\<lambda>i. dft (- 1) w (x i) v) (\<lambda>i. dft (- 1) w (y i) v)) u"
    by (simp only: row)
  also have "\<dots> = dft (- 1) h (\<lambda>i. dft (- 1) w (x i) v) u * dft (- 1) h (\<lambda>i. dft (- 1) w (y i) v) u"
    by (rule dft_cyclic1 [OF assms(1)])
  finally show ?thesis .
qed

lemma cnj_dft: "cnj (dft sign n a k) = dft (- sign) n (\<lambda>m. cnj (a m)) k"
  by (simp add: dft_root omega_cnj)

lemma dft_mirror:
  assumes "n \<noteq> 0"
  shows "dft 1 n a ((- k) mod n) = dft (- 1) n a k"
proof -
  have sg: "(1 :: real) = 1 \<or> (1 :: real) = - 1" by simp
  have "omega 1 n ((- k) mod n * m) = omega (- 1) n (k * m)" for m
  proof -
    have "((- k) mod n * m) mod n = (- (k * m)) mod n" by (simp add: mod_mult_left_eq)
    then have "omega 1 n ((- k) mod n * m) = omega 1 n (- (k * m))"
      by (rule omega_cong_mod [OF assms sg])
    then show ?thesis by (simp only: omega_minus)
  qed
  then show ?thesis by (simp add: dft_root)
qed

lemma product_formula:
  fixes a b :: complex
  defines "zz \<equiv> a + \<i> * b" and "zs \<equiv> a - \<i> * b"
  shows "Complex (0.5 * (Re zz * Im zz - Re zs * Im zs))
           (- 0.25 * (Re zz * Re zz - Im zz * Im zz - Re zs * Re zs + Im zs * Im zs)) = a * b"
  by (simp add: complex_eq_iff zz_def zs_def algebra_simps)

lemma packed_spectrum:
  fixes x y :: "int \<Rightarrow> int \<Rightarrow> real"
  assumes "h \<noteq> 0" "w \<noteq> 0"
  defines "Z \<equiv> \<lambda>u v. dft (- 1) h (\<lambda>i. dft (- 1) w (\<lambda>j. Complex (x i j) (y i j)) v) u"
  defines "A \<equiv> \<lambda>u v. dft (- 1) h (\<lambda>i. dft (- 1) w (\<lambda>j. of_real (x i j)) v) u"
  defines "B \<equiv> \<lambda>u v. dft (- 1) h (\<lambda>i. dft (- 1) w (\<lambda>j. of_real (y i j)) v) u"
  shows "Z u v = A u v + \<i> * B u v"
    and "cnj (Z ((- u) mod h) ((- v) mod w)) = A u v - \<i> * B u v"
proof -
  have lin: "dft (- 1) h (\<lambda>i. dft (- 1) w (\<lambda>j. of_real (x i j) + c * of_real (y i j)) v) u
      = A u v + c * B u v" for c u v
    by (simp only: dft_linear A_def B_def)
  have "Z u v = dft (- 1) h (\<lambda>i. dft (- 1) w (\<lambda>j. of_real (x i j) + \<i> * of_real (y i j)) v) u"
    by (simp add: Z_def Complex_eq)
  then show "Z u v = A u v + \<i> * B u v" by (simp only: lin)
  have "cnj (Z ((- u) mod h) ((- v) mod w))
      = dft 1 h (\<lambda>i. dft 1 w (\<lambda>j. cnj (Complex (x i j) (y i j))) ((- v) mod w)) ((- u) mod h)"
    by (simp add: Z_def cnj_dft)
  also have "\<dots> = dft (- 1) h (\<lambda>i. dft (- 1) w (\<lambda>j. cnj (Complex (x i j) (y i j))) v) u"
    by (simp only: dft_mirror [OF assms(1)] dft_mirror [OF assms(2)])
  also have "\<dots> = dft (- 1) h (\<lambda>i. dft (- 1) w (\<lambda>j. of_real (x i j) + (- \<i>) * of_real (y i j)) v) u"
    by (simp add: Complex_eq)
  also have "\<dots> = A u v + (- \<i>) * B u v" by (simp only: lin)
  finally show "cnj (Z ((- u) mod h) ((- v) mod w)) = A u v - \<i> * B u v" by simp
qed

lemma packed_pipeline:
  fixes x y :: "int \<Rightarrow> int \<Rightarrow> real"
  assumes "0 < h" "0 < w" "0 \<le> p" "p < h" "0 \<le> q" "q < w"
  defines "Z \<equiv> \<lambda>u v. dft (- 1) h (\<lambda>i. dft (- 1) w (\<lambda>j. Complex (x i j) (y i j)) v) u"
  defines "Pr \<equiv> \<lambda>u v. (let zz = Z u v; zs = cnj (Z ((- u) mod h) ((- v) mod w))
      in Complex (0.5 * (Re zz * Im zz - Re zs * Im zs))
           (- 0.25 * (Re zz * Re zz - Im zz * Im zz - Re zs * Re zs + Im zs * Im zs)))"
  shows "idft h (\<lambda>u. idft w (Pr u) q) p = of_real (cyclic2 h w x y p q)"
proof -
  define X where "X = (\<lambda>i j. complex_of_real (x i j))"
  define Y where "Y = (\<lambda>i j. complex_of_real (y i j))"
  have hz: "h \<noteq> 0" and wz: "w \<noteq> 0" using assms(1,2) by simp_all
  have pr: "Pr u v = dft (- 1) h (\<lambda>i. dft (- 1) w (X i) v) u * dft (- 1) h (\<lambda>i. dft (- 1) w (Y i) v) u"
    for u v
  proof -
    have z1: "Z u v = dft (- 1) h (\<lambda>i. dft (- 1) w (X i) v) u
        + \<i> * dft (- 1) h (\<lambda>i. dft (- 1) w (Y i) v) u"
      unfolding Z_def X_def Y_def by (rule packed_spectrum(1) [OF hz wz])
    have z2: "cnj (Z ((- u) mod h) ((- v) mod w)) = dft (- 1) h (\<lambda>i. dft (- 1) w (X i) v) u
        - \<i> * dft (- 1) h (\<lambda>i. dft (- 1) w (Y i) v) u"
      unfolding Z_def X_def Y_def by (rule packed_spectrum(2) [OF hz wz])
    show ?thesis unfolding Pr_def Let_def z2 z1 by (rule product_formula)
  qed
  have "Pr u = (\<lambda>v. dft (- 1) h (\<lambda>p. dft (- 1) w (cyclic2 h w X Y p) v) u)" for u
    by (rule ext) (simp only: pr dft2_cyclic2 [OF assms(1,2)])
  then have "idft h (\<lambda>u. idft w (Pr u) q) p
      = idft h (\<lambda>u. idft w (\<lambda>v. dft (- 1) h (\<lambda>p. dft (- 1) w (cyclic2 h w X Y p) v) u) q) p"
    by simp
  also have "\<dots> = cyclic2 h w X Y p q" by (rule idft2_dft2 [OF assms(1-6)])
  also have "\<dots> = of_real (cyclic2 h w x y p q)" by (simp add: cyclic2_def X_def Y_def)
  finally show ?thesis .
qed

lemma pipeline_effect:
  fixes s3 :: machine
  assumes H: "0 < h_res ws" and W: "0 < w_res ws" and FC: "data (fft ws) \<noteq> data (fft_copy ws)"
  defines "s6 \<equiv> inverse_transform_ideal (\<lambda>x. x) ws (spectral_product_ideal (\<lambda>x. x) ws (forward_transform_ideal (\<lambda>x. x) ws s3))"
  shows "(\<forall>b a. (b \<noteq> data (fft ws) \<and> b \<noteq> data (fft_copy ws)) \<or>
            (\<forall>i j. 0 \<le> i \<and> i < h_res ws \<and> 0 \<le> j \<and> j < w_res ws \<longrightarrow>
               a \<noteq> i * 2 * w_res ws + 2 * j \<and> a \<noteq> i * 2 * w_res ws + 2 * j + 1) \<longrightarrow>
            load s6 b a = load s3 b a) \<and>
         (\<forall>p q. 0 \<le> p \<and> p < h_res ws \<and> 0 \<le> q \<and> q < w_res ws \<longrightarrow>
            load s6 (data (fft_copy ws)) (p * 2 * w_res ws + 2 * q)
              = cyclic2 (h_res ws) (w_res ws)
                  (\<lambda>i j. load s3 (data (fft ws)) (i * 2 * w_res ws + 2 * j))
                  (\<lambda>i j. load s3 (data (fft ws)) (i * 2 * w_res ws + 2 * j + 1)) p q)"
proof -
  let ?H = "h_res ws" and ?W = "w_res ws" and ?F = "data (fft ws)" and ?C = "data (fft_copy ws)"
  define s4 where "s4 = forward_transform_ideal (\<lambda>x. x) ws s3"
  define s5 where "s5 = spectral_product_ideal (\<lambda>x. x) ws s4"
  have s6: "s6 = inverse_transform_ideal (\<lambda>x. x) ws s5" by (simp add: s6_def s5_def s4_def)
  define x where "x = (\<lambda>i j. load s3 ?F (i * 2 * ?W + 2 * j))"
  define y where "y = (\<lambda>i j. load s3 ?F (i * 2 * ?W + 2 * j + 1))"
  define Z where "Z = (\<lambda>u v. dft (- 1) ?H (\<lambda>i. dft (- 1) ?W (\<lambda>j. Complex (x i j) (y i j)) v) u)"
  define Pr where "Pr = (\<lambda>u v. (let zz = Z u v; zs = cnj (Z ((- u) mod ?H) ((- v) mod ?W))
      in Complex (0.5 * (Re zz * Im zz - Re zs * Im zs))
           (- 0.25 * (Re zz * Re zz - Im zz * Im zz - Re zs * Re zs + Im zs * Im zs))))"
  note f = forward_transform_effect [OF W, of s3, folded s4_def]
  note m = spectral_product_effect [OF W FC, of s4, folded s5_def]
  note i = inverse_transform_effect [OF W, of s5, folded s6]
  have f1: "\<And>b a. b \<noteq> ?F \<or> (\<forall>i j. 0 \<le> i \<and> i < ?H \<and> 0 \<le> j \<and> j < ?W \<longrightarrow>
              a \<noteq> i * 2 * ?W + 2 * j \<and> a \<noteq> i * 2 * ?W + 2 * j + 1) \<Longrightarrow> load s4 b a = load s3 b a"
    and f2: "\<And>u v. 0 \<le> u \<and> u < ?H \<and> 0 \<le> v \<and> v < ?W \<Longrightarrow>
       cell s4 ?F ?W u v = dft (- 1) ?H (\<lambda>i. dft (- 1) ?W (cell s3 ?F ?W i) v) u"
    using f by blast+
  have m1: "\<And>b a. b \<noteq> ?C \<or> (\<forall>i j. 0 \<le> i \<and> i < ?H \<and> 0 \<le> j \<and> j < ?W \<longrightarrow>
              a \<noteq> i * 2 * ?W + 2 * j \<and> a \<noteq> i * 2 * ?W + 2 * j + 1) \<Longrightarrow> load s5 b a = load s4 b a"
    and m2: "\<And>u v. 0 \<le> u \<and> u < ?H \<and> 0 \<le> v \<and> v < ?W \<Longrightarrow>
       cell s5 ?C ?W u v =
         (let z = cell s4 ?F ?W u v;
              zs = cnj (cell s4 ?F ?W ((- u) mod ?H) ((- v) mod ?W))
          in Complex (0.5 * (Re z * Im z - Re zs * Im zs))
               (- 0.25 * (Re z * Re z - Im z * Im z - Re zs * Re zs + Im zs * Im zs)))"
    using m by blast+
  have i1: "\<And>b a. b \<noteq> ?C \<or> (\<forall>i j. 0 \<le> i \<and> i < ?H \<and> 0 \<le> j \<and> j < ?W \<longrightarrow>
              a \<noteq> i * 2 * ?W + 2 * j \<and> a \<noteq> i * 2 * ?W + 2 * j + 1) \<Longrightarrow> load s6 b a = load s5 b a"
    and i2: "\<And>u v. 0 \<le> u \<and> u < ?H \<and> 0 \<le> v \<and> v < ?W \<Longrightarrow>
       cell s6 ?C ?W u v = idft ?H (\<lambda>i. idft ?W (cell s5 ?C ?W i) v) u"
    using i by blast+
  have cz: "cell s3 ?F ?W i = (\<lambda>j. Complex (x i j) (y i j))" for i
    by (rule ext) (simp add: cell_def x_def y_def)
  have c4: "cell s4 ?F ?W u v = Z u v" if "0 \<le> u \<and> u < ?H \<and> 0 \<le> v \<and> v < ?W" for u v
    using f2 [OF that] by (simp only: cz Z_def)
  have c5: "cell s5 ?C ?W u v = Pr u v" if uv: "0 \<le> u \<and> u < ?H \<and> 0 \<le> v \<and> v < ?W" for u v
  proof -
    have "0 \<le> (- u) mod ?H \<and> (- u) mod ?H < ?H \<and> 0 \<le> (- v) mod ?W \<and> (- v) mod ?W < ?W"
      using H W by simp
    from c4 [OF this] c4 [OF uv] m2 [OF uv] show ?thesis by (simp only: Pr_def)
  qed
  show ?thesis
  proof (intro conjI allI impI)
    fix b a
    assume h: "(b \<noteq> ?F \<and> b \<noteq> ?C) \<or> (\<forall>i j. 0 \<le> i \<and> i < ?H \<and> 0 \<le> j \<and> j < ?W \<longrightarrow>
               a \<noteq> i * 2 * ?W + 2 * j \<and> a \<noteq> i * 2 * ?W + 2 * j + 1)"
    have "load s6 b a = load s5 b a" by (rule i1) (use h in blast)
    also have "\<dots> = load s4 b a" by (rule m1) (use h in blast)
    also have "\<dots> = load s3 b a" by (rule f1) (use h in blast)
    finally show "load s6 b a = load s3 b a" .
  next
    fix p q
    assume pq: "0 \<le> p \<and> p < ?H \<and> 0 \<le> q \<and> q < ?W"
    have "cell s6 ?C ?W p q = idft ?H (\<lambda>u. idft ?W (cell s5 ?C ?W u) q) p" by (rule i2 [OF pq])
    also have "\<dots> = idft ?H (\<lambda>u. idft ?W (Pr u) q) p"
    proof (rule idft_cong)
      fix u
      assume u: "0 \<le> u" "u < ?H"
      show "idft ?W (cell s5 ?C ?W u) q = idft ?W (Pr u) q"
        by (rule idft_cong) (use c5 u in simp)
    qed
    also have "\<dots> = of_real (cyclic2 ?H ?W x y p q)"
      unfolding Pr_def Z_def using packed_pipeline [OF H W, of p q x y] pq by simp
    finally have "Re (cell s6 ?C ?W p q) = cyclic2 ?H ?W x y p q" by simp
    then show "load s6 ?C (p * 2 * ?W + 2 * q)
        = cyclic2 ?H ?W (\<lambda>i j. load s3 ?F (i * 2 * ?W + 2 * j))
            (\<lambda>i j. load s3 ?F (i * 2 * ?W + 2 * j + 1)) p q"
      by (simp add: cell_def x_def y_def)
  qed
qed

section \<open>Workspaces built by init_workspace_ideal\<close>

lemma workspace1_init: "init_workspace_ideal workspace0 LINEAR 1 1 1 1 machine0 = Some (workspace1, machine1)"
  by (simp add: init_workspace_ideal_def working_size_ideal_def gsl_matrix_alloc_def alloc_def workspace0_def
      machine0_def workspace1_def machine1_def null_matrix_def mode_defs)

lemma workspace1_ok: "workspace_ok workspace1"
  by (simp add: workspace_ok_def workspace1_def)

lemma workspace_ok_pos:
  assumes "workspace_ok ws"
  shows "0 < h_res ws" "0 < w_res ws" "h_src ws \<le> h_res ws" "w_src ws \<le> w_res ws"
proof -
  from assms have a: "0 < h_src ws" "0 < w_src ws" "0 < h_kernel ws" "0 < w_kernel ws"
    "h_src ws + (h_kernel ws + 1) div 2 \<le> h_res ws"
    "w_src ws + (w_kernel ws + 1) div 2 \<le> w_res ws"
    by (simp_all add: workspace_ok_def)
  have b: "0 \<le> (h_kernel ws + 1) div 2" "0 \<le> (w_kernel ws + 1) div 2"
    using a(3,4) by simp_all
  show "0 < h_res ws" using a(1,5) b(1) by linarith
  show "0 < w_res ws" using a(2,6) b(2) by linarith
  show "h_src ws \<le> h_res ws" using a(5) b(1) by linarith
  show "w_src ws \<le> w_res ws" using a(6) b(2) by linarith
qed

lemma init_workspace_ok:
  assumes "0 < hs" "0 < wsrc" "0 < hk" "0 < wk"
    and "m = LINEAR \<or> m = LINEAR_OPTIMAL \<or> m = CIRCULAR \<or> m = CIRCULAR_OPTIMAL"
    and "init_workspace_ideal ws0 m hs wsrc hk wk s = Some (ws, s')"
  shows "workspace_ok ws \<and> h_src ws = hs \<and> w_src ws = wsrc \<and> h_kernel ws = hk \<and> w_kernel ws = wk \<and>
         mode ws = m \<and> data (fft ws) = next_block s \<and> data (fft_copy ws) = Suc (next_block s) \<and>
         mem s' = mem s \<and> stdout s' = stdout s \<and> next_block s < next_block s' \<and>
         (m = LINEAR \<longrightarrow> h_res ws = hs + (hk + 1) div 2 \<and> w_res ws = wsrc + (wk + 1) div 2) \<and>
         (m = CIRCULAR \<longrightarrow> h_res ws = hs + hk \<and> w_res ws = wsrc + wk) \<and>
         (m = CIRCULAR_OPTIMAL \<longrightarrow> hs + hk \<le> h_res ws \<and> wsrc + wk \<le> w_res ws)"
proof -
  from working_size_recognized [OF assms(1-5), of ws0]
  obtain h w where hw: "working_size_ideal ws0 m hs wsrc hk wk = Some (h, w)"
    "m = LINEAR \<longrightarrow> h = hs + (hk + 1) div 2 \<and> w = wsrc + (wk + 1) div 2"
    "m = LINEAR_OPTIMAL \<longrightarrow> hs + (hk + 1) div 2 \<le> h \<and> wsrc + (wk + 1) div 2 \<le> w"
    "m = CIRCULAR \<longrightarrow> h = hs + hk \<and> w = wsrc + wk"
    "m = CIRCULAR_OPTIMAL \<longrightarrow> hs + hk \<le> h \<and> wsrc + wk \<le> w"
    by blast
  have half: "(hk + 1) div 2 \<le> hk" "(wk + 1) div 2 \<le> wk" using assms(3,4) by simp_all
  from assms(5) consider "m = LINEAR" | "m = LINEAR_OPTIMAL" | "m = CIRCULAR"
    | "m = CIRCULAR_OPTIMAL" by blast
  then have ge: "hs + (hk + 1) div 2 \<le> h \<and> wsrc + (wk + 1) div 2 \<le> w"
  proof cases
    case 1
    with hw(2) show ?thesis by simp
  next
    case 2
    with hw(3) show ?thesis by simp
  next
    case 3
    with hw(4) half show ?thesis by linarith
  next
    case 4
    with hw(5) half show ?thesis by linarith
  qed
  from init_workspace_fields [OF hw(1), of s] assms(6)
  have f: "h_src ws = hs" "w_src ws = wsrc" "h_kernel ws = hk" "w_kernel ws = wk"
    "h_res ws = h" "w_res ws = w" "mode ws = m"
    "fft ws = \<lparr>size1 = h, size2 = 2 * w, tda = 2 * w, data = next_block s\<rparr>"
    "fft_copy ws = \<lparr>size1 = h, size2 = 2 * w, tda = 2 * w, data = Suc (next_block s)\<rparr>"
    "mem s' = mem s" "stdout s' = stdout s" "next_block s < next_block s'"
    by auto
  have "workspace_ok ws" using f(1-9) ge assms(1-4) by (simp add: workspace_ok_def)
  then show ?thesis using f hw(2,4,5) by simp
qed

section \<open>Packing and extraction\<close>

lemma store_loop2:
  assumes body: "\<And>i j s. lo1 \<le> i \<Longrightarrow> i < hi1 \<Longrightarrow> lo2 \<le> j \<Longrightarrow> j < hi2 \<Longrightarrow>
      (\<forall>b a. b \<noteq> B \<longrightarrow> load s b a = load s0 b a) \<Longrightarrow> body i j s = store B (addr i j) (val i j) s"
  shows "(\<forall>b a. b \<noteq> B \<or> (\<forall>i j. lo1 \<le> i \<and> i < hi1 \<and> lo2 \<le> j \<and> j < hi2 \<longrightarrow> a \<noteq> addr i j) \<longrightarrow>
            load (for_loop lo1 hi1 (\<lambda>i. for_loop lo2 hi2 (body i)) s0) b a = load s0 b a) \<and>
         (\<forall>i j. lo1 \<le> i \<and> i < hi1 \<and> lo2 \<le> j \<and> j < hi2 \<and>
            (\<forall>i' j'. lo1 \<le> i' \<and> i' < hi1 \<and> lo2 \<le> j' \<and> j' < hi2 \<and>
               (i < i' \<or> (i = i' \<and> j < j')) \<longrightarrow> addr i' j' \<noteq> addr i j) \<longrightarrow>
            load (for_loop lo1 hi1 (\<lambda>i. for_loop lo2 hi2 (body i)) s0) B (addr i j) = val i j)"
proof -
  let ?res = "for_loop lo1 hi1 (\<lambda>i. for_loop lo2 hi2 (body i)) s0"
  have eff: "(\<forall>b a. b \<noteq> B \<or> a \<notin> {addr i j} \<longrightarrow> load (body i j s) b a = load s b a) \<and>
      (\<forall>a\<in>{addr i j}. load (body i j s) B a = val i j)"
    if "lo1 \<le> i" "i < hi1" "lo2 \<le> j" "j < hi2" "\<forall>b a. b \<noteq> B \<longrightarrow> load s b a = load s0 b a"
    for i j s
    using body [OF that] by simp
  from for_loop2_effect [of lo1 hi1 lo2 hi2 B s0 "\<lambda>i j. {addr i j}" body "\<lambda>i j a v. v = val i j", OF eff]
  have r1: "\<And>b a. b \<noteq> B \<or> (\<forall>i j. lo1 \<le> i \<and> i < hi1 \<and> lo2 \<le> j \<and> j < hi2 \<longrightarrow> a \<notin> {addr i j}) \<Longrightarrow>
        load ?res b a = load s0 b a"
    and r2: "\<And>i j a. lo1 \<le> i \<and> i < hi1 \<and> lo2 \<le> j \<and> j < hi2 \<and> a \<in> {addr i j} \<and>
        (\<forall>i' j'. lo1 \<le> i' \<and> i' < hi1 \<and> lo2 \<le> j' \<and> j' < hi2 \<and> (i < i' \<or> (i = i' \<and> j < j'))
            \<longrightarrow> a \<notin> {addr i' j'}) \<Longrightarrow> load ?res B a = val i j"
    by blast+
  show ?thesis
  proof (intro conjI allI impI)
    fix b a
    assume "b \<noteq> B \<or> (\<forall>i j. lo1 \<le> i \<and> i < hi1 \<and> lo2 \<le> j \<and> j < hi2 \<longrightarrow> a \<noteq> addr i j)"
    then have "b \<noteq> B \<or> (\<forall>i j. lo1 \<le> i \<and> i < hi1 \<and> lo2 \<le> j \<and> j < hi2 \<longrightarrow> a \<notin> {addr i j})"
      by simp
    then show "load ?res b a = load s0 b a" by (rule r1)
  next
    fix i j
    assume h: "lo1 \<le> i \<and> i < hi1 \<and> lo2 \<le> j \<and> j < hi2 \<and>
            (\<forall>i' j'. lo1 \<le> i' \<and> i' < hi1 \<and> lo2 \<le> j' \<and> j' < hi2 \<and>
               (i < i' \<or> (i = i' \<and> j < j')) \<longrightarrow> addr i' j' \<noteq> addr i j)"
    show "load ?res B (addr i j) = val i j"
    proof (rule r2 [of i j "addr i j"], intro conjI)
      show "\<forall>i' j'. lo1 \<le> i' \<and> i' < hi1 \<and> lo2 \<le> j' \<and> j' < hi2 \<and> (i < i' \<or> (i = i' \<and> j < j'))
            \<longrightarrow> addr i j \<notin> {addr i' j'}"
        using h by (simp add: eq_commute [of "addr i j"])
    qed (use h in simp_all)
  qed
qed

lemma kernel_wrap_range:
  assumes "0 < k" "k div 2 \<le> n" "k - k div 2 \<le> n" "0 \<le> m" "m < k"
  shows "0 \<le> kernel_wrap k n m" "kernel_wrap k n m < n"
  using assms by (simp_all add: kernel_wrap_def Let_def)

lemma kernel_wrap_last:
  assumes "0 < k" "0 < n" "0 \<le> m" "m < k" "kernel_wrap k n m = a"
  shows "kernel_hit k n a" "m \<le> kernel_index k n a"
  using assms by (auto simp: kernel_wrap_def kernel_hit_def kernel_index_def Let_def split: if_splits)

lemma kernel_index_wrap:
  assumes "0 < k" "0 \<le> a" "a < n" "kernel_hit k n a"
  shows "0 \<le> kernel_index k n a" "kernel_index k n a < k"
    "kernel_wrap k n (kernel_index k n a) = a"
proof -
  have c: "k div 2 < k" "0 \<le> k div 2" using assms(1) by simp_all
  show "0 \<le> kernel_index k n a" using assms c by (auto simp: kernel_hit_def kernel_index_def)
  show "kernel_index k n a < k" using assms c by (auto simp: kernel_hit_def kernel_index_def)
  show "kernel_wrap k n (kernel_index k n a) = a"
    using assms c by (auto simp: kernel_hit_def kernel_index_def kernel_wrap_def Let_def)
qed

lemma set_zero_effect:
  assumes "tda m = size2 m" "0 < size2 m"
  shows "(\<forall>b a. b \<noteq> data m \<or> (\<forall>i j. 0 \<le> i \<and> i < size1 m \<and> 0 \<le> j \<and> j < size2 m \<longrightarrow> a \<noteq> i * size2 m + j) \<longrightarrow>
            load (gsl_matrix_set_zero m s) b a = load s b a) \<and>
         (\<forall>i j. 0 \<le> i \<and> i < size1 m \<and> 0 \<le> j \<and> j < size2 m \<longrightarrow>
            load (gsl_matrix_set_zero m s) (data m) (i * size2 m + j) = 0)"
proof -
  define body where "body i j = store (data m) (i * size2 m + j) 0" for i j
  have sz: "gsl_matrix_set_zero m s = for_loop 0 (size1 m) (\<lambda>i. for_loop 0 (size2 m) (body i)) s"
    unfolding gsl_matrix_set_zero_def body_def assms(1) by (rule refl)
  have b: "body i j t = store (data m) (i * size2 m + j) 0 t" for i j t by (simp add: body_def)
  from store_loop2 [of 0 "size1 m" 0 "size2 m" "data m" s body "\<lambda>i j. i * size2 m + j" "\<lambda>i j. 0", OF b,
      folded sz]
  have r1: "\<And>b a. b \<noteq> data m \<or> (\<forall>i j. 0 \<le> i \<and> i < size1 m \<and> 0 \<le> j \<and> j < size2 m \<longrightarrow> a \<noteq> i * size2 m + j) \<Longrightarrow>
        load (gsl_matrix_set_zero m s) b a = load s b a"
    and r2: "\<And>i j. 0 \<le> i \<and> i < size1 m \<and> 0 \<le> j \<and> j < size2 m \<and>
        (\<forall>i' j'. 0 \<le> i' \<and> i' < size1 m \<and> 0 \<le> j' \<and> j' < size2 m \<and> (i < i' \<or> (i = i' \<and> j < j'))
            \<longrightarrow> i' * size2 m + j' \<noteq> i * size2 m + j) \<Longrightarrow>
        load (gsl_matrix_set_zero m s) (data m) (i * size2 m + j) = 0"
    by blast+
  show ?thesis
  proof (intro conjI allI impI)
    fix b a
    assume "b \<noteq> data m \<or> (\<forall>i j. 0 \<le> i \<and> i < size1 m \<and> 0 \<le> j \<and> j < size2 m \<longrightarrow> a \<noteq> i * size2 m + j)"
    then show "load (gsl_matrix_set_zero m s) b a = load s b a" by (rule r1)
  next
    fix i j
    assume ij: "0 \<le> i \<and> i < size1 m \<and> 0 \<le> j \<and> j < size2 m"
    show "load (gsl_matrix_set_zero m s) (data m) (i * size2 m + j) = 0"
    proof (rule r2, intro conjI allI impI)
      fix i' j'
      assume h: "0 \<le> i' \<and> i' < size1 m \<and> 0 \<le> j' \<and> j' < size2 m \<and> (i < i' \<or> (i = i' \<and> j < j'))"
      show "i' * size2 m + j' \<noteq> i * size2 m + j"
        using flat_unique [of j' "size2 m" j i' i] h ij by auto
    qed (use ij in simp_all)
  qed
qed



lemma pack_kernel_effect:
  assumes K: "data kern \<noteq> data (fft ws)"
    and pos: "0 < h_kernel ws" "0 < w_kernel ws" "0 < h_res ws" "0 < w_res ws"
    and fit: "h_kernel ws div 2 \<le> h_res ws" "h_kernel ws - h_kernel ws div 2 \<le> h_res ws"
      "w_kernel ws div 2 \<le> w_res ws" "w_kernel ws - w_kernel ws div 2 \<le> w_res ws"
  shows "(\<forall>b a. b \<noteq> data (fft ws) \<or>
            (\<forall>i j. 0 \<le> i \<and> i < h_kernel ws \<and> 0 \<le> j \<and> j < w_kernel ws \<longrightarrow>
               a \<noteq> kernel_wrap (h_kernel ws) (h_res ws) i * 2 * w_res ws
                     + 2 * kernel_wrap (w_kernel ws) (w_res ws) j + 1) \<longrightarrow>
            load (pack_kernel_ideal ws kern s) b a = load s b a) \<and>
         (\<forall>a b. 0 \<le> a \<and> a < h_res ws \<and> 0 \<le> b \<and> b < w_res ws \<and>
            kernel_hit (h_kernel ws) (h_res ws) a \<and> kernel_hit (w_kernel ws) (w_res ws) b \<longrightarrow>
            load (pack_kernel_ideal ws kern s) (data (fft ws)) (a * 2 * w_res ws + 2 * b + 1)
              = load s (data kern) (kernel_index (h_kernel ws) (h_res ws) a * w_kernel ws
                                    + kernel_index (w_kernel ws) (w_res ws) b))"
proof -
  let ?hk = "h_kernel ws" and ?wk = "w_kernel ws" and ?H = "h_res ws" and ?W = "w_res ws"
  let ?F = "data (fft ws)"
  define addr where "addr i j = kernel_wrap ?hk ?H i * 2 * ?W + 2 * kernel_wrap ?wk ?W j + 1" for i j
  define body where "body i j t = store ?F (addr i j) (load t (data kern) (i * ?wk + j)) t" for i j t
  have pk: "pack_kernel_ideal ws kern s = for_loop 0 ?hk (\<lambda>i. for_loop 0 ?wk (body i)) s"
    unfolding pack_kernel_ideal_def body_def addr_def kernel_wrap_def Let_def by (rule refl)
  have b: "body i j t = store ?F (addr i j) (load s (data kern) (i * ?wk + j)) t"
    if "\<forall>b a. b \<noteq> ?F \<longrightarrow> load t b a = load s b a" for i j t
    using that K by (simp add: body_def)
  from store_loop2 [of 0 ?hk 0 ?wk ?F s body addr "\<lambda>i j. load s (data kern) (i * ?wk + j)", OF b, folded pk]
  have r1: "\<And>b a. b \<noteq> ?F \<or> (\<forall>i j. 0 \<le> i \<and> i < ?hk \<and> 0 \<le> j \<and> j < ?wk \<longrightarrow> a \<noteq> addr i j) \<Longrightarrow>
        load (pack_kernel_ideal ws kern s) b a = load s b a"
    and r2: "\<And>i j. 0 \<le> i \<and> i < ?hk \<and> 0 \<le> j \<and> j < ?wk \<and>
        (\<forall>i' j'. 0 \<le> i' \<and> i' < ?hk \<and> 0 \<le> j' \<and> j' < ?wk \<and> (i < i' \<or> (i = i' \<and> j < j'))
            \<longrightarrow> addr i' j' \<noteq> addr i j) \<Longrightarrow>
        load (pack_kernel_ideal ws kern s) ?F (addr i j) = load s (data kern) (i * ?wk + j)"
    by blast+
  show ?thesis
  proof (intro conjI allI impI)
    fix b a
    assume "b \<noteq> ?F \<or> (\<forall>i j. 0 \<le> i \<and> i < ?hk \<and> 0 \<le> j \<and> j < ?wk \<longrightarrow>
               a \<noteq> kernel_wrap ?hk ?H i * 2 * ?W + 2 * kernel_wrap ?wk ?W j + 1)"
    then have "b \<noteq> ?F \<or> (\<forall>i j. 0 \<le> i \<and> i < ?hk \<and> 0 \<le> j \<and> j < ?wk \<longrightarrow> a \<noteq> addr i j)"
      by (simp add: addr_def)
    then show "load (pack_kernel_ideal ws kern s) b a = load s b a" by (rule r1)
  next
    fix a b
    assume ab: "0 \<le> a \<and> a < ?H \<and> 0 \<le> b \<and> b < ?W \<and> kernel_hit ?hk ?H a \<and> kernel_hit ?wk ?W b"
    define i where "i = kernel_index ?hk ?H a"
    define j where "j = kernel_index ?wk ?W b"
    have i: "0 \<le> i" "i < ?hk" "kernel_wrap ?hk ?H i = a"
      using kernel_index_wrap [of ?hk a ?H] pos ab by (simp_all add: i_def)
    have j: "0 \<le> j" "j < ?wk" "kernel_wrap ?wk ?W j = b"
      using kernel_index_wrap [of ?wk b ?W] pos ab by (simp_all add: j_def)
    have ad: "addr i j = a * 2 * ?W + 2 * b + 1" by (simp add: addr_def i j)
    have "load (pack_kernel_ideal ws kern s) ?F (addr i j) = load s (data kern) (i * ?wk + j)"
    proof (rule r2, intro conjI allI impI)
      fix i' j'
      assume h: "0 \<le> i' \<and> i' < ?hk \<and> 0 \<le> j' \<and> j' < ?wk \<and> (i < i' \<or> (i = i' \<and> j < j'))"
      show "addr i' j' \<noteq> addr i j"
      proof
        assume eq: "addr i' j' = addr i j"
        have rj: "0 \<le> kernel_wrap ?wk ?W j'" "kernel_wrap ?wk ?W j' < ?W"
          using kernel_wrap_range [of ?wk ?W j'] pos fit h by simp_all
        have "kernel_wrap ?hk ?H i' * 2 * ?W + 2 * kernel_wrap ?wk ?W j' + 1 = a * 2 * ?W + 2 * b + 1"
          using eq ad by (simp add: addr_def)
        from cell_index_unique [OF rj _ _ _ _ _ _ this] ab
        have w: "kernel_wrap ?hk ?H i' = a" "kernel_wrap ?wk ?W j' = b" by simp_all
        have "i' \<le> i" using kernel_wrap_last(2) [of ?hk ?H i' a] pos h w by (simp add: i_def)
        moreover have "j' \<le> j" using kernel_wrap_last(2) [of ?wk ?W j' b] pos h w by (simp add: j_def)
        ultimately show False using h by auto
      qed
    qed (use i j in simp_all)
    then have "load (pack_kernel_ideal ws kern s) ?F (a * 2 * ?W + 2 * b + 1)
        = load s (data kern) (i * ?wk + j)"
      by (simp only: ad)
    then show "load (pack_kernel_ideal ws kern s) ?F (a * 2 * ?W + 2 * b + 1)
        = load s (data kern) (kernel_index ?hk ?H a * ?wk + kernel_index ?wk ?W b)"
      by (simp only: i_def j_def)
  qed
qed

section \<open>From the cyclic convolution to the convolutions of the specification\<close>

lemma pad_swap:
  fixes g :: "int \<Rightarrow> int \<Rightarrow> real"
  assumes "a \<le> n"
  shows "(\<Sum>i = 0..<n. if i < a \<and> 0 \<le> t - i \<and> t - i < k then g i (t - i) else 0)
       = (\<Sum>m = 0..<k. if 0 \<le> t - m \<and> t - m < a then g (t - m) m else 0)"
proof -
  have "(\<Sum>i = 0..<n. if i < a \<and> 0 \<le> t - i \<and> t - i < k then g i (t - i) else 0)
      = (\<Sum>i \<in> {i \<in> {0..<n}. i < a \<and> 0 \<le> t - i \<and> t - i < k}. g i (t - i))"
    by (rule sum.inter_filter [symmetric]) simp
  also have "\<dots> = (\<Sum>m \<in> {m \<in> {0..<k}. 0 \<le> t - m \<and> t - m < a}. g (t - m) m)"
    by (rule sum.reindex_bij_witness [of _ "\<lambda>m. t - m" "\<lambda>i. t - i"]) (use assms in auto)
  also have "\<dots> = (\<Sum>m = 0..<k. if 0 \<le> t - m \<and> t - m < a then g (t - m) m else 0)"
    by (rule sum.inter_filter) simp
  finally show ?thesis .
qed

lemma kernel_hit_mod:
  assumes "0 < k" "0 < n" "k - k div 2 - n \<le> d" "d < n - k div 2"
  shows "kernel_hit k n (d mod n) \<longleftrightarrow> 0 \<le> d + k div 2 \<and> d + k div 2 < k"
    and "kernel_hit k n (d mod n) \<Longrightarrow> kernel_index k n (d mod n) = d + k div 2"
proof -
  have c: "0 \<le> k div 2" "k div 2 < k" using assms(1) by simp_all
  have m: "d mod n = (if 0 \<le> d then d else d + n)"
  proof (cases "0 \<le> d")
    case True
    then show ?thesis using assms c by (simp add: mod_pos_pos_trivial)
  next
    case False
    have "(d + n) mod n = d + n" using False assms c by (intro mod_pos_pos_trivial) simp_all
    then show ?thesis using False by simp
  qed
  show "kernel_hit k n (d mod n) \<longleftrightarrow> 0 \<le> d + k div 2 \<and> d + k div 2 < k"
    unfolding m kernel_hit_def using assms c by auto
  show "kernel_hit k n (d mod n) \<Longrightarrow> kernel_index k n (d mod n) = d + k div 2"
    unfolding m kernel_hit_def kernel_index_def using assms c by auto
qed

lemma cyclic2_cong:
  fixes x y :: "int \<Rightarrow> int \<Rightarrow> real"
  assumes "0 < h" "0 < w"
    and "\<And>i j. 0 \<le> i \<Longrightarrow> i < h \<Longrightarrow> 0 \<le> j \<Longrightarrow> j < w \<Longrightarrow> x i j = x' i j"
    and "\<And>i j. 0 \<le> i \<Longrightarrow> i < h \<Longrightarrow> 0 \<le> j \<Longrightarrow> j < w \<Longrightarrow> y i j = y' i j"
  shows "cyclic2 h w x y p q = cyclic2 h w x' y' p q"
  unfolding cyclic2_def
proof (intro sum.cong refl)
  fix i j
  assume "i \<in> {0..<h}" "j \<in> {0..<w}"
  then have "x i j = x' i j" using assms(3) by simp
  moreover have "y ((p - i) mod h) ((q - j) mod w) = y' ((p - i) mod h) ((q - j) mod w)"
    using assms(1,2) by (intro assms(4)) simp_all
  ultimately show "x i j * y ((p - i) mod h) ((q - j) mod w)
      = x' i j * y' ((p - i) mod h) ((q - j) mod w)" by simp
qed

lemma cyclic2_padded:
  fixes S :: "int \<Rightarrow> int \<Rightarrow> real"
  assumes pos: "0 < hk" "0 < wk" "0 < H" "0 < W"
    and sz: "a \<le> H" "b \<le> W"
    and P: "hk - hk div 2 - H \<le> P - (a - 1)" "P < H - hk div 2"
    and Q: "wk - wk div 2 - W \<le> Q - (b - 1)" "Q < W - wk div 2"
  shows "cyclic2 H W
           (\<lambda>i j. if i < a \<and> j < b then S i j else 0)
           (\<lambda>u v. if kernel_hit hk H u \<and> kernel_hit wk W v
                   then ker (kernel_index hk H u * wk + kernel_index wk W v) else 0) P Q
         = padded_convolution a b hk wk S ker P Q"
proof -
  let ?ch = "hk div 2" and ?cw = "wk div 2"
  let ?Y = "\<lambda>u v. if kernel_hit hk H u \<and> kernel_hit wk W v
                   then ker (kernel_index hk H u * wk + kernel_index wk W v) else 0"
  define t where "t = P + ?ch"
  define t' where "t' = Q + ?cw"
  have tm: "(if i < a \<and> j < b then S i j else 0) * ?Y ((P - i) mod H) ((Q - j) mod W)
      = (if i < a \<and> 0 \<le> t - i \<and> t - i < hk
         then (if j < b \<and> 0 \<le> t' - j \<and> t' - j < wk then S i j * ker ((t - i) * wk + (t' - j)) else 0)
         else 0)"
    if ij: "i \<in> {0..<H}" "j \<in> {0..<W}" for i j
  proof (cases "i < a \<and> j < b")
    case False
    then show ?thesis by auto
  next
    case True
    have di: "hk - ?ch - H \<le> P - i" "P - i < H - ?ch" using True ij P by simp_all
    have dj: "wk - ?cw - W \<le> Q - j" "Q - j < W - ?cw" using True ij Q by simp_all
    note hi = kernel_hit_mod [OF pos(1,3) di]
    note hj = kernel_hit_mod [OF pos(2,4) dj]
    show ?thesis
    proof (cases "kernel_hit hk H ((P - i) mod H) \<and> kernel_hit wk W ((Q - j) mod W)")
      case h: True
      then have "kernel_index hk H ((P - i) mod H) = t - i" "kernel_index wk W ((Q - j) mod W) = t' - j"
        using hi(2) hj(2) by (simp_all add: t_def t'_def)
      moreover have "0 \<le> t - i \<and> t - i < hk \<and> 0 \<le> t' - j \<and> t' - j < wk"
        using h hi(1) hj(1) by (simp add: t_def t'_def algebra_simps)
      ultimately show ?thesis using True h by simp
    next
      case h: False
      then have "\<not> (0 \<le> t - i \<and> t - i < hk \<and> 0 \<le> t' - j \<and> t' - j < wk)"
        using hi(1) hj(1) by (simp add: t_def t'_def algebra_simps)
      then show ?thesis using True h by auto
    qed
  qed
  define G where "G i m = (\<Sum>j = 0..<W. if j < b \<and> 0 \<le> t' - j \<and> t' - j < wk
      then S i j * ker (m * wk + (t' - j)) else 0)" for i m
  have G: "G i m = (\<Sum>n = 0..<wk. if 0 \<le> t' - n \<and> t' - n < b then S i (t' - n) * ker (m * wk + n) else 0)"
    for i m
    unfolding G_def by (rule pad_swap [OF sz(2), of t' wk "\<lambda>j n. S i j * ker (m * wk + n)"])
  have "cyclic2 H W (\<lambda>i j. if i < a \<and> j < b then S i j else 0) ?Y P Q
      = (\<Sum>i = 0..<H. \<Sum>j = 0..<W. if i < a \<and> 0 \<le> t - i \<and> t - i < hk
         then (if j < b \<and> 0 \<le> t' - j \<and> t' - j < wk then S i j * ker ((t - i) * wk + (t' - j)) else 0)
         else 0)"
    unfolding cyclic2_def by (intro sum.cong refl) (rule tm)
  also have "\<dots> = (\<Sum>i = 0..<H. if i < a \<and> 0 \<le> t - i \<and> t - i < hk then G i (t - i) else 0)"
  proof (intro sum.cong refl)
    fix i
    show "(\<Sum>j = 0..<W. if i < a \<and> 0 \<le> t - i \<and> t - i < hk
         then (if j < b \<and> 0 \<le> t' - j \<and> t' - j < wk then S i j * ker ((t - i) * wk + (t' - j)) else 0)
         else 0) = (if i < a \<and> 0 \<le> t - i \<and> t - i < hk then G i (t - i) else 0)"
    proof (cases "i < a \<and> 0 \<le> t - i \<and> t - i < hk")
      case True
      show ?thesis by (simp only: if_P [OF True] G_def)
    next
      case False
      show ?thesis by (simp only: if_not_P [OF False] sum.neutral_const)
    qed
  qed
  also have "\<dots> = (\<Sum>m = 0..<hk. if 0 \<le> t - m \<and> t - m < a then G (t - m) m else 0)"
    by (rule pad_swap [OF sz(1)])
  also have "\<dots> = padded_convolution a b hk wk S ker P Q"
    unfolding padded_convolution_def G t_def t'_def
    by (intro sum.cong refl) (auto simp: sum_distrib_left intro!: sum.cong)
  finally show ?thesis .
qed

section \<open>The zero-padded pipeline\<close>

lemma workspace_ok_fit:
  assumes "workspace_ok ws"
  shows "h_kernel ws div 2 \<le> h_res ws" "h_kernel ws - h_kernel ws div 2 \<le> h_res ws"
    "w_kernel ws div 2 \<le> w_res ws" "w_kernel ws - w_kernel ws div 2 \<le> w_res ws"
proof -
  from assms have a: "0 < h_src ws" "0 < w_src ws" "0 < h_kernel ws" "0 < w_kernel ws"
    "h_src ws + (h_kernel ws + 1) div 2 \<le> h_res ws"
    "w_src ws + (w_kernel ws + 1) div 2 \<le> w_res ws"
    by (simp_all add: workspace_ok_def)
  have h: "h_kernel ws - h_kernel ws div 2 = (h_kernel ws + 1) div 2" by linarith
  have w: "w_kernel ws - w_kernel ws div 2 = (w_kernel ws + 1) div 2" by linarith
  have h': "h_kernel ws div 2 \<le> (h_kernel ws + 1) div 2" by linarith
  have w': "w_kernel ws div 2 \<le> (w_kernel ws + 1) div 2" by linarith
  show "h_kernel ws div 2 \<le> h_res ws" using a(1,5) h' by linarith
  show "h_kernel ws - h_kernel ws div 2 \<le> h_res ws" using a(1,5) h by linarith
  show "w_kernel ws div 2 \<le> w_res ws" using a(2,6) w' by linarith
  show "w_kernel ws - w_kernel ws div 2 \<le> w_res ws" using a(2,6) w by linarith
qed

lemma kernel_cells:
  assumes ok: "workspace_ok ws" and K: "data kern \<noteq> data (fft ws)"
    and ab: "0 \<le> a" "a < h_res ws" "0 \<le> b" "b < w_res ws"
  shows "load (pack_kernel_ideal ws kern s) (data (fft ws)) (a * 2 * w_res ws + 2 * b)
           = load s (data (fft ws)) (a * 2 * w_res ws + 2 * b)"
    and "load (pack_kernel_ideal ws kern s) (data (fft ws)) (a * 2 * w_res ws + 2 * b + 1)
           = (if kernel_hit (h_kernel ws) (h_res ws) a \<and> kernel_hit (w_kernel ws) (w_res ws) b
              then load s (data kern) (kernel_index (h_kernel ws) (h_res ws) a * w_kernel ws
                                       + kernel_index (w_kernel ws) (w_res ws) b)
              else load s (data (fft ws)) (a * 2 * w_res ws + 2 * b + 1))"
proof -
  let ?hk = "h_kernel ws" and ?wk = "w_kernel ws" and ?H = "h_res ws" and ?W = "w_res ws"
  have pos: "0 < ?hk" "0 < ?wk" using ok by (simp_all add: workspace_ok_def)
  note hw = workspace_ok_pos(1,2) [OF ok]
  note fit = workspace_ok_fit [OF ok]
  from pack_kernel_effect [OF K pos hw fit, of s]
  have r1: "\<And>b a. b \<noteq> data (fft ws) \<or>
            (\<forall>i j. 0 \<le> i \<and> i < ?hk \<and> 0 \<le> j \<and> j < ?wk \<longrightarrow>
               a \<noteq> kernel_wrap ?hk ?H i * 2 * ?W + 2 * kernel_wrap ?wk ?W j + 1) \<Longrightarrow>
            load (pack_kernel_ideal ws kern s) b a = load s b a"
    and r2: "\<And>a b. 0 \<le> a \<and> a < ?H \<and> 0 \<le> b \<and> b < ?W \<and> kernel_hit ?hk ?H a \<and> kernel_hit ?wk ?W b \<Longrightarrow>
            load (pack_kernel_ideal ws kern s) (data (fft ws)) (a * 2 * ?W + 2 * b + 1)
              = load s (data kern) (kernel_index ?hk ?H a * ?wk + kernel_index ?wk ?W b)"
    by blast+
  have rng: "0 \<le> kernel_wrap ?wk ?W j \<and> kernel_wrap ?wk ?W j < ?W" if "0 \<le> j \<and> j < ?wk" for j
    using kernel_wrap_range [of ?wk ?W j] pos fit that by simp
  show "load (pack_kernel_ideal ws kern s) (data (fft ws)) (a * 2 * ?W + 2 * b)
           = load s (data (fft ws)) (a * 2 * ?W + 2 * b)"
  proof (rule r1, rule disjI2, intro allI impI)
    fix i j
    assume "0 \<le> i \<and> i < ?hk \<and> 0 \<le> j \<and> j < ?wk"
    then show "a * 2 * ?W + 2 * b \<noteq> kernel_wrap ?hk ?H i * 2 * ?W + 2 * kernel_wrap ?wk ?W j + 1"
      using rng [of j] ab by simp
  qed
  show "load (pack_kernel_ideal ws kern s) (data (fft ws)) (a * 2 * ?W + 2 * b + 1)
           = (if kernel_hit ?hk ?H a \<and> kernel_hit ?wk ?W b
              then load s (data kern) (kernel_index ?hk ?H a * ?wk + kernel_index ?wk ?W b)
              else load s (data (fft ws)) (a * 2 * ?W + 2 * b + 1))"
  proof (cases "kernel_hit ?hk ?H a \<and> kernel_hit ?wk ?W b")
    case True
    then show ?thesis using r2 [of a b] ab by simp
  next
    case False
    have "load (pack_kernel_ideal ws kern s) (data (fft ws)) (a * 2 * ?W + 2 * b + 1)
        = load s (data (fft ws)) (a * 2 * ?W + 2 * b + 1)"
    proof (rule r1, rule disjI2, intro allI impI notI)
      fix i j
      assume ij: "0 \<le> i \<and> i < ?hk \<and> 0 \<le> j \<and> j < ?wk"
        and eq: "a * 2 * ?W + 2 * b + 1 = kernel_wrap ?hk ?H i * 2 * ?W + 2 * kernel_wrap ?wk ?W j + 1"
      from eq rng [of j] ij ab have "kernel_wrap ?hk ?H i = a" "kernel_wrap ?wk ?W j = b"
        by simp_all
      then have "kernel_hit ?hk ?H a" "kernel_hit ?wk ?W b"
        using kernel_wrap_last(1) [of ?hk ?H i a] kernel_wrap_last(1) [of ?wk ?W j b] pos hw ij
        by simp_all
      with False show False by simp
    qed
    then show ?thesis by (simp only: if_not_P [OF False])
  qed
qed

lemma zero_cells:
  assumes ok: "workspace_ok ws" and ij: "0 \<le> i" "i < h_res ws" "0 \<le> j" "j < w_res ws"
  shows "load (gsl_matrix_set_zero (fft ws) s) (data (fft ws)) (i * 2 * w_res ws + 2 * j) = 0"
    and "load (gsl_matrix_set_zero (fft ws) s) (data (fft ws)) (i * 2 * w_res ws + 2 * j + 1) = 0"
proof -
  have sz: "tda (fft ws) = size2 (fft ws)" "size2 (fft ws) = 2 * w_res ws" "size1 (fft ws) = h_res ws"
    using ok by (simp_all add: workspace_ok_def)
  have W: "0 < size2 (fft ws)" using workspace_ok_pos(2) [OF ok] sz by simp
  from set_zero_effect [OF sz(1) W, of s]
  have z: "\<And>i j. 0 \<le> i \<and> i < h_res ws \<and> 0 \<le> j \<and> j < 2 * w_res ws \<Longrightarrow>
      load (gsl_matrix_set_zero (fft ws) s) (data (fft ws)) (i * (2 * w_res ws) + j) = 0"
    unfolding sz by blast
  show "load (gsl_matrix_set_zero (fft ws) s) (data (fft ws)) (i * 2 * w_res ws + 2 * j) = 0"
    using z [of i "2 * j"] ij by (simp add: mult.assoc)
  show "load (gsl_matrix_set_zero (fft ws) s) (data (fft ws)) (i * 2 * w_res ws + 2 * j + 1) = 0"
    using z [of i "2 * j + 1"] ij by (simp add: mult.assoc add.assoc)
qed

lemma zero_other:
  assumes ok: "workspace_ok ws" and "b \<noteq> data (fft ws)"
  shows "load (gsl_matrix_set_zero (fft ws) s) b a = load s b a"
proof -
  have sz: "tda (fft ws) = size2 (fft ws)" "size2 (fft ws) = 2 * w_res ws"
    using ok by (simp_all add: workspace_ok_def)
  have W: "0 < size2 (fft ws)" using workspace_ok_pos(2) [OF ok] sz by simp
  from set_zero_effect [OF sz(1) W, of s] assms(2) show ?thesis by blast
qed



lemma kernel_other:
  assumes ok: "workspace_ok ws" and K: "data kern \<noteq> data (fft ws)" and "b \<noteq> data (fft ws)"
  shows "load (pack_kernel_ideal ws kern s) b a = load s b a"
proof -
  have pos: "0 < h_kernel ws" "0 < w_kernel ws" using ok by (simp_all add: workspace_ok_def)
  from pack_kernel_effect [OF K pos workspace_ok_pos(1,2) [OF ok] workspace_ok_fit [OF ok], of s] assms(3)
  show ?thesis by blast
qed


lemma padded_pipeline_result:
  fixes s3 :: machine and S :: "int \<Rightarrow> int \<Rightarrow> real"
  assumes ok: "workspace_ok ws"
    and re: "\<And>i j. 0 \<le> i \<Longrightarrow> i < h_res ws \<Longrightarrow> 0 \<le> j \<Longrightarrow> j < w_res ws \<Longrightarrow>
        load s3 (data (fft ws)) (i * 2 * w_res ws + 2 * j) = (if i < a \<and> j < b then S i j else 0)"
    and im: "\<And>i j. 0 \<le> i \<Longrightarrow> i < h_res ws \<Longrightarrow> 0 \<le> j \<Longrightarrow> j < w_res ws \<Longrightarrow>
        load s3 (data (fft ws)) (i * 2 * w_res ws + 2 * j + 1)
          = (if kernel_hit (h_kernel ws) (h_res ws) i \<and> kernel_hit (w_kernel ws) (w_res ws) j
             then ker (kernel_index (h_kernel ws) (h_res ws) i * w_kernel ws
                       + kernel_index (w_kernel ws) (w_res ws) j)
             else 0)"
    and sz: "a \<le> h_res ws" "b \<le> w_res ws"
    and P: "0 \<le> P" "h_kernel ws - h_kernel ws div 2 - h_res ws \<le> P - (a - 1)"
      "P < h_res ws - h_kernel ws div 2"
    and Q: "0 \<le> Q" "w_kernel ws - w_kernel ws div 2 - w_res ws \<le> Q - (b - 1)"
      "Q < w_res ws - w_kernel ws div 2"
  shows "load (inverse_transform_ideal (\<lambda>x. x) ws (spectral_product_ideal (\<lambda>x. x) ws (forward_transform_ideal (\<lambda>x. x) ws s3)))
           (data (fft_copy ws)) (P * 2 * w_res ws + 2 * Q)
         = padded_convolution a b (h_kernel ws) (w_kernel ws) S ker P Q"
proof -
  let ?H = "h_res ws" and ?W = "w_res ws" and ?hk = "h_kernel ws" and ?wk = "w_kernel ws"
  note hw = workspace_ok_pos(1,2) [OF ok]
  have pos: "0 < ?hk" "0 < ?wk" and FC: "data (fft ws) \<noteq> data (fft_copy ws)"
    using ok by (simp_all add: workspace_ok_def)
  have c: "0 \<le> ?hk div 2" "0 \<le> ?wk div 2" using pos by simp_all
  have "P < ?H" "Q < ?W" using P(3) Q(3) c by linarith+
  then have PQ: "0 \<le> P \<and> P < ?H \<and> 0 \<le> Q \<and> Q < ?W" using P(1) Q(1) by simp
  from pipeline_effect [OF hw FC, of s3] PQ
  have "load (inverse_transform_ideal (\<lambda>x. x) ws (spectral_product_ideal (\<lambda>x. x) ws (forward_transform_ideal (\<lambda>x. x) ws s3)))
           (data (fft_copy ws)) (P * 2 * ?W + 2 * Q)
      = cyclic2 ?H ?W (\<lambda>i j. load s3 (data (fft ws)) (i * 2 * ?W + 2 * j))
          (\<lambda>i j. load s3 (data (fft ws)) (i * 2 * ?W + 2 * j + 1)) P Q"
    by blast
  also have "\<dots> = cyclic2 ?H ?W (\<lambda>i j. if i < a \<and> j < b then S i j else 0)
      (\<lambda>u v. if kernel_hit ?hk ?H u \<and> kernel_hit ?wk ?W v
              then ker (kernel_index ?hk ?H u * ?wk + kernel_index ?wk ?W v) else 0) P Q"
    by (rule cyclic2_cong [OF hw]) (simp_all add: re im)
  also have "\<dots> = padded_convolution a b ?hk ?wk S ker P Q"
    by (rule cyclic2_padded [OF pos hw sz P(2,3) Q(2,3)])
  finally show ?thesis .
qed

lemma direct_is_padded:
  "direct_convolution hs wsrc hk wk src ker p q
     = padded_convolution hs wsrc hk wk (\<lambda>i j. src (i * wsrc + j)) ker p q"
proof -
  have e: "p - (m - hk div 2) = p + hk div 2 - m" "q - (n - wk div 2) = q + wk div 2 - n" for m n
    by simp_all
  show ?thesis
    unfolding direct_convolution_def padded_convolution_def Let_def e by (rule refl)
qed



lemma is_product_member: "n \<in> set fs \<Longrightarrow> is_product n fs"
  by (subst is_product.simps) simp

lemma not_is_product_11: "\<not> is_product 11 [7, 6, 5, 4, 3, 2]"
  by (subst is_product.simps) simp

lemma is_product_12: "is_product 12 [7, 6, 5, 4, 3, 2]"
proof -
  have "is_product 2 [7, 6, 5, 4, 3, 2]" by (rule is_product_member) simp
  then show ?thesis by (subst is_product.simps) simp
qed

lemma find_closest_factor_11: "find_closest_factor 11 GSL_FACTORS = Some 12"
proof -
  have "scan_from [7, 6, 5, 4, 3, 2] 12 = Some 12"
    by (subst scan_from.simps) (simp add: is_product_12)
  then have "scan_from [7, 6, 5, 4, 3, 2] 11 = Some 12"
    by (subst scan_from.simps) (simp add: not_is_product_11)
  then show ?thesis by (simp add: find_closest_factor_def takeWhile_GSL_FACTORS)
qed

lemma find_closest_factor_member:
  assumes "n \<in> set [7, 6, 5, 4, 3, 2]"
  shows "find_closest_factor n GSL_FACTORS = Some n"
proof -
  have "scan_from [7, 6, 5, 4, 3, 2] n = Some n"
    by (subst scan_from.simps) (simp add: is_product_member [OF assms])
  then show ?thesis by (simp add: find_closest_factor_def takeWhile_GSL_FACTORS)
qed

lemma init_linear_10: "\<exists>wl sl. init_workspace_ideal workspace0 LINEAR 10 1 1 1 machine0 = Some (wl, sl) \<and> h_res wl = 11"
  by (simp add: init_workspace_ideal_def working_size_ideal_def gsl_matrix_alloc_def alloc_def mode_defs)

lemma init_linear_optimal_10:
  "\<exists>wo so. init_workspace_ideal workspace0 LINEAR_OPTIMAL 10 1 1 1 machine0 = Some (wo, so) \<and> h_res wo = 12"
  by (simp add: init_workspace_ideal_def working_size_ideal_def gsl_matrix_alloc_def alloc_def mode_defs
      find_closest_factor_11 find_closest_factor_member)

section \<open>The circular modes\<close>

lemma real_channel_loop:
  assumes body: "\<And>i j t. 0 \<le> i \<Longrightarrow> i < a' \<Longrightarrow> 0 \<le> j \<Longrightarrow> j < b' \<Longrightarrow>
      (\<forall>b a. b \<noteq> F \<longrightarrow> load t b a = load s b a) \<Longrightarrow>
      body i j t = store F (i * 2 * W + 2 * j) (val i j) t"
    and W: "b' \<le> W"
  shows "(\<forall>b a. b \<noteq> F \<or> (\<forall>i j. 0 \<le> i \<and> i < a' \<and> 0 \<le> j \<and> j < b' \<longrightarrow> a \<noteq> i * 2 * W + 2 * j) \<longrightarrow>
            load (for_loop 0 a' (\<lambda>i. for_loop 0 b' (body i)) s) b a = load s b a) \<and>
         (\<forall>i j. 0 \<le> i \<and> i < a' \<and> 0 \<le> j \<and> j < b' \<longrightarrow>
            load (for_loop 0 a' (\<lambda>i. for_loop 0 b' (body i)) s) F (i * 2 * W + 2 * j) = val i j)"
proof -
  let ?res = "for_loop 0 a' (\<lambda>i. for_loop 0 b' (body i)) s"
  from store_loop2 [of 0 a' 0 b' F s body "\<lambda>i j. i * 2 * W + 2 * j" val, OF body]
  have r1: "\<And>b a. b \<noteq> F \<or> (\<forall>i j. 0 \<le> i \<and> i < a' \<and> 0 \<le> j \<and> j < b' \<longrightarrow> a \<noteq> i * 2 * W + 2 * j) \<Longrightarrow>
        load ?res b a = load s b a"
    and r2: "\<And>i j. 0 \<le> i \<and> i < a' \<and> 0 \<le> j \<and> j < b' \<and>
        (\<forall>i' j'. 0 \<le> i' \<and> i' < a' \<and> 0 \<le> j' \<and> j' < b' \<and> (i < i' \<or> (i = i' \<and> j < j'))
            \<longrightarrow> i' * 2 * W + 2 * j' \<noteq> i * 2 * W + 2 * j) \<Longrightarrow>
        load ?res F (i * 2 * W + 2 * j) = val i j"
    by blast+
  show ?thesis
  proof (intro conjI allI impI)
    fix b a
    assume "b \<noteq> F \<or> (\<forall>i j. 0 \<le> i \<and> i < a' \<and> 0 \<le> j \<and> j < b' \<longrightarrow> a \<noteq> i * 2 * W + 2 * j)"
    then show "load ?res b a = load s b a" by (rule r1)
  next
    fix i j
    assume ij: "0 \<le> i \<and> i < a' \<and> 0 \<le> j \<and> j < b'"
    show "load ?res F (i * 2 * W + 2 * j) = val i j"
    proof (rule r2, intro conjI allI impI)
      fix i' j'
      assume h: "0 \<le> i' \<and> i' < a' \<and> 0 \<le> j' \<and> j' < b' \<and> (i < i' \<or> (i = i' \<and> j < j'))"
      have "j' < W" "j < W" using h ij W by simp_all
      then show "i' * 2 * W + 2 * j' \<noteq> i * 2 * W + 2 * j"
        using cell_index_unique [of j' W j 0 0 i' i] h ij by auto
    qed (use ij in simp_all)
  qed
qed

lemma real_channel_cells:
  assumes eff: "(\<forall>b a. b \<noteq> F \<or> (\<forall>i j. 0 \<le> i \<and> i < a' \<and> 0 \<le> j \<and> j < b' \<longrightarrow> a \<noteq> i * 2 * W + 2 * j) \<longrightarrow>
            load t b a = load s b a) \<and>
         (\<forall>i j. 0 \<le> i \<and> i < a' \<and> 0 \<le> j \<and> j < b' \<longrightarrow> load t F (i * 2 * W + 2 * j) = val i j)"
    and W: "b' \<le> W" and ij: "0 \<le> i" "0 \<le> j" "j < W"
  shows "load t F (i * 2 * W + 2 * j) = (if i < a' \<and> j < b' then val i j else load s F (i * 2 * W + 2 * j))"
    and "load t F (i * 2 * W + 2 * j + 1) = load s F (i * 2 * W + 2 * j + 1)"
proof -
  from eff
  have r1: "\<And>b a. b \<noteq> F \<or> (\<forall>i j. 0 \<le> i \<and> i < a' \<and> 0 \<le> j \<and> j < b' \<longrightarrow> a \<noteq> i * 2 * W + 2 * j) \<Longrightarrow>
            load t b a = load s b a"
    and r2: "\<And>i j. 0 \<le> i \<and> i < a' \<and> 0 \<le> j \<and> j < b' \<Longrightarrow> load t F (i * 2 * W + 2 * j) = val i j"
    by blast+
  show "load t F (i * 2 * W + 2 * j) = (if i < a' \<and> j < b' then val i j else load s F (i * 2 * W + 2 * j))"
  proof (cases "i < a' \<and> j < b'")
    case True
    then show ?thesis using r2 [of i j] ij by simp
  next
    case False
    have "load t F (i * 2 * W + 2 * j) = load s F (i * 2 * W + 2 * j)"
    proof (rule r1, rule disjI2, intro allI impI notI)
      fix i' j'
      assume h: "0 \<le> i' \<and> i' < a' \<and> 0 \<le> j' \<and> j' < b'"
        and eq: "i * 2 * W + 2 * j = i' * 2 * W + 2 * j'"
      have "j' < W" using h W by simp
      with eq h ij have "i = i' \<and> j = j'" by simp
      with h False show False by simp
    qed
    then show ?thesis by (simp only: if_not_P [OF False])
  qed
  show "load t F (i * 2 * W + 2 * j + 1) = load s F (i * 2 * W + 2 * j + 1)"
  proof (rule r1, rule disjI2, intro allI impI)
    fix i' j'
    assume h: "0 \<le> i' \<and> i' < a' \<and> 0 \<le> j' \<and> j' < b'"
    then have "j' < W" using W by simp
    then show "i * 2 * W + 2 * j + 1 \<noteq> i' * 2 * W + 2 * j'"
      using h ij by simp
  qed
qed

lemma pack_source_wrapped_effect:
  assumes F: "data src \<noteq> data (fft ws)" and W: "w_src ws + w_kernel ws \<le> w_res ws"
  shows "(\<forall>b a. b \<noteq> data (fft ws) \<or>
            (\<forall>i j. 0 \<le> i \<and> i < h_src ws + h_kernel ws \<and> 0 \<le> j \<and> j < w_src ws + w_kernel ws \<longrightarrow>
               a \<noteq> i * 2 * w_res ws + 2 * j) \<longrightarrow>
            load (pack_source_wrapped_ideal ws src s) b a = load s b a) \<and>
         (\<forall>i j. 0 \<le> i \<and> i < h_src ws + h_kernel ws \<and> 0 \<le> j \<and> j < w_src ws + w_kernel ws \<longrightarrow>
            load (pack_source_wrapped_ideal ws src s) (data (fft ws)) (i * 2 * w_res ws + 2 * j)
              = load s (data src) (wrap_index_ideal i (h_kernel ws) (h_src ws) * w_src ws
                                   + wrap_index_ideal j (w_kernel ws) (w_src ws)))"
proof -
  define body where "body i j t = store (data (fft ws)) (i * 2 * w_res ws + 2 * j)
      (load t (data src) (wrap_index_ideal i (h_kernel ws) (h_src ws) * w_src ws
                          + wrap_index_ideal j (w_kernel ws) (w_src ws))) t" for i j t
  have ps: "pack_source_wrapped_ideal ws src s
      = for_loop 0 (h_src ws + h_kernel ws) (\<lambda>i. for_loop 0 (w_src ws + w_kernel ws) (body i)) s"
    unfolding pack_source_wrapped_ideal_def body_def Let_def by (rule refl)
  have b: "body i j t = store (data (fft ws)) (i * 2 * w_res ws + 2 * j)
      (load s (data src) (wrap_index_ideal i (h_kernel ws) (h_src ws) * w_src ws
                          + wrap_index_ideal j (w_kernel ws) (w_src ws))) t"
    if "\<forall>b a. b \<noteq> data (fft ws) \<longrightarrow> load t b a = load s b a" for i j t
    using that F by (simp add: body_def)
  show ?thesis unfolding ps by (rule real_channel_loop [OF b W])
qed

lemma extract_central_effect:
  assumes C: "data (fft_copy ws) \<noteq> data dst" and W: "0 < w_src ws"
  shows "(\<forall>b a. b \<noteq> data dst \<or>
            (\<forall>i j. 0 \<le> i \<and> i < h_src ws \<and> 0 \<le> j \<and> j < w_src ws \<longrightarrow> a \<noteq> i * w_src ws + j) \<longrightarrow>
            load (extract_central_ideal ws dst s) b a = load s b a) \<and>
         (\<forall>i j. 0 \<le> i \<and> i < h_src ws \<and> 0 \<le> j \<and> j < w_src ws \<longrightarrow>
            load (extract_central_ideal ws dst s) (data dst) (i * w_src ws + j)
              = load s (data (fft_copy ws))
                  ((i + (h_kernel ws + 1) sdiv 2) * 2 * w_res ws + 2 * ((w_kernel ws + 1) sdiv 2 + j)))"
proof -
  define val where "val i j = load s (data (fft_copy ws))
      ((i + (h_kernel ws + 1) sdiv 2) * 2 * w_res ws + 2 * ((w_kernel ws + 1) sdiv 2 + j))" for i j
  define body where "body i j t = store (data dst) (i * w_src ws + j)
      (load t (data (fft_copy ws))
         ((i + (h_kernel ws + 1) sdiv 2) * 2 * w_res ws + 2 * ((w_kernel ws + 1) sdiv 2 + j))) t" for i j t
  have ps: "extract_central_ideal ws dst s = for_loop 0 (h_src ws) (\<lambda>i. for_loop 0 (w_src ws) (body i)) s"
    unfolding extract_central_ideal_def body_def by (rule refl)
  have b: "body i j t = store (data dst) (i * w_src ws + j) (val i j) t"
    if "\<forall>b a. b \<noteq> data dst \<longrightarrow> load t b a = load s b a" for i j t
    using that C by (simp add: body_def val_def)
  from store_loop2 [of 0 "h_src ws" 0 "w_src ws" "data dst" s body "\<lambda>i j. i * w_src ws + j" val, OF b, folded ps]
  have r1: "\<And>b a. b \<noteq> data dst \<or>
        (\<forall>i j. 0 \<le> i \<and> i < h_src ws \<and> 0 \<le> j \<and> j < w_src ws \<longrightarrow> a \<noteq> i * w_src ws + j) \<Longrightarrow>
        load (extract_central_ideal ws dst s) b a = load s b a"
    and r2: "\<And>i j. 0 \<le> i \<and> i < h_src ws \<and> 0 \<le> j \<and> j < w_src ws \<and>
        (\<forall>i' j'. 0 \<le> i' \<and> i' < h_src ws \<and> 0 \<le> j' \<and> j' < w_src ws \<and> (i < i' \<or> (i = i' \<and> j < j'))
            \<longrightarrow> i' * w_src ws + j' \<noteq> i * w_src ws + j) \<Longrightarrow>
        load (extract_central_ideal ws dst s) (data dst) (i * w_src ws + j) = val i j"
    by blast+
  show ?thesis
    unfolding val_def [symmetric]
  proof (intro conjI allI impI)
    fix b a
    assume "b \<noteq> data dst \<or>
        (\<forall>i j. 0 \<le> i \<and> i < h_src ws \<and> 0 \<le> j \<and> j < w_src ws \<longrightarrow> a \<noteq> i * w_src ws + j)"
    then show "load (extract_central_ideal ws dst s) b a = load s b a" by (rule r1)
  next
    fix i j
    assume ij: "0 \<le> i \<and> i < h_src ws \<and> 0 \<le> j \<and> j < w_src ws"
    show "load (extract_central_ideal ws dst s) (data dst) (i * w_src ws + j) = val i j"
    proof (rule r2, intro conjI allI impI)
      fix i' j'
      assume h: "0 \<le> i' \<and> i' < h_src ws \<and> 0 \<le> j' \<and> j' < w_src ws \<and> (i < i' \<or> (i = i' \<and> j < j'))"
      show "i' * w_src ws + j' \<noteq> i * w_src ws + j"
        using flat_unique [of j' "w_src ws" j i' i] h ij by auto
    qed (use ij in simp_all)
  qed
qed

lemma wrapped_packing:
  fixes s0 :: machine
  assumes ok: "workspace_ok ws" and S: "data src \<noteq> data (fft ws)" and K: "data kern \<noteq> data (fft ws)"
    and W: "w_src ws + w_kernel ws \<le> w_res ws"
    and ij: "0 \<le> i" "i < h_res ws" "0 \<le> j" "j < w_res ws"
  defines "s3 \<equiv> pack_kernel_ideal ws kern (pack_source_wrapped_ideal ws src (gsl_matrix_set_zero (fft ws) s0))"
  shows "load s3 (data (fft ws)) (i * 2 * w_res ws + 2 * j)
           = (if i < h_src ws + h_kernel ws \<and> j < w_src ws + w_kernel ws
              then load s0 (data src) (wrap_index_ideal i (h_kernel ws) (h_src ws) * w_src ws
                                       + wrap_index_ideal j (w_kernel ws) (w_src ws))
              else 0)"
    and "load s3 (data (fft ws)) (i * 2 * w_res ws + 2 * j + 1)
           = (if kernel_hit (h_kernel ws) (h_res ws) i \<and> kernel_hit (w_kernel ws) (w_res ws) j
              then load s0 (data kern) (kernel_index (h_kernel ws) (h_res ws) i * w_kernel ws
                                        + kernel_index (w_kernel ws) (w_res ws) j)
              else 0)"
proof -
  define s1 where "s1 = gsl_matrix_set_zero (fft ws) s0"
  define s2 where "s2 = pack_source_wrapped_ideal ws src s1"
  have s3: "s3 = pack_kernel_ideal ws kern s2" by (simp add: s3_def s2_def s1_def)
  note eff = pack_source_wrapped_effect [OF S W, of s1, folded s2_def]
  have src1: "load s1 (data src) a = load s0 (data src) a" for a
    unfolding s1_def by (rule zero_other [OF ok S])
  have other2: "load s2 b a = load s1 b a" if "b \<noteq> data (fft ws)" for b a
    using eff that by blast
  have kern2: "load s2 (data kern) a = load s0 (data kern) a" for a
    using other2 [OF K] zero_other [OF ok K] by (simp add: s1_def)
  have "load s3 (data (fft ws)) (i * 2 * w_res ws + 2 * j)
      = load s2 (data (fft ws)) (i * 2 * w_res ws + 2 * j)"
    unfolding s3 by (rule kernel_cells(1) [OF ok K ij])
  also have "\<dots> = (if i < h_src ws + h_kernel ws \<and> j < w_src ws + w_kernel ws
              then load s1 (data src) (wrap_index_ideal i (h_kernel ws) (h_src ws) * w_src ws
                                       + wrap_index_ideal j (w_kernel ws) (w_src ws))
              else load s1 (data (fft ws)) (i * 2 * w_res ws + 2 * j))"
    by (rule real_channel_cells(1) [OF eff W ij(1,3,4)])
  also have "\<dots> = (if i < h_src ws + h_kernel ws \<and> j < w_src ws + w_kernel ws
              then load s0 (data src) (wrap_index_ideal i (h_kernel ws) (h_src ws) * w_src ws
                                       + wrap_index_ideal j (w_kernel ws) (w_src ws))
              else 0)"
    using zero_cells(1) [OF ok ij, of s0, folded s1_def] by (simp add: src1)
  finally show "load s3 (data (fft ws)) (i * 2 * w_res ws + 2 * j)
           = (if i < h_src ws + h_kernel ws \<and> j < w_src ws + w_kernel ws
              then load s0 (data src) (wrap_index_ideal i (h_kernel ws) (h_src ws) * w_src ws
                                       + wrap_index_ideal j (w_kernel ws) (w_src ws))
              else 0)" .
  have "load s2 (data (fft ws)) (i * 2 * w_res ws + 2 * j + 1)
      = load s1 (data (fft ws)) (i * 2 * w_res ws + 2 * j + 1)"
    by (rule real_channel_cells(2) [OF eff W ij(1,3,4)])
  then have "load s2 (data (fft ws)) (i * 2 * w_res ws + 2 * j + 1) = 0"
    using zero_cells(2) [OF ok ij, of s0, folded s1_def] by simp
  then show "load s3 (data (fft ws)) (i * 2 * w_res ws + 2 * j + 1)
           = (if kernel_hit (h_kernel ws) (h_res ws) i \<and> kernel_hit (w_kernel ws) (w_res ws) j
              then load s0 (data kern) (kernel_index (h_kernel ws) (h_res ws) i * w_kernel ws
                                        + kernel_index (w_kernel ws) (w_res ws) j)
              else 0)"
    unfolding s3 using kernel_cells(2) [OF ok K ij, of s2] by (simp add: kern2)
qed

lemma wrapped_is_padded:
  assumes pos: "0 < hk" "0 < wk" and pq: "0 \<le> p" "p < hs" "0 \<le> q" "q < wsrc"
  shows "padded_convolution (hs + hk) (wsrc + wk) hk wk
           (\<lambda>i j. src (wrap_index_ideal i hk hs * wsrc + wrap_index_ideal j wk wsrc)) ker
           (p + (hk + 1) div 2) (q + (wk + 1) div 2)
         = wrapped_convolution hs wsrc hk wk src ker p q"
  unfolding padded_convolution_def wrapped_convolution_def
proof (intro sum.cong refl)
  fix m n
  assume mn: "m \<in> {0..<hk}" "n \<in> {0..<wk}"
  have e: "p + (hk + 1) div 2 + hk div 2 - m = p + hk - m"
    "q + (wk + 1) div 2 + wk div 2 - n = q + wk - n"
    by linarith+
  have g: "0 \<le> p + hk - m \<and> p + hk - m < hs + hk \<and> 0 \<le> q + wk - n \<and> q + wk - n < wsrc + wk"
    using mn pq by simp
  show "ker (m * wk + n) *
        (if 0 \<le> p + (hk + 1) div 2 + hk div 2 - m \<and> p + (hk + 1) div 2 + hk div 2 - m < hs + hk \<and>
            0 \<le> q + (wk + 1) div 2 + wk div 2 - n \<and> q + (wk + 1) div 2 + wk div 2 - n < wsrc + wk
         then src (wrap_index_ideal (p + (hk + 1) div 2 + hk div 2 - m) hk hs * wsrc
                   + wrap_index_ideal (q + (wk + 1) div 2 + wk div 2 - n) wk wsrc) else 0)
      = ker (m * wk + n) * src (wrap_index_ideal (p + hk - m) hk hs * wsrc + wrap_index_ideal (q + wk - n) wk wsrc)"
    unfolding e by (simp only: if_P [OF g])
qed

lemma wrapped_result:
  assumes ok: "workspace_ok ws" and S: "data src \<noteq> data (fft ws)" and K: "data kern \<noteq> data (fft ws)"
    and D: "data (fft_copy ws) \<noteq> data dst"
    and fit: "h_src ws + h_kernel ws \<le> h_res ws" "w_src ws + w_kernel ws \<le> w_res ws"
    and pq: "0 \<le> p" "p < h_src ws" "0 \<le> q" "q < w_src ws"
  shows "load (extract_central_ideal ws dst (inverse_transform_ideal (\<lambda>x. x) ws (spectral_product_ideal (\<lambda>x. x) ws (forward_transform_ideal (\<lambda>x. x) ws
            (pack_kernel_ideal ws kern (pack_source_wrapped_ideal ws src (gsl_matrix_set_zero (fft ws) s0)))))))
           (data dst) (p * w_src ws + q)
         = wrapped_convolution (h_src ws) (w_src ws) (h_kernel ws) (w_kernel ws)
             (load s0 (data src)) (load s0 (data kern)) p q"
proof -
  let ?s3 = "pack_kernel_ideal ws kern (pack_source_wrapped_ideal ws src (gsl_matrix_set_zero (fft ws) s0))"
  let ?s6 = "inverse_transform_ideal (\<lambda>x. x) ws (spectral_product_ideal (\<lambda>x. x) ws (forward_transform_ideal (\<lambda>x. x) ws ?s3))"
  let ?P = "p + (h_kernel ws + 1) div 2" and ?Q = "q + (w_kernel ws + 1) div 2"
  from ok have a: "0 < h_src ws" "0 < w_src ws" "0 < h_kernel ws" "0 < w_kernel ws"
    by (simp_all add: workspace_ok_def)
  have sd: "(h_kernel ws + 1) sdiv 2 = (h_kernel ws + 1) div 2"
    "(w_kernel ws + 1) sdiv 2 = (w_kernel ws + 1) div 2"
    using a by simp_all
  have P: "0 \<le> ?P" "h_kernel ws - h_kernel ws div 2 - h_res ws \<le> ?P - (h_src ws + h_kernel ws - 1)"
      "?P < h_res ws - h_kernel ws div 2"
    using a(3) fit(1) pq(1,2) by linarith+
  have Q: "0 \<le> ?Q" "w_kernel ws - w_kernel ws div 2 - w_res ws \<le> ?Q - (w_src ws + w_kernel ws - 1)"
      "?Q < w_res ws - w_kernel ws div 2"
    using a(4) fit(2) pq(3,4) by linarith+
  from extract_central_effect [OF D a(2), of ?s6] pq
  have "load (extract_central_ideal ws dst ?s6) (data dst) (p * w_src ws + q)
      = load ?s6 (data (fft_copy ws))
          ((p + (h_kernel ws + 1) sdiv 2) * 2 * w_res ws + 2 * ((w_kernel ws + 1) sdiv 2 + q))"
    by blast
  also have "\<dots> = load ?s6 (data (fft_copy ws)) (?P * 2 * w_res ws + 2 * ?Q)"
    unfolding sd by (simp only: add.commute [of _ q])
  also have "\<dots> = padded_convolution (h_src ws + h_kernel ws) (w_src ws + w_kernel ws)
      (h_kernel ws) (w_kernel ws)
      (\<lambda>i j. load s0 (data src) (wrap_index_ideal i (h_kernel ws) (h_src ws) * w_src ws
                                 + wrap_index_ideal j (w_kernel ws) (w_src ws)))
      (load s0 (data kern)) ?P ?Q"
    by (rule padded_pipeline_result [OF ok wrapped_packing(1) [OF ok S K fit(2)]
          wrapped_packing(2) [OF ok S K fit(2)] fit P Q])
  also have "\<dots> = wrapped_convolution (h_src ws) (w_src ws) (h_kernel ws) (w_kernel ws)
             (load s0 (data src)) (load s0 (data kern)) p q"
    by (rule wrapped_is_padded [OF a(3,4) pq])
  finally show ?thesis .
qed

lemma wrap_index_mod:
  assumes "0 < sdim" "0 < kdim" "(kdim + 1) div 2 \<le> sdim" "0 \<le> i" "i < sdim + kdim"
  shows "wrap_index_ideal i kdim sdim = (i - (kdim + 1) div 2) mod sdim"
proof -
  let ?c = "(kdim + 1) div 2"
  have sd: "(kdim + 1) sdiv 2 = ?c" using assms(2) by simp
  have k: "kdim - ?c \<le> ?c" by linarith
  consider "i - ?c < 0" | "0 \<le> i - ?c" "i - ?c < sdim" | "sdim \<le> i - ?c" by linarith
  then show ?thesis
  proof cases
    case 1
    have "(i - ?c) mod sdim = (i - ?c + sdim) mod sdim" by simp
    also have "\<dots> = i - ?c + sdim" using 1 assms by (intro mod_pos_pos_trivial) linarith+
    finally show ?thesis using 1 by (simp add: wrap_index_ideal_def sd Let_def)
  next
    case 2
    then show ?thesis by (simp add: wrap_index_ideal_def sd Let_def)
  next
    case 3
    have "(i - ?c) mod sdim = (i - ?c - sdim) mod sdim" by simp
    also have "\<dots> = i - ?c - sdim" using 3 assms k by (intro mod_pos_pos_trivial) linarith+
    finally show ?thesis using 3 assms(1) by (simp add: wrap_index_ideal_def sd Let_def)
  qed
qed

lemma wrapped_is_periodic:
  assumes pos: "0 < hs" "0 < wsrc" "0 < hk" "0 < wk"
    and pre: "(hk + 1) div 2 \<le> hs" "(wk + 1) div 2 \<le> wsrc"
    and pq: "0 \<le> p" "p < hs" "0 \<le> q" "q < wsrc"
  shows "wrapped_convolution hs wsrc hk wk src ker p q = periodic_convolution hs wsrc hk wk src ker p q"
  unfolding wrapped_convolution_def periodic_convolution_def
proof (intro sum.cong refl)
  fix m n
  assume mn: "m \<in> {0..<hk}" "n \<in> {0..<wk}"
  have e: "p + hk - m - (hk + 1) div 2 = p - (m - hk div 2)"
    "q + wk - n - (wk + 1) div 2 = q - (n - wk div 2)"
    by linarith+
  have "wrap_index_ideal (p + hk - m) hk hs = (p - (m - hk div 2)) mod hs"
    using wrap_index_mod [OF pos(1,3) pre(1), of "p + hk - m"] mn pq by (simp only: e) simp
  moreover have "wrap_index_ideal (q + wk - n) wk wsrc = (q - (n - wk div 2)) mod wsrc"
    using wrap_index_mod [OF pos(2,4) pre(2), of "q + wk - n"] mn pq by (simp only: e) simp
  ultimately show "ker (m * wk + n) * src (wrap_index_ideal (p + hk - m) hk hs * wsrc + wrap_index_ideal (q + wk - n) wk wsrc)
      = ker (m * wk + n) * src ((p - (m - hk div 2)) mod hs * wsrc + (q - (n - wk div 2)) mod wsrc)"
    by simp
qed

lemma for_loop_cong:
  assumes "\<And>i s. lo \<le> i \<Longrightarrow> i < hi \<Longrightarrow> f i s = g i s"
  shows "for_loop lo hi f s = for_loop lo hi g s"
  using assms
proof (induction lo hi f s rule: for_loop.induct)
  case (1 i n body s)
  show ?case
  proof (cases "i < n")
    case True
    have "for_loop (i + 1) n body (body i s) = for_loop (i + 1) n g (body i s)"
      by (rule "1.IH" [OF True]) (use "1.prems" in simp)
    then show ?thesis using True "1.prems" [of i s] by (simp add: for_loop_step)
  next
    case False
    then show ?thesis by simp
  qed
qed

lemma for_loop_split:
  assumes "lo \<le> m" "m \<le> hi"
  shows "for_loop m hi f (for_loop lo m f s) = for_loop lo hi f s"
  using assms
proof (induction lo m f s rule: for_loop.induct)
  case (1 i n body s)
  show ?case
  proof (cases "i < n")
    case True
    have "for_loop n hi body (for_loop (i + 1) n body (body i s)) = for_loop (i + 1) hi body (body i s)"
      by (rule "1.IH" [OF True]) (use True "1.prems" in simp_all)
    moreover have "i < hi" using True "1.prems" by simp
    ultimately show ?thesis using True by (simp add: for_loop_step)
  next
    case False
    then have "i = n" using "1.prems" by simp
    then show ?thesis by simp
  qed
qed

lemma store_loop1:
  assumes body: "\<And>i s. lo \<le> i \<Longrightarrow> i < hi \<Longrightarrow>
      (\<forall>b a. b \<noteq> B \<longrightarrow> load s b a = load s0 b a) \<Longrightarrow> body i s = store B (addr i) (val i) s"
  shows "(\<forall>b a. b \<noteq> B \<or> (\<forall>i. lo \<le> i \<and> i < hi \<longrightarrow> a \<noteq> addr i) \<longrightarrow>
            load (for_loop lo hi body s0) b a = load s0 b a) \<and>
         (\<forall>i. lo \<le> i \<and> i < hi \<and> (\<forall>i'. i < i' \<and> i' < hi \<longrightarrow> addr i' \<noteq> addr i) \<longrightarrow>
            load (for_loop lo hi body s0) B (addr i) = val i)"
proof -
  let ?res = "for_loop lo hi body s0"
  have eff: "(\<forall>b a. b \<noteq> B \<or> a \<notin> {addr i} \<longrightarrow> load (body i s) b a = load s b a) \<and>
      (\<forall>a\<in>{addr i}. load (body i s) B a = val i)"
    if "lo \<le> i" "i < hi"
      "\<forall>b a. b \<noteq> B \<or> (\<forall>i'. lo \<le> i' \<and> i' < i \<longrightarrow> a \<notin> {addr i'}) \<longrightarrow> load s b a = load s0 b a"
    for i s
  proof -
    from that(3) have "\<forall>b a. b \<noteq> B \<longrightarrow> load s b a = load s0 b a" by blast
    from body [OF that(1,2) this] show ?thesis by simp
  qed
  from for_loop_effect [of lo hi B "\<lambda>i. {addr i}" s0 body "\<lambda>i a v. v = val i", OF eff]
  have r1: "\<And>b a. b \<noteq> B \<or> (\<forall>i. lo \<le> i \<and> i < hi \<longrightarrow> a \<notin> {addr i}) \<Longrightarrow> load ?res b a = load s0 b a"
    and r2: "\<And>i a. lo \<le> i \<and> i < hi \<and> a \<in> {addr i} \<and> (\<forall>i'. i < i' \<and> i' < hi \<longrightarrow> a \<notin> {addr i'}) \<Longrightarrow>
        load ?res B a = val i"
    by blast+
  show ?thesis
  proof (intro conjI allI impI)
    fix b a
    assume "b \<noteq> B \<or> (\<forall>i. lo \<le> i \<and> i < hi \<longrightarrow> a \<noteq> addr i)"
    then have "b \<noteq> B \<or> (\<forall>i. lo \<le> i \<and> i < hi \<longrightarrow> a \<notin> {addr i})" by simp
    then show "load ?res b a = load s0 b a" by (rule r1)
  next
    fix i
    assume h: "lo \<le> i \<and> i < hi \<and> (\<forall>i'. i < i' \<and> i' < hi \<longrightarrow> addr i' \<noteq> addr i)"
    show "load ?res B (addr i) = val i"
    proof (rule r2, intro conjI)
      show "\<forall>i'. i < i' \<and> i' < hi \<longrightarrow> addr i \<notin> {addr i'}"
        using h by (simp add: eq_commute [of "addr i"])
    qed (use h in simp_all)
  qed
qed

lemma vector_memcpy_effect:
  assumes sz: "size_v dest = size_v src" and B: "data_v src \<noteq> data_v dest" and st: "stride_v dest \<noteq> 0"
  shows "(\<forall>b a. b \<noteq> data_v dest \<or>
            (\<forall>r. 0 \<le> r \<and> r < size_v src \<longrightarrow> a \<noteq> offset_v dest + stride_v dest * r) \<longrightarrow>
            load (gsl_vector_memcpy dest src s) b a = load s b a) \<and>
         (\<forall>r. 0 \<le> r \<and> r < size_v src \<longrightarrow>
            load (gsl_vector_memcpy dest src s) (data_v dest) (offset_v dest + stride_v dest * r)
              = load s (data_v src) (offset_v src + stride_v src * r))"
proof -
  define body where "body j t = store (data_v dest) (offset_v dest + stride_v dest * j)
      (load t (data_v src) (offset_v src + stride_v src * j)) t" for j t
  have mc: "gsl_vector_memcpy dest src s = for_loop 0 (size_v src) body s"
    unfolding gsl_vector_memcpy_def body_def using sz by simp
  have b: "body j t = store (data_v dest) (offset_v dest + stride_v dest * j)
      (load s (data_v src) (offset_v src + stride_v src * j)) t"
    if "\<forall>b a. b \<noteq> data_v dest \<longrightarrow> load t b a = load s b a" for j t
    using that B by (simp add: body_def)
  from store_loop1 [of 0 "size_v src" "data_v dest" s body "\<lambda>j. offset_v dest + stride_v dest * j"
      "\<lambda>j. load s (data_v src) (offset_v src + stride_v src * j)", OF b, folded mc]
  have r1: "\<And>b a. b \<noteq> data_v dest \<or>
        (\<forall>r. 0 \<le> r \<and> r < size_v src \<longrightarrow> a \<noteq> offset_v dest + stride_v dest * r) \<Longrightarrow>
        load (gsl_vector_memcpy dest src s) b a = load s b a"
    and r2: "\<And>r. 0 \<le> r \<and> r < size_v src \<and>
        (\<forall>r'. r < r' \<and> r' < size_v src \<longrightarrow>
           offset_v dest + stride_v dest * r' \<noteq> offset_v dest + stride_v dest * r) \<Longrightarrow>
        load (gsl_vector_memcpy dest src s) (data_v dest) (offset_v dest + stride_v dest * r)
          = load s (data_v src) (offset_v src + stride_v src * r)"
    by blast+
  show ?thesis
  proof (intro conjI allI impI)
    fix b a
    assume "b \<noteq> data_v dest \<or>
        (\<forall>r. 0 \<le> r \<and> r < size_v src \<longrightarrow> a \<noteq> offset_v dest + stride_v dest * r)"
    then show "load (gsl_vector_memcpy dest src s) b a = load s b a" by (rule r1)
  next
    fix r
    assume h: "0 \<le> r \<and> r < size_v src"
    show "load (gsl_vector_memcpy dest src s) (data_v dest) (offset_v dest + stride_v dest * r)
              = load s (data_v src) (offset_v src + stride_v src * r)"
      by (rule r2) (use h st in simp)
  qed
qed

lemma pack_source_columns_effect:
  assumes F: "data src \<noteq> data (fft ws)" and W: "w_src ws \<le> w_res ws"
    and sv: "size1 src = h_src ws" "tda src = w_src ws" and tF: "tda (fft ws) = 2 * w_res ws"
  shows "(\<forall>b a. b \<noteq> data (fft ws) \<or>
            (\<forall>i j. 0 \<le> i \<and> i < h_src ws \<and> 0 \<le> j \<and> j < w_src ws \<longrightarrow> a \<noteq> i * 2 * w_res ws + 2 * j) \<longrightarrow>
            load (pack_source_columns_ideal ws src s) b a = load s b a) \<and>
         (\<forall>i j. 0 \<le> i \<and> i < h_src ws \<and> 0 \<le> j \<and> j < w_src ws \<longrightarrow>
            load (pack_source_columns_ideal ws src s) (data (fft ws)) (i * 2 * w_res ws + 2 * j)
              = load s (data src) (i * w_src ws + j))"
proof -
  define body where "body i j t = store (data (fft ws)) (0 * tda (fft ws) + 2 * i + tda (fft ws) * j)
      (load t (data src) (i + tda src * j)) t" for i j t
  have ps: "pack_source_columns_ideal ws src s = for_loop 0 (w_src ws) (\<lambda>i. for_loop 0 (h_src ws) (body i)) s"
    unfolding pack_source_columns_ideal_def gsl_vector_memcpy_def gsl_matrix_subcolumn_def
      gsl_matrix_column_def body_def Let_def
    by (simp add: sv(1))
  have b: "body i j t = store (data (fft ws)) (j * 2 * w_res ws + 2 * i) (load s (data src) (j * w_src ws + i)) t"
    if "\<forall>b a. b \<noteq> data (fft ws) \<longrightarrow> load t b a = load s b a" for i j t
    using that F by (simp add: body_def tF sv(2) mult_ac add_ac)
  from store_loop2 [of 0 "w_src ws" 0 "h_src ws" "data (fft ws)" s body
      "\<lambda>i j. j * 2 * w_res ws + 2 * i" "\<lambda>i j. load s (data src) (j * w_src ws + i)", OF b, folded ps]
  have r1: "\<And>b a. b \<noteq> data (fft ws) \<or>
        (\<forall>i j. 0 \<le> i \<and> i < w_src ws \<and> 0 \<le> j \<and> j < h_src ws \<longrightarrow> a \<noteq> j * 2 * w_res ws + 2 * i) \<Longrightarrow>
        load (pack_source_columns_ideal ws src s) b a = load s b a"
    and r2: "\<And>i j. 0 \<le> i \<and> i < w_src ws \<and> 0 \<le> j \<and> j < h_src ws \<and>
        (\<forall>i' j'. 0 \<le> i' \<and> i' < w_src ws \<and> 0 \<le> j' \<and> j' < h_src ws \<and> (i < i' \<or> (i = i' \<and> j < j'))
            \<longrightarrow> j' * 2 * w_res ws + 2 * i' \<noteq> j * 2 * w_res ws + 2 * i) \<Longrightarrow>
        load (pack_source_columns_ideal ws src s) (data (fft ws)) (j * 2 * w_res ws + 2 * i)
          = load s (data src) (j * w_src ws + i)"
    by blast+
  show ?thesis
  proof (intro conjI allI impI)
    fix b a
    assume "b \<noteq> data (fft ws) \<or>
        (\<forall>i j. 0 \<le> i \<and> i < h_src ws \<and> 0 \<le> j \<and> j < w_src ws \<longrightarrow> a \<noteq> i * 2 * w_res ws + 2 * j)"
    then have "b \<noteq> data (fft ws) \<or>
        (\<forall>i j. 0 \<le> i \<and> i < w_src ws \<and> 0 \<le> j \<and> j < h_src ws \<longrightarrow> a \<noteq> j * 2 * w_res ws + 2 * i)"
      by blast
    then show "load (pack_source_columns_ideal ws src s) b a = load s b a" by (rule r1)
  next
    fix i j
    assume ij: "0 \<le> i \<and> i < h_src ws \<and> 0 \<le> j \<and> j < w_src ws"
    show "load (pack_source_columns_ideal ws src s) (data (fft ws)) (i * 2 * w_res ws + 2 * j)
        = load s (data src) (i * w_src ws + j)"
    proof (rule r2, intro conjI allI impI)
      fix i' j'
      assume h: "0 \<le> i' \<and> i' < w_src ws \<and> 0 \<le> j' \<and> j' < h_src ws \<and> (j < i' \<or> (j = i' \<and> i < j'))"
      have "i' < w_res ws" "j < w_res ws" using h ij W by simp_all
      then show "j' * 2 * w_res ws + 2 * i' \<noteq> i * 2 * w_res ws + 2 * j"
        using cell_index_unique [of i' "w_res ws" j 0 0 j' i] h ij by auto
    qed (use ij in simp_all)
  qed
qed

lemma extract_columns_effect:
  assumes C: "data (fft_copy ws) \<noteq> data dst" and W: "0 < w_src ws"
    and dv: "size1 dst = h_src ws" "tda dst = w_src ws" and tC: "tda (fft_copy ws) = 2 * w_res ws"
  shows "(\<forall>b a. b \<noteq> data dst \<or>
            (\<forall>i j. 0 \<le> i \<and> i < h_src ws \<and> 0 \<le> j \<and> j < w_src ws \<longrightarrow> a \<noteq> i * w_src ws + j) \<longrightarrow>
            load (extract_columns_ideal ws dst s) b a = load s b a) \<and>
         (\<forall>i j. 0 \<le> i \<and> i < h_src ws \<and> 0 \<le> j \<and> j < w_src ws \<longrightarrow>
            load (extract_columns_ideal ws dst s) (data dst) (i * w_src ws + j)
              = load s (data (fft_copy ws)) (i * 2 * w_res ws + 2 * j))"
proof -
  define body where "body i j t = store (data dst) (j * tda dst + i)
      (load t (data (fft_copy ws)) (0 * tda (fft_copy ws) + 2 * i + tda (fft_copy ws) * j)) t" for i j t
  have ps: "extract_columns_ideal ws dst s = for_loop 0 (w_src ws) (\<lambda>i. for_loop 0 (h_src ws) (body i)) s"
    unfolding extract_columns_ideal_def gsl_matrix_set_col_def gsl_matrix_subcolumn_def body_def Let_def
    by (simp add: dv(1))
  have b: "body i j t = store (data dst) (j * w_src ws + i)
      (load s (data (fft_copy ws)) (j * 2 * w_res ws + 2 * i)) t"
    if "\<forall>b a. b \<noteq> data dst \<longrightarrow> load t b a = load s b a" for i j t
    using that C by (simp add: body_def tC dv(2) mult_ac add_ac)
  from store_loop2 [of 0 "w_src ws" 0 "h_src ws" "data dst" s body
      "\<lambda>i j. j * w_src ws + i" "\<lambda>i j. load s (data (fft_copy ws)) (j * 2 * w_res ws + 2 * i)", OF b, folded ps]
  have r1: "\<And>b a. b \<noteq> data dst \<or>
        (\<forall>i j. 0 \<le> i \<and> i < w_src ws \<and> 0 \<le> j \<and> j < h_src ws \<longrightarrow> a \<noteq> j * w_src ws + i) \<Longrightarrow>
        load (extract_columns_ideal ws dst s) b a = load s b a"
    and r2: "\<And>i j. 0 \<le> i \<and> i < w_src ws \<and> 0 \<le> j \<and> j < h_src ws \<and>
        (\<forall>i' j'. 0 \<le> i' \<and> i' < w_src ws \<and> 0 \<le> j' \<and> j' < h_src ws \<and> (i < i' \<or> (i = i' \<and> j < j'))
            \<longrightarrow> j' * w_src ws + i' \<noteq> j * w_src ws + i) \<Longrightarrow>
        load (extract_columns_ideal ws dst s) (data dst) (j * w_src ws + i)
          = load s (data (fft_copy ws)) (j * 2 * w_res ws + 2 * i)"
    by blast+
  show ?thesis
  proof (intro conjI allI impI)
    fix b a
    assume "b \<noteq> data dst \<or>
        (\<forall>i j. 0 \<le> i \<and> i < h_src ws \<and> 0 \<le> j \<and> j < w_src ws \<longrightarrow> a \<noteq> i * w_src ws + j)"
    then have "b \<noteq> data dst \<or>
        (\<forall>i j. 0 \<le> i \<and> i < w_src ws \<and> 0 \<le> j \<and> j < h_src ws \<longrightarrow> a \<noteq> j * w_src ws + i)"
      by blast
    then show "load (extract_columns_ideal ws dst s) b a = load s b a" by (rule r1)
  next
    fix i j
    assume ij: "0 \<le> i \<and> i < h_src ws \<and> 0 \<le> j \<and> j < w_src ws"
    show "load (extract_columns_ideal ws dst s) (data dst) (i * w_src ws + j)
        = load s (data (fft_copy ws)) (i * 2 * w_res ws + 2 * j)"
    proof (rule r2, intro conjI allI impI)
      fix i' j'
      assume h: "0 \<le> i' \<and> i' < w_src ws \<and> 0 \<le> j' \<and> j' < h_src ws \<and> (j < i' \<or> (j = i' \<and> i < j'))"
      show "j' * w_src ws + i' \<noteq> i * w_src ws + j"
        using flat_unique [of i' "w_src ws" j j' i] h ij by auto
    qed (use ij in simp_all)
  qed
qed

lemma kernel_column_effect:
  fixes s :: machine and col i :: int
  assumes K: "data kern \<noteq> data (fft ws)" and tF: "tda (fft ws) = 2 * w_res ws"
    and tK: "tda kern = w_kernel ws" and pos: "0 < h_kernel ws" "0 < w_res ws"
    and fit: "h_kernel ws \<le> h_res ws"
  defines "t \<equiv> gsl_vector_memcpy
      (gsl_matrix_subcolumn (fft ws) col 0 ((h_kernel ws + 1) sdiv 2))
      (gsl_matrix_subcolumn kern i (h_kernel ws sdiv 2) ((h_kernel ws + 1) sdiv 2))
      (gsl_vector_memcpy
        (gsl_matrix_subcolumn (fft ws) col (h_res ws - h_kernel ws sdiv 2) (h_kernel ws sdiv 2))
        (gsl_matrix_subcolumn kern i 0 (h_kernel ws sdiv 2)) s)"
  shows "(\<forall>b a. b \<noteq> data (fft ws) \<or>
            (\<forall>m. 0 \<le> m \<and> m < h_kernel ws \<longrightarrow> a \<noteq> kernel_wrap (h_kernel ws) (h_res ws) m * 2 * w_res ws + col) \<longrightarrow>
            load t b a = load s b a) \<and>
         (\<forall>m. 0 \<le> m \<and> m < h_kernel ws \<longrightarrow>
            load t (data (fft ws)) (kernel_wrap (h_kernel ws) (h_res ws) m * 2 * w_res ws + col)
              = load s (data kern) (m * w_kernel ws + i))"
proof -
  let ?hk = "h_kernel ws" and ?H = "h_res ws" and ?W = "w_res ws" and ?wk = "w_kernel ws"
  let ?F = "data (fft ws)"
  define c where "c = ?hk div 2"
  define e where "e = (?hk + 1) div 2"
  have sd: "?hk sdiv 2 = c" "(?hk + 1) sdiv 2 = e" using pos(1) by (simp_all add: c_def e_def)
  have ce: "c + e = ?hk" "0 \<le> c" "0 \<le> e" unfolding c_def e_def using pos(1) by linarith+
  define xa where "xa = gsl_matrix_subcolumn (fft ws) col (?H - c) c"
  define ya where "ya = gsl_matrix_subcolumn kern i 0 c"
  define xb where "xb = gsl_matrix_subcolumn (fft ws) col 0 e"
  define yb where "yb = gsl_matrix_subcolumn kern i c e"
  define s' where "s' = gsl_vector_memcpy xa ya s"
  have t: "t = gsl_vector_memcpy xb yb s'"
    unfolding t_def sd s'_def xa_def ya_def xb_def yb_def by (rule refl)
  have va: "size_v xa = c" "size_v ya = c" "data_v xa = ?F" "data_v ya = data kern"
    "stride_v xa = 2 * ?W" "stride_v ya = ?wk" "offset_v xa = (?H - c) * (2 * ?W) + col" "offset_v ya = i"
    by (simp_all add: xa_def ya_def gsl_matrix_subcolumn_def tF tK)
  have vb: "size_v xb = e" "size_v yb = e" "data_v xb = ?F" "data_v yb = data kern"
    "stride_v xb = 2 * ?W" "stride_v yb = ?wk" "offset_v xb = col" "offset_v yb = c * ?wk + i"
    by (simp_all add: xb_def yb_def gsl_matrix_subcolumn_def tF tK)
  have st: "2 * ?W \<noteq> 0" using pos(2) by simp
  from vector_memcpy_effect [of xa ya s, folded s'_def] K st
  have a1: "\<And>b a. b \<noteq> ?F \<or> (\<forall>r. 0 \<le> r \<and> r < c \<longrightarrow> a \<noteq> (?H - c) * (2 * ?W) + col + 2 * ?W * r) \<Longrightarrow>
        load s' b a = load s b a"
    and a2: "\<And>r. 0 \<le> r \<and> r < c \<Longrightarrow>
        load s' ?F ((?H - c) * (2 * ?W) + col + 2 * ?W * r) = load s (data kern) (i + ?wk * r)"
    unfolding va by blast+
  from vector_memcpy_effect [of xb yb s', folded t] K st
  have b1: "\<And>b a. b \<noteq> ?F \<or> (\<forall>r. 0 \<le> r \<and> r < e \<longrightarrow> a \<noteq> col + 2 * ?W * r) \<Longrightarrow>
        load t b a = load s' b a"
    and b2: "\<And>r. 0 \<le> r \<and> r < e \<Longrightarrow>
        load t ?F (col + 2 * ?W * r) = load s' (data kern) (c * ?wk + i + ?wk * r)"
    unfolding vb by blast+
  have kw: "kernel_wrap ?hk ?H m = (if m < c then m - c + ?H else m - c)" for m
    by (simp add: kernel_wrap_def Let_def sd)
  have lo: "kernel_wrap ?hk ?H m * 2 * ?W + col = (?H - c) * (2 * ?W) + col + 2 * ?W * m" if "m < c" for m
    using that by (simp add: kw algebra_simps)
  have hi: "kernel_wrap ?hk ?H m * 2 * ?W + col = col + 2 * ?W * (m - c)" if "c \<le> m" for m
    using that by (simp add: kw algebra_simps)
  have sep: "(?H - c) * (2 * ?W) + col + 2 * ?W * m \<noteq> col + 2 * ?W * r"
    if "0 \<le> m" "r < e" for m r
  proof
    assume "(?H - c) * (2 * ?W) + col + 2 * ?W * m = col + 2 * ?W * r"
    then have "(2 * ?W) * (?H - c + m) = (2 * ?W) * r" by (simp add: algebra_simps)
    then have "?H - c + m = r" using st by simp
    then show False using that ce(1) fit by linarith
  qed
  show ?thesis
  proof (intro conjI allI impI)
    fix b a
    assume h: "b \<noteq> ?F \<or> (\<forall>m. 0 \<le> m \<and> m < ?hk \<longrightarrow> a \<noteq> kernel_wrap ?hk ?H m * 2 * ?W + col)"
    have "load t b a = load s' b a"
    proof (rule b1)
      show "b \<noteq> ?F \<or> (\<forall>r. 0 \<le> r \<and> r < e \<longrightarrow> a \<noteq> col + 2 * ?W * r)"
      proof (cases "b = ?F")
        case True
        with h have n: "\<And>m. 0 \<le> m \<and> m < ?hk \<Longrightarrow> a \<noteq> kernel_wrap ?hk ?H m * 2 * ?W + col" by blast
        have "a \<noteq> col + 2 * ?W * r" if "0 \<le> r \<and> r < e" for r
          using n [of "r + c"] hi [of "r + c"] that ce by simp
        then show ?thesis by blast
      qed simp
    qed
    also have "\<dots> = load s b a"
    proof (rule a1)
      show "b \<noteq> ?F \<or> (\<forall>r. 0 \<le> r \<and> r < c \<longrightarrow> a \<noteq> (?H - c) * (2 * ?W) + col + 2 * ?W * r)"
      proof (cases "b = ?F")
        case True
        with h have n: "\<And>m. 0 \<le> m \<and> m < ?hk \<Longrightarrow> a \<noteq> kernel_wrap ?hk ?H m * 2 * ?W + col" by blast
        have "a \<noteq> (?H - c) * (2 * ?W) + col + 2 * ?W * r" if "0 \<le> r \<and> r < c" for r
          using n [of r] lo [of r] that ce by simp
        then show ?thesis by blast
      qed simp
    qed
    finally show "load t b a = load s b a" .
  next
    fix m
    assume m: "0 \<le> m \<and> m < ?hk"
    have kern': "load s' (data kern) a = load s (data kern) a" for a
      by (rule a1) (use K in simp)
    show "load t ?F (kernel_wrap ?hk ?H m * 2 * ?W + col) = load s (data kern) (m * ?wk + i)"
    proof (cases "m < c")
      case True
      have "load t ?F ((?H - c) * (2 * ?W) + col + 2 * ?W * m)
          = load s' ?F ((?H - c) * (2 * ?W) + col + 2 * ?W * m)"
      proof (rule b1, rule disjI2, intro allI impI)
        fix r
        assume "0 \<le> r \<and> r < e"
        then show "(?H - c) * (2 * ?W) + col + 2 * ?W * m \<noteq> col + 2 * ?W * r"
          using sep [of m r] m by simp
      qed
      also have "\<dots> = load s (data kern) (i + ?wk * m)"
        by (rule a2) (use True m in simp)
      finally have "load t ?F ((?H - c) * (2 * ?W) + col + 2 * ?W * m) = load s (data kern) (i + ?wk * m)" .
      moreover have "i + ?wk * m = m * ?wk + i" by simp
      ultimately show ?thesis by (simp only: lo [OF True])
    next
      case False
      then have cm: "c \<le> m" by simp
      have "load t ?F (col + 2 * ?W * (m - c)) = load s' (data kern) (c * ?wk + i + ?wk * (m - c))"
        by (rule b2) (use cm m ce in simp)
      also have "\<dots> = load s (data kern) (c * ?wk + i + ?wk * (m - c))" by (rule kern')
      also have "c * ?wk + i + ?wk * (m - c) = m * ?wk + i" by (simp add: algebra_simps)
      finally show ?thesis by (simp only: hi [OF cm])
    qed
  qed
qed

lemma kernel_wrap_inj:
  assumes "0 < k" "k \<le> n" "0 \<le> m" "m < k" "0 \<le> m'" "m' < k"
    and "kernel_wrap k n m = kernel_wrap k n m'"
  shows "m = m'"
proof -
  have c: "0 \<le> k div 2" "k div 2 < k" using assms(1) by simp_all
  show ?thesis
    using assms c by (auto simp: kernel_wrap_def Let_def split: if_splits)
qed

lemma pack_kernel_quadrants_effect:
  assumes K: "data kern \<noteq> data (fft ws)" and tF: "tda (fft ws) = 2 * w_res ws"
    and tK: "tda kern = w_kernel ws"
    and pos: "0 < h_kernel ws" "0 < w_kernel ws" "0 < h_res ws" "0 < w_res ws"
    and fit: "h_kernel ws \<le> h_res ws" "w_kernel ws \<le> w_res ws"
  shows "(\<forall>b a. b \<noteq> data (fft ws) \<or>
            (\<forall>i j. 0 \<le> i \<and> i < h_kernel ws \<and> 0 \<le> j \<and> j < w_kernel ws \<longrightarrow>
               a \<noteq> kernel_wrap (h_kernel ws) (h_res ws) i * 2 * w_res ws
                     + 2 * kernel_wrap (w_kernel ws) (w_res ws) j + 1) \<longrightarrow>
            load (pack_kernel_quadrants_ideal ws kern s) b a = load s b a) \<and>
         (\<forall>a b. 0 \<le> a \<and> a < h_res ws \<and> 0 \<le> b \<and> b < w_res ws \<and>
            kernel_hit (h_kernel ws) (h_res ws) a \<and> kernel_hit (w_kernel ws) (w_res ws) b \<longrightarrow>
            load (pack_kernel_quadrants_ideal ws kern s) (data (fft ws)) (a * 2 * w_res ws + 2 * b + 1)
              = load s (data kern) (kernel_index (h_kernel ws) (h_res ws) a * w_kernel ws
                                    + kernel_index (w_kernel ws) (w_res ws) b))"
proof -
  let ?hk = "h_kernel ws" and ?wk = "w_kernel ws" and ?H = "h_res ws" and ?W = "w_res ws"
  let ?F = "data (fft ws)"
  define colcopy where "colcopy col i t = gsl_vector_memcpy
      (gsl_matrix_subcolumn (fft ws) col 0 ((?hk + 1) sdiv 2))
      (gsl_matrix_subcolumn kern i (?hk sdiv 2) ((?hk + 1) sdiv 2))
      (gsl_vector_memcpy
        (gsl_matrix_subcolumn (fft ws) col (?H - ?hk sdiv 2) (?hk sdiv 2))
        (gsl_matrix_subcolumn kern i 0 (?hk sdiv 2)) t)" for col i t
  define body where "body i = colcopy (2 * kernel_wrap ?wk ?W i + 1) i" for i
  define c where "c = ?wk sdiv 2"
  have c: "0 \<le> c" "c \<le> ?wk" using pos(2) by (simp_all add: c_def)
  have l: "for_loop 0 c (\<lambda>i s.
                 let xv = gsl_matrix_subcolumn (fft ws) (2 * ?W - 2 * c + 2 * i + 1) (?H - ?hk sdiv 2) (?hk sdiv 2);
                     yv = gsl_matrix_subcolumn kern i 0 (?hk sdiv 2);
                     s' = gsl_vector_memcpy xv yv s;
                     xv = gsl_matrix_subcolumn (fft ws) (2 * ?W - 2 * c + 2 * i + 1) 0 ((?hk + 1) sdiv 2);
                     yv = gsl_matrix_subcolumn kern i (?hk sdiv 2) ((?hk + 1) sdiv 2)
                 in gsl_vector_memcpy xv yv s') t = for_loop 0 c body t" for t
  proof (rule for_loop_cong)
    fix i :: int and u :: machine
    assume "0 \<le> i" "i < c"
    then have "2 * kernel_wrap ?wk ?W i + 1 = 2 * ?W - 2 * c + 2 * i + 1"
      by (simp add: kernel_wrap_def Let_def c_def)
    then show "(let xv = gsl_matrix_subcolumn (fft ws) (2 * ?W - 2 * c + 2 * i + 1) (?H - ?hk sdiv 2) (?hk sdiv 2);
                     yv = gsl_matrix_subcolumn kern i 0 (?hk sdiv 2);
                     s' = gsl_vector_memcpy xv yv u;
                     xv = gsl_matrix_subcolumn (fft ws) (2 * ?W - 2 * c + 2 * i + 1) 0 ((?hk + 1) sdiv 2);
                     yv = gsl_matrix_subcolumn kern i (?hk sdiv 2) ((?hk + 1) sdiv 2)
                 in gsl_vector_memcpy xv yv s') = body i u"
      by (simp add: body_def colcopy_def Let_def)
  qed
  have r: "for_loop c ?wk (\<lambda>i s.
           let xv = gsl_matrix_subcolumn (fft ws) (2 * (i - c) + 1) (?H - ?hk sdiv 2) (?hk sdiv 2);
               yv = gsl_matrix_subcolumn kern i 0 (?hk sdiv 2);
               s' = gsl_vector_memcpy xv yv s;
               xv = gsl_matrix_subcolumn (fft ws) (2 * (i - c) + 1) 0 ((?hk + 1) sdiv 2);
               yv = gsl_matrix_subcolumn kern i (?hk sdiv 2) ((?hk + 1) sdiv 2)
           in gsl_vector_memcpy xv yv s') t = for_loop c ?wk body t" for t
  proof (rule for_loop_cong)
    fix i :: int and u :: machine
    assume "c \<le> i" "i < ?wk"
    then have "2 * kernel_wrap ?wk ?W i + 1 = 2 * (i - c) + 1"
      by (simp add: kernel_wrap_def Let_def c_def)
    then show "(let xv = gsl_matrix_subcolumn (fft ws) (2 * (i - c) + 1) (?H - ?hk sdiv 2) (?hk sdiv 2);
               yv = gsl_matrix_subcolumn kern i 0 (?hk sdiv 2);
               s' = gsl_vector_memcpy xv yv u;
               xv = gsl_matrix_subcolumn (fft ws) (2 * (i - c) + 1) 0 ((?hk + 1) sdiv 2);
               yv = gsl_matrix_subcolumn kern i (?hk sdiv 2) ((?hk + 1) sdiv 2)
           in gsl_vector_memcpy xv yv s') = body i u"
      by (simp add: body_def colcopy_def Let_def)
  qed
  have pq: "pack_kernel_quadrants_ideal ws kern s = for_loop 0 ?wk body s"
    unfolding pack_kernel_quadrants_ideal_def c_def [symmetric]
    by (subst Let_def, subst l, subst r) (rule for_loop_split [OF c])
  define A where "A i = {a. \<exists>m. 0 \<le> m \<and> m < ?hk \<and>
      a = kernel_wrap ?hk ?H m * 2 * ?W + (2 * kernel_wrap ?wk ?W i + 1)}" for i
  define Q where "Q i a v \<longleftrightarrow> (\<forall>m. 0 \<le> m \<and> m < ?hk \<and>
      a = kernel_wrap ?hk ?H m * 2 * ?W + (2 * kernel_wrap ?wk ?W i + 1)
        \<longrightarrow> v = load s (data kern) (m * ?wk + i))" for i a v
  have eff: "(\<forall>b a. b \<noteq> ?F \<or> a \<notin> A i \<longrightarrow> load (body i t) b a = load t b a) \<and>
      (\<forall>a\<in>A i. Q i a (load (body i t) ?F a))"
    if i: "0 \<le> i" "i < ?wk"
      and t: "\<forall>b a. b \<noteq> ?F \<or> (\<forall>i'. 0 \<le> i' \<and> i' < i \<longrightarrow> a \<notin> A i') \<longrightarrow> load t b a = load s b a"
    for i t
  proof -
    from kernel_column_effect [OF K tF tK pos(1,4) fit(1), of "2 * kernel_wrap ?wk ?W i + 1" i t,
        folded colcopy_def body_def]
    have c1: "\<And>b a. b \<noteq> ?F \<or> (\<forall>m. 0 \<le> m \<and> m < ?hk \<longrightarrow>
          a \<noteq> kernel_wrap ?hk ?H m * 2 * ?W + (2 * kernel_wrap ?wk ?W i + 1)) \<Longrightarrow>
          load (body i t) b a = load t b a"
      and c2: "\<And>m. 0 \<le> m \<and> m < ?hk \<Longrightarrow>
          load (body i t) ?F (kernel_wrap ?hk ?H m * 2 * ?W + (2 * kernel_wrap ?wk ?W i + 1))
            = load t (data kern) (m * ?wk + i)"
      by blast+
    have kern: "load t (data kern) a = load s (data kern) a" for a using t K by simp
    show ?thesis
    proof (intro conjI allI impI ballI)
      fix b a
      assume "b \<noteq> ?F \<or> a \<notin> A i"
      then have "b \<noteq> ?F \<or> (\<forall>m. 0 \<le> m \<and> m < ?hk \<longrightarrow>
          a \<noteq> kernel_wrap ?hk ?H m * 2 * ?W + (2 * kernel_wrap ?wk ?W i + 1))"
        unfolding A_def by blast
      then show "load (body i t) b a = load t b a" by (rule c1)
    next
      fix a
      assume "a \<in> A i"
      show "Q i a (load (body i t) ?F a)"
        unfolding Q_def using c2 kern by auto
    qed
  qed
  from for_loop_effect [of 0 ?wk ?F A s body Q, OF eff, folded pq]
  have r1: "\<And>b a. b \<noteq> ?F \<or> (\<forall>i. 0 \<le> i \<and> i < ?wk \<longrightarrow> a \<notin> A i) \<Longrightarrow>
        load (pack_kernel_quadrants_ideal ws kern s) b a = load s b a"
    and r2: "\<And>i a. 0 \<le> i \<and> i < ?wk \<and> a \<in> A i \<and> (\<forall>i'. i < i' \<and> i' < ?wk \<longrightarrow> a \<notin> A i') \<Longrightarrow>
        Q i a (load (pack_kernel_quadrants_ideal ws kern s) ?F a)"
    by blast+
  have fit': "?hk div 2 \<le> ?H" "?hk - ?hk div 2 \<le> ?H" "?wk div 2 \<le> ?W" "?wk - ?wk div 2 \<le> ?W"
    using pos fit by linarith+
  show ?thesis
  proof (intro conjI allI impI)
    fix b a
    assume h: "b \<noteq> ?F \<or> (\<forall>i j. 0 \<le> i \<and> i < ?hk \<and> 0 \<le> j \<and> j < ?wk \<longrightarrow>
        a \<noteq> kernel_wrap ?hk ?H i * 2 * ?W + 2 * kernel_wrap ?wk ?W j + 1)"
    have "b \<noteq> ?F \<or> (\<forall>i. 0 \<le> i \<and> i < ?wk \<longrightarrow> a \<notin> A i)"
      using h unfolding A_def by (auto simp: add.assoc)
    then show "load (pack_kernel_quadrants_ideal ws kern s) b a = load s b a" by (rule r1)
  next
    fix a b
    assume ab: "0 \<le> a \<and> a < ?H \<and> 0 \<le> b \<and> b < ?W \<and> kernel_hit ?hk ?H a \<and> kernel_hit ?wk ?W b"
    define m where "m = kernel_index ?hk ?H a"
    define n where "n = kernel_index ?wk ?W b"
    have m: "0 \<le> m" "m < ?hk" "kernel_wrap ?hk ?H m = a"
      unfolding m_def using kernel_index_wrap [of ?hk a ?H] pos ab by simp_all
    have n: "0 \<le> n" "n < ?wk" "kernel_wrap ?wk ?W n = b"
      unfolding n_def using kernel_index_wrap [of ?wk b ?W] pos ab by simp_all
    let ?a = "a * 2 * ?W + 2 * b + 1"
    have e: "?a = kernel_wrap ?hk ?H m * 2 * ?W + (2 * kernel_wrap ?wk ?W n + 1)"
      by (simp add: m n)
    have inA: "?a \<in> A n" unfolding A_def using m(1,2) e by blast
    have last: "\<forall>i'. n < i' \<and> i' < ?wk \<longrightarrow> ?a \<notin> A i'"
    proof (intro allI impI notI)
      fix i'
      assume i': "n < i' \<and> i' < ?wk" and "?a \<in> A i'"
      then obtain m' where m': "0 \<le> m'" "m' < ?hk"
        "?a = kernel_wrap ?hk ?H m' * 2 * ?W + (2 * kernel_wrap ?wk ?W i' + 1)"
        unfolding A_def by blast
      have rng: "0 \<le> kernel_wrap ?wk ?W i'" "kernel_wrap ?wk ?W i' < ?W"
        using kernel_wrap_range [of ?wk ?W i'] pos fit' i' n(1) by simp_all
      have "a * 2 * ?W + 2 * b + 1 = kernel_wrap ?hk ?H m' * 2 * ?W + 2 * kernel_wrap ?wk ?W i' + 1"
        using m'(3) by simp
      then have "b = kernel_wrap ?wk ?W i'" using ab rng by simp
      then have "kernel_wrap ?wk ?W n = kernel_wrap ?wk ?W i'" using n(3) by simp
      then have "n = i'"
        using kernel_wrap_inj [of ?wk ?W n i'] pos(2) fit(2) n(1,2) i' by simp
      with i' show False by simp
    qed
    have "Q n ?a (load (pack_kernel_quadrants_ideal ws kern s) ?F ?a)"
      by (rule r2) (use n(1,2) inA last in blast)
    then have "load (pack_kernel_quadrants_ideal ws kern s) ?F ?a = load s (data kern) (m * ?wk + n)"
      unfolding Q_def using m(1,2) e by blast
    then show "load (pack_kernel_quadrants_ideal ws kern s) ?F ?a
        = load s (data kern) (kernel_index ?hk ?H a * ?wk + kernel_index ?wk ?W b)"
      by (simp only: m_def n_def)
  qed
qed

lemma quadrant_cells:
  assumes ok: "workspace_ok ws" and K: "data kern \<noteq> data (fft ws)"
    and tK: "tda kern = w_kernel ws" and geo: "h_kernel ws \<le> h_res ws" "w_kernel ws \<le> w_res ws"
    and ab: "0 \<le> a" "a < h_res ws" "0 \<le> b" "b < w_res ws"
  shows "load (pack_kernel_quadrants_ideal ws kern s) (data (fft ws)) (a * 2 * w_res ws + 2 * b)
           = load s (data (fft ws)) (a * 2 * w_res ws + 2 * b)"
    and "load (pack_kernel_quadrants_ideal ws kern s) (data (fft ws)) (a * 2 * w_res ws + 2 * b + 1)
           = (if kernel_hit (h_kernel ws) (h_res ws) a \<and> kernel_hit (w_kernel ws) (w_res ws) b
              then load s (data kern) (kernel_index (h_kernel ws) (h_res ws) a * w_kernel ws
                                       + kernel_index (w_kernel ws) (w_res ws) b)
              else load s (data (fft ws)) (a * 2 * w_res ws + 2 * b + 1))"
proof -
  let ?hk = "h_kernel ws" and ?wk = "w_kernel ws" and ?H = "h_res ws" and ?W = "w_res ws"
  have pos: "0 < ?hk" "0 < ?wk" using ok by (simp_all add: workspace_ok_def)
  note hw = workspace_ok_pos(1,2) [OF ok]
  note fit = workspace_ok_fit [OF ok]
  have tF: "tda (fft ws) = 2 * w_res ws" using ok by (simp add: workspace_ok_def)
  from pack_kernel_quadrants_effect [OF K tF tK pos hw geo, of s]
  have r1: "\<And>b a. b \<noteq> data (fft ws) \<or>
            (\<forall>i j. 0 \<le> i \<and> i < ?hk \<and> 0 \<le> j \<and> j < ?wk \<longrightarrow>
               a \<noteq> kernel_wrap ?hk ?H i * 2 * ?W + 2 * kernel_wrap ?wk ?W j + 1) \<Longrightarrow>
            load (pack_kernel_quadrants_ideal ws kern s) b a = load s b a"
    and r2: "\<And>a b. 0 \<le> a \<and> a < ?H \<and> 0 \<le> b \<and> b < ?W \<and> kernel_hit ?hk ?H a \<and> kernel_hit ?wk ?W b \<Longrightarrow>
            load (pack_kernel_quadrants_ideal ws kern s) (data (fft ws)) (a * 2 * ?W + 2 * b + 1)
              = load s (data kern) (kernel_index ?hk ?H a * ?wk + kernel_index ?wk ?W b)"
    by blast+
  have rng: "0 \<le> kernel_wrap ?wk ?W j \<and> kernel_wrap ?wk ?W j < ?W" if "0 \<le> j \<and> j < ?wk" for j
    using kernel_wrap_range [of ?wk ?W j] pos fit that by simp
  show "load (pack_kernel_quadrants_ideal ws kern s) (data (fft ws)) (a * 2 * ?W + 2 * b)
           = load s (data (fft ws)) (a * 2 * ?W + 2 * b)"
  proof (rule r1, rule disjI2, intro allI impI)
    fix i j
    assume "0 \<le> i \<and> i < ?hk \<and> 0 \<le> j \<and> j < ?wk"
    then show "a * 2 * ?W + 2 * b \<noteq> kernel_wrap ?hk ?H i * 2 * ?W + 2 * kernel_wrap ?wk ?W j + 1"
      using rng [of j] ab by simp
  qed
  show "load (pack_kernel_quadrants_ideal ws kern s) (data (fft ws)) (a * 2 * ?W + 2 * b + 1)
           = (if kernel_hit ?hk ?H a \<and> kernel_hit ?wk ?W b
              then load s (data kern) (kernel_index ?hk ?H a * ?wk + kernel_index ?wk ?W b)
              else load s (data (fft ws)) (a * 2 * ?W + 2 * b + 1))"
  proof (cases "kernel_hit ?hk ?H a \<and> kernel_hit ?wk ?W b")
    case True
    then show ?thesis using r2 [of a b] ab by simp
  next
    case False
    have "load (pack_kernel_quadrants_ideal ws kern s) (data (fft ws)) (a * 2 * ?W + 2 * b + 1)
        = load s (data (fft ws)) (a * 2 * ?W + 2 * b + 1)"
    proof (rule r1, rule disjI2, intro allI impI notI)
      fix i j
      assume ij: "0 \<le> i \<and> i < ?hk \<and> 0 \<le> j \<and> j < ?wk"
        and eq: "a * 2 * ?W + 2 * b + 1 = kernel_wrap ?hk ?H i * 2 * ?W + 2 * kernel_wrap ?wk ?W j + 1"
      from eq rng [of j] ij ab have "kernel_wrap ?hk ?H i = a" "kernel_wrap ?wk ?W j = b"
        by simp_all
      then have "kernel_hit ?hk ?H a" "kernel_hit ?wk ?W b"
        using kernel_wrap_last(1) [of ?hk ?H i a] kernel_wrap_last(1) [of ?wk ?W j b] pos hw ij
        by simp_all
      with False show False by simp
    qed
    then show ?thesis by (simp only: if_not_P [OF False])
  qed
qed

lemma column_cells:
  assumes ok: "workspace_ok ws" and S: "data src \<noteq> data (fft ws)"
    and sv: "size1 src = h_src ws" "tda src = w_src ws"
    and ij: "0 \<le> i" "i < h_res ws" "0 \<le> j" "j < w_res ws"
  shows "load (pack_source_columns_ideal ws src s) (data (fft ws)) (i * 2 * w_res ws + 2 * j)
           = (if i < h_src ws \<and> j < w_src ws then load s (data src) (i * w_src ws + j)
              else load s (data (fft ws)) (i * 2 * w_res ws + 2 * j))"
    and "load (pack_source_columns_ideal ws src s) (data (fft ws)) (i * 2 * w_res ws + 2 * j + 1)
           = load s (data (fft ws)) (i * 2 * w_res ws + 2 * j + 1)"
proof -
  note W = workspace_ok_pos(4) [OF ok]
  have tF: "tda (fft ws) = 2 * w_res ws" using ok by (simp add: workspace_ok_def)
  from pack_source_columns_effect [OF S W sv tF, of s]
  have r1: "\<And>b a. b \<noteq> data (fft ws) \<or>
            (\<forall>i j. 0 \<le> i \<and> i < h_src ws \<and> 0 \<le> j \<and> j < w_src ws \<longrightarrow> a \<noteq> i * 2 * w_res ws + 2 * j) \<Longrightarrow>
            load (pack_source_columns_ideal ws src s) b a = load s b a"
    and r2: "\<And>i j. 0 \<le> i \<and> i < h_src ws \<and> 0 \<le> j \<and> j < w_src ws \<Longrightarrow>
            load (pack_source_columns_ideal ws src s) (data (fft ws)) (i * 2 * w_res ws + 2 * j)
              = load s (data src) (i * w_src ws + j)"
    by blast+
  show "load (pack_source_columns_ideal ws src s) (data (fft ws)) (i * 2 * w_res ws + 2 * j)
           = (if i < h_src ws \<and> j < w_src ws then load s (data src) (i * w_src ws + j)
              else load s (data (fft ws)) (i * 2 * w_res ws + 2 * j))"
  proof (cases "i < h_src ws \<and> j < w_src ws")
    case True
    then show ?thesis using r2 [of i j] ij by simp
  next
    case False
    have "load (pack_source_columns_ideal ws src s) (data (fft ws)) (i * 2 * w_res ws + 2 * j)
        = load s (data (fft ws)) (i * 2 * w_res ws + 2 * j)"
    proof (rule r1, rule disjI2, intro allI impI notI)
      fix i' j'
      assume h: "0 \<le> i' \<and> i' < h_src ws \<and> 0 \<le> j' \<and> j' < w_src ws"
        and eq: "i * 2 * w_res ws + 2 * j = i' * 2 * w_res ws + 2 * j'"
      have "j' < w_res ws" using h W by simp
      with eq h ij have "i = i' \<and> j = j'" by simp
      with h False show False by simp
    qed
    then show ?thesis by (simp only: if_not_P [OF False])
  qed
  show "load (pack_source_columns_ideal ws src s) (data (fft ws)) (i * 2 * w_res ws + 2 * j + 1)
           = load s (data (fft ws)) (i * 2 * w_res ws + 2 * j + 1)"
  proof (rule r1, rule disjI2, intro allI impI)
    fix i' j'
    assume h: "0 \<le> i' \<and> i' < h_src ws \<and> 0 \<le> j' \<and> j' < w_src ws"
    then have "j' < w_res ws" using W by simp
    then show "i * 2 * w_res ws + 2 * j + 1 \<noteq> i' * 2 * w_res ws + 2 * j'"
      using h ij by simp
  qed
qed

lemma column_other:
  assumes S: "data src \<noteq> data (fft ws)" and W: "w_src ws \<le> w_res ws"
    and sv: "size1 src = h_src ws" "tda src = w_src ws" and tF: "tda (fft ws) = 2 * w_res ws"
    and "b \<noteq> data (fft ws)"
  shows "load (pack_source_columns_ideal ws src s) b a = load s b a"
  using pack_source_columns_effect [OF S W sv tF, of s] assms(6) by blast

lemma circular_packing:
  fixes s0 :: machine
  assumes ok: "workspace_ok ws" and S: "data src \<noteq> data (fft ws)" and K: "data kern \<noteq> data (fft ws)"
    and sv: "size1 src = h_src ws" "tda src = w_src ws" and tK: "tda kern = w_kernel ws"
    and geo: "h_kernel ws \<le> h_res ws" "w_kernel ws \<le> w_res ws"
    and ij: "0 \<le> i" "i < h_res ws" "0 \<le> j" "j < w_res ws"
  defines "s3 \<equiv> pack_kernel_quadrants_ideal ws kern (pack_source_columns_ideal ws src (gsl_matrix_set_zero (fft ws) s0))"
  shows "load s3 (data (fft ws)) (i * 2 * w_res ws + 2 * j)
           = (if i < h_src ws \<and> j < w_src ws then load s0 (data src) (i * w_src ws + j) else 0)"
    and "load s3 (data (fft ws)) (i * 2 * w_res ws + 2 * j + 1)
           = (if kernel_hit (h_kernel ws) (h_res ws) i \<and> kernel_hit (w_kernel ws) (w_res ws) j
              then load s0 (data kern) (kernel_index (h_kernel ws) (h_res ws) i * w_kernel ws
                                        + kernel_index (w_kernel ws) (w_res ws) j)
              else 0)"
proof -
  have tF: "tda (fft ws) = 2 * w_res ws" using ok by (simp add: workspace_ok_def)
  define s1 where "s1 = gsl_matrix_set_zero (fft ws) s0"
  define s2 where "s2 = pack_source_columns_ideal ws src s1"
  have s3: "s3 = pack_kernel_quadrants_ideal ws kern s2" by (simp add: s3_def s2_def s1_def)
  have src1: "load s1 (data src) a = load s0 (data src) a" for a
    unfolding s1_def by (rule zero_other [OF ok S])
  have kern2: "load s2 (data kern) a = load s0 (data kern) a" for a
    unfolding s2_def s1_def
    using column_other [OF S workspace_ok_pos(4) [OF ok] sv tF K] zero_other [OF ok K] by simp
  have "load s3 (data (fft ws)) (i * 2 * w_res ws + 2 * j)
      = load s2 (data (fft ws)) (i * 2 * w_res ws + 2 * j)"
    unfolding s3 by (rule quadrant_cells(1) [OF ok K tK geo ij])
  also have "\<dots> = (if i < h_src ws \<and> j < w_src ws then load s1 (data src) (i * w_src ws + j)
              else load s1 (data (fft ws)) (i * 2 * w_res ws + 2 * j))"
    unfolding s2_def by (rule column_cells(1) [OF ok S sv ij])
  also have "\<dots> = (if i < h_src ws \<and> j < w_src ws then load s0 (data src) (i * w_src ws + j) else 0)"
    using zero_cells(1) [OF ok ij, of s0, folded s1_def] by (simp add: src1)
  finally show "load s3 (data (fft ws)) (i * 2 * w_res ws + 2 * j)
           = (if i < h_src ws \<and> j < w_src ws then load s0 (data src) (i * w_src ws + j) else 0)" .
  have "load s2 (data (fft ws)) (i * 2 * w_res ws + 2 * j + 1) = 0"
    unfolding s2_def s1_def using column_cells(2) [OF ok S sv ij] zero_cells(2) [OF ok ij] by simp
  then show "load s3 (data (fft ws)) (i * 2 * w_res ws + 2 * j + 1)
           = (if kernel_hit (h_kernel ws) (h_res ws) i \<and> kernel_hit (w_kernel ws) (w_res ws) j
              then load s0 (data kern) (kernel_index (h_kernel ws) (h_res ws) i * w_kernel ws
                                        + kernel_index (w_kernel ws) (w_res ws) j)
              else 0)"
    unfolding s3 using quadrant_cells(2) [OF ok K tK geo ij, of s2] by (simp add: kern2)
qed

lemma circular_padded_result:
  assumes ok: "workspace_ok ws" and S: "data src \<noteq> data (fft ws)" and K: "data kern \<noteq> data (fft ws)"
    and D: "data (fft_copy ws) \<noteq> data dst"
    and sv: "size1 src = h_src ws" "tda src = w_src ws" and tK: "tda kern = w_kernel ws"
    and dv: "size1 dst = h_src ws" "tda dst = w_src ws"
    and geo: "h_kernel ws \<le> h_res ws" "w_kernel ws \<le> w_res ws"
    and pq: "0 \<le> p" "p < h_src ws" "0 \<le> q" "q < w_src ws"
  shows "load (extract_columns_ideal ws dst (inverse_transform_ideal (\<lambda>x. x) ws (spectral_product_ideal (\<lambda>x. x) ws (forward_transform_ideal (\<lambda>x. x) ws
            (pack_kernel_quadrants_ideal ws kern (pack_source_columns_ideal ws src (gsl_matrix_set_zero (fft ws) s0)))))))
           (data dst) (p * w_src ws + q)
         = direct_convolution (h_src ws) (w_src ws) (h_kernel ws) (w_kernel ws)
             (load s0 (data src)) (load s0 (data kern)) p q"
proof -
  let ?s3 = "pack_kernel_quadrants_ideal ws kern (pack_source_columns_ideal ws src (gsl_matrix_set_zero (fft ws) s0))"
  let ?s6 = "inverse_transform_ideal (\<lambda>x. x) ws (spectral_product_ideal (\<lambda>x. x) ws (forward_transform_ideal (\<lambda>x. x) ws ?s3))"
  from ok have a: "0 < h_src ws" "0 < w_src ws" "0 < h_kernel ws" "0 < w_kernel ws"
    "h_src ws + (h_kernel ws + 1) div 2 \<le> h_res ws"
    "w_src ws + (w_kernel ws + 1) div 2 \<le> w_res ws"
    by (simp_all add: workspace_ok_def)
  have P: "h_kernel ws - h_kernel ws div 2 - h_res ws \<le> p - (h_src ws - 1)"
      "p < h_res ws - h_kernel ws div 2"
    using a(3,5) pq(1,2) by linarith+
  have Q: "w_kernel ws - w_kernel ws div 2 - w_res ws \<le> q - (w_src ws - 1)"
      "q < w_res ws - w_kernel ws div 2"
    using a(4,6) pq(3,4) by linarith+
  have tC: "tda (fft_copy ws) = 2 * w_res ws" using ok by (simp add: workspace_ok_def)
  from extract_columns_effect [OF D a(2) dv tC, of ?s6] pq
  have "load (extract_columns_ideal ws dst ?s6) (data dst) (p * w_src ws + q)
      = load ?s6 (data (fft_copy ws)) (p * 2 * w_res ws + 2 * q)"
    by blast
  also have "\<dots> = padded_convolution (h_src ws) (w_src ws) (h_kernel ws) (w_kernel ws)
      (\<lambda>i j. load s0 (data src) (i * w_src ws + j)) (load s0 (data kern)) p q"
    by (rule padded_pipeline_result [OF ok circular_packing(1) [OF ok S K sv tK geo] circular_packing(2) [OF ok S K sv tK geo]
          workspace_ok_pos(3,4) [OF ok] pq(1) P pq(3) Q])
  also have "\<dots> = direct_convolution (h_src ws) (w_src ws) (h_kernel ws) (w_kernel ws)
             (load s0 (data src)) (load s0 (data kern)) p q"
    by (rule direct_is_padded [symmetric])
  finally show ?thesis .
qed

section \<open>The passages within the range of int\<close>

lemma int32_id: "- 2147483648 \<le> x \<Longrightarrow> x < 2147483648 \<Longrightarrow> int32 x = x"
  by (simp add: int32_def)

lemma uint32_id: "0 \<le> x \<Longrightarrow> x < 4294967296 \<Longrightarrow> uint32 x = x"
  by (simp add: uint32_def)

lemma size_t_id: "0 \<le> x \<Longrightarrow> x < 18446744073709551616 \<Longrightarrow> size_t x = x"
  by (simp add: size_t_def)

lemma size_t_small: "0 \<le> x \<Longrightarrow> x < 2147483648 \<Longrightarrow> size_t x = x"
  by (simp add: size_t_def)

lemma uint32_small: "0 \<le> x \<Longrightarrow> x < 2147483648 \<Longrightarrow> uint32 x = x"
  by (simp add: uint32_def)

lemma for_loop_opt_empty [simp]: "hi \<le> lo \<Longrightarrow> for_loop_opt lo hi body s = Some s"
  by (subst for_loop_opt.simps) simp

lemma for_loop_opt_step:
  "lo < hi \<Longrightarrow> for_loop_opt lo hi body s =
     (case body lo s of None \<Rightarrow> None | Some s' \<Rightarrow> for_loop_opt (lo + 1) hi body s')"
  by (subst for_loop_opt.simps) simp

lemma for_loop_opt_Some:
  assumes "\<And>i t. lo \<le> i \<Longrightarrow> i < hi \<Longrightarrow> bodyM i t = Some (body i t)"
  shows "for_loop_opt lo hi bodyM s = Some (for_loop lo hi body s)"
  using assms
proof (induction lo hi body s rule: for_loop.induct)
  case (1 i n body s)
  show ?case
  proof (cases "i < n")
    case True
    have "for_loop_opt (i + 1) n bodyM (body i s) = Some (for_loop (i + 1) n body (body i s))"
      by (rule "1.IH" [OF True]) (use "1.prems" in simp)
    then show ?thesis
      using True "1.prems" [of i s] by (simp add: for_loop_opt_step for_loop_step)
  next
    case False
    then show ?thesis by simp
  qed
qed

lemma for_loop_opt_None:
  assumes "lo \<le> k" "k < hi" "\<And>t. bodyM k t = None"
  shows "for_loop_opt lo hi bodyM s = None"
  using assms
proof (induction lo hi bodyM s rule: for_loop_opt.induct)
  case (1 i n body s)
  have lt: "i < n" using "1.prems" by simp
  show ?case
  proof (cases "body i s")
    case None
    then show ?thesis using lt by (simp add: for_loop_opt_step)
  next
    case (Some s')
    then have "i \<noteq> k" using "1.prems"(3) [of s] by auto
    then have "i + 1 \<le> k" using "1.prems"(1) by simp
    from "1.IH" [OF lt Some this "1.prems"(2,3)]
    show ?thesis using lt Some by (simp add: for_loop_opt_step)
  qed
qed

lemma row_offset_bounds:
  fixes i c H W :: int
  assumes "0 \<le> i" "i < H" "0 \<le> c" "c < 2 * W"
  shows "0 \<le> i * 2" "i * 2 \<le> i * 2 * W" "0 \<le> i * 2 * W" "0 \<le> i * 2 * W + c"
    "i * 2 * W + c < H * (2 * W)"
proof -
  have W: "1 \<le> W" using assms(3,4) by simp
  show "0 \<le> i * 2" using assms(1) by simp
  have "i * 2 * 1 \<le> i * 2 * W" using assms(1) W by (intro mult_left_mono) simp_all
  then show "i * 2 \<le> i * 2 * W" by simp
  then show "0 \<le> i * 2 * W" using assms(1) by simp
  then show "0 \<le> i * 2 * W + c" using assms(3) by simp
  have "i * (2 * W) + c < H * (2 * W)"
    using flat_index_bound [of i H c "2 * W"] assms by simp
  then show "i * 2 * W + c < H * (2 * W)" by (simp add: mult.assoc)
qed

lemma row_offset32:
  assumes "0 \<le> i" "i < H" "0 \<le> c" "c < 2 * W" "H * (2 * W) < 2147483648"
  shows "mul32 (mul32 i 2) W = i * 2 * W"
    and "add32 (mul32 (mul32 i 2) W) c = i * 2 * W + c"
proof -
  note b = row_offset_bounds [OF assms(1-4)]
  have a: "mul32 i 2 = i * 2" unfolding mul32_def using b assms by (intro int32_id) linarith+
  show m: "mul32 (mul32 i 2) W = i * 2 * W"
    unfolding a unfolding mul32_def using b assms by (intro int32_id) linarith+
  show "add32 (mul32 (mul32 i 2) W) c = i * 2 * W + c"
    unfolding m unfolding add32_def using b assms by (intro int32_id) linarith+
qed


lemma double32:
  assumes "0 \<le> j" "j < W" "0 < H" "H * (2 * W) < 2147483648"
  shows "mul32 2 j = 2 * j" "mulu 2 j = 2 * j" "mul32 2 W = 2 * W" "0 \<le> 2 * j" "2 * j + 1 < 2 * W"
    "2 * W < 2147483648"
proof -
  have "1 * (2 * W) \<le> H * (2 * W)" using assms by (intro mult_right_mono) simp_all
  then show W: "2 * W < 2147483648" using assms(4) by simp
  show "mul32 2 j = 2 * j" unfolding mul32_def using assms W by (intro int32_id) linarith+
  show "mulu 2 j = 2 * j" unfolding mulu_def using assms W by (intro uint32_small) linarith+
  show "mul32 2 W = 2 * W" unfolding mul32_def using assms W by (intro int32_id) linarith+
  show "0 \<le> 2 * j" "2 * j + 1 < 2 * W" using assms by simp_all
qed

lemma flat_offset32:
  assumes "0 \<le> i" "i < h" "0 \<le> j" "j < w" "h * w < 2147483648"
  shows "add32 (mul32 i w) j = i * w + j" "addu (mulu i (uint32 w)) j = i * w + j"
proof -
  note b = flat_index_bound [OF assms(1-4)]
  have iw: "0 \<le> i * w" using assms by simp
  have le: "i * w \<le> i * w + j" using assms by simp
  have w: "0 \<le> w" "w < 2147483648"
  proof -
    show "0 \<le> w" using assms by simp
    have "1 * w \<le> h * w" using assms by (intro mult_right_mono) simp_all
    then show "w < 2147483648" using assms(5) by simp
  qed
  have m: "mul32 i w = i * w" unfolding mul32_def using b iw le assms(5) by (intro int32_id) linarith+
  show "add32 (mul32 i w) j = i * w + j"
    unfolding m unfolding add32_def using b iw assms(5) by (intro int32_id) linarith+
  have mu: "mulu i (uint32 w) = i * w"
    unfolding uint32_small [OF w] unfolding mulu_def using b iw le assms(5)
    by (intro uint32_small) linarith+
  show "addu (mulu i (uint32 w)) j = i * w + j"
    unfolding mu unfolding addu_def using b iw assms(5) by (intro uint32_small) linarith+
qed

lemma in_matrix_flat:
  assumes "size1 m = h" "tda m = w" "0 \<le> i" "i < h" "0 \<le> j" "j < w"
  shows "in_matrix m (i * w + j)"
  using flat_index_bound [OF assms(3-6)] assms(1,2) by (simp add: in_matrix_def)

lemma in_matrix_row:
  assumes "size1 m = H" "tda m = 2 * W" "0 \<le> i" "i < H" "0 \<le> c" "c < 2 * W"
  shows "in_matrix m (i * 2 * W + c)"
  using row_offset_bounds [OF assms(3-6)] assms(1,2) by (simp add: in_matrix_def)

lemma row_offset32_succ:
  assumes "0 \<le> i" "i < H" "0 \<le> c" "c + 1 < 2 * W" "H * (2 * W) < 2147483648"
  shows "add32 (add32 (mul32 (mul32 i 2) W) c) 1 = i * 2 * W + c + 1"
proof -
  have c: "c < 2 * W" "0 \<le> c + 1" using assms by simp_all
  note b = row_offset_bounds [OF assms(1,2) c(2) assms(4)]
  have "add32 (mul32 (mul32 i 2) W) c = i * 2 * W + c"
    by (rule row_offset32(2) [OF assms(1-3) c(1) assms(5)])
  moreover have "add32 (i * 2 * W + c) 1 = i * 2 * W + c + 1"
    unfolding add32_def using b assms by (intro int32_id) linarith+
  ultimately show ?thesis by simp
qed

lemma fits_int_facts:
  assumes ok: "workspace_ok ws" and fit: "fits_int ws"
  shows "h_res ws * (2 * w_res ws) < 2147483648" "h_kernel ws * w_kernel ws < 2147483648"
    "h_src ws * w_src ws < 2147483648"
    "h_res ws < 2147483648" "w_res ws < 2147483648" "2 * w_res ws < 2147483648"
    "h_src ws < 2147483648" "w_src ws < 2147483648"
    "h_kernel ws < 2147483648" "w_kernel ws < 2147483648"
    "h_src ws + h_kernel ws < 2147483648" "w_src ws + w_kernel ws < 2147483648"
proof -
  let ?H = "h_res ws" and ?W = "w_res ws"
  note hw = workspace_ok_pos [OF ok]
  from ok have pos: "0 < h_src ws" "0 < w_src ws" "0 < h_kernel ws" "0 < w_kernel ws"
    by (simp_all add: workspace_ok_def)
  from fit show N: "?H * (2 * ?W) < 2147483648" and K: "h_kernel ws * w_kernel ws < 2147483648"
    and sh: "h_src ws + h_kernel ws < 2147483648" and sw: "w_src ws + w_kernel ws < 2147483648"
    by (simp_all add: fits_int_def)
  have "1 * (2 * ?W) \<le> ?H * (2 * ?W)" using hw by (intro mult_right_mono) simp_all
  then show W2: "2 * ?W < 2147483648" using N by simp
  then show "?W < 2147483648" using hw by simp
  have "?H * 1 \<le> ?H * (2 * ?W)" using hw by (intro mult_left_mono) simp_all
  then show "?H < 2147483648" using N by simp
  have "h_src ws * w_src ws \<le> ?H * ?W" using hw pos by (intro mult_mono) simp_all
  moreover have "?H * ?W \<le> ?H * (2 * ?W)" using hw by (intro mult_left_mono) simp_all
  ultimately show "h_src ws * w_src ws < 2147483648" using N by simp
  show "h_src ws < 2147483648" "h_kernel ws < 2147483648" using sh pos by simp_all
  show "w_src ws < 2147483648" "w_kernel ws < 2147483648" using sw pos by simp_all
qed


lemma pack_kernel_refines:
  assumes ok: "workspace_ok ws" and fit: "fits_int ws"
    and kv: "size1 kern = h_kernel ws" "tda kern = w_kernel ws"
  shows "pack_kernel ws kern s = Some (pack_kernel_ideal ws kern s)"
proof -
  let ?H = "h_res ws" and ?W = "w_res ws" and ?hk = "h_kernel ws" and ?wk = "w_kernel ws"
  from ok have pos: "0 < ?hk" "0 < ?wk"
    and F: "size1 (fft ws) = ?H" "tda (fft ws) = 2 * ?W"
    by (simp_all add: workspace_ok_def)
  note hw = workspace_ok_pos [OF ok]
  note ff = fits_int_facts [OF ok fit]
  note kf = workspace_ok_fit [OF ok]
  have wrap: "(let x = sub32 i (k sdiv 2) in if x < 0 then add32 x n else x) = kernel_wrap k n i"
    if "0 \<le> i" "i < k" "0 < k" "k < 2147483648" "0 < n" "n < 2147483648" for i k n
  proof -
    have h: "0 \<le> k div 2" "k div 2 < k" using that by simp_all
    have sd: "k sdiv 2 = k div 2" using that(3) by simp
    have a: "sub32 i (k div 2) = i - k div 2"
      unfolding sub32_def using that h by (intro int32_id) linarith+
    have b: "add32 (i - k div 2) n = i - k div 2 + n" if "i - k div 2 < 0"
      unfolding add32_def using that \<open>0 \<le> i\<close> \<open>i < k\<close> \<open>k < 2147483648\<close> \<open>0 < n\<close> \<open>n < 2147483648\<close> h
      by (intro int32_id) linarith+
    show ?thesis by (simp add: sd a b kernel_wrap_def Let_def)
  qed
  have wrap': "(let x = i - k sdiv 2 in if x < 0 then x + n else x) = kernel_wrap k n i" for i k n
    by (simp add: kernel_wrap_def Let_def)
  have body: "do {
         v \<leftarrow> read_cell kern (add32 (mul32 i ?wk) j) t;
         write_cell (fft ws)
           (add32 (add32 (mul32 (mul32 (kernel_wrap ?hk ?H i) 2) ?W) (mul32 2 (kernel_wrap ?wk ?W j))) 1) v t
       } = Some (store (data (fft ws)) (kernel_wrap ?hk ?H i * 2 * ?W + 2 * kernel_wrap ?wk ?W j + 1)
                   (load t (data kern) (i * ?wk + j)) t)"
    if "0 \<le> i" "i < ?hk" "0 \<le> j" "j < ?wk" for i j t
  proof -
    have ri: "0 \<le> kernel_wrap ?hk ?H i" "kernel_wrap ?hk ?H i < ?H"
      using kernel_wrap_range [OF pos(1) kf(1,2) that(1,2)] by simp_all
    have rj: "0 \<le> kernel_wrap ?wk ?W j" "kernel_wrap ?wk ?W j < ?W"
      using kernel_wrap_range [OF pos(2) kf(3,4) that(3,4)] by simp_all
    note d = double32 [OF rj hw(1) ff(1)]
    have e1: "add32 (mul32 i ?wk) j = i * ?wk + j" by (rule flat_offset32(1) [OF that ff(2)])
    have e2: "add32 (add32 (mul32 (mul32 (kernel_wrap ?hk ?H i) 2) ?W) (mul32 2 (kernel_wrap ?wk ?W j))) 1
        = kernel_wrap ?hk ?H i * 2 * ?W + 2 * kernel_wrap ?wk ?W j + 1"
      unfolding d(1) by (rule row_offset32_succ [OF ri d(4,5) ff(1)])
    have m1: "in_matrix kern (i * ?wk + j)" by (rule in_matrix_flat [OF kv that])
    have "in_matrix (fft ws) (kernel_wrap ?hk ?H i * 2 * ?W + (2 * kernel_wrap ?wk ?W j + 1))"
      by (rule in_matrix_row [OF F ri]) (use d in simp_all)
    then have m2: "in_matrix (fft ws) (kernel_wrap ?hk ?H i * 2 * ?W + 2 * kernel_wrap ?wk ?W j + 1)"
      by (simp add: add.assoc)
    show ?thesis by (simp add: e1 e2 read_cell_def write_cell_def m1 m2)
  qed
  have inner: "for_loop_opt 0 ?wk (\<lambda>j s.
            let j_src = sub32 j (?wk sdiv 2);
                j_src = (if j_src < 0 then add32 j_src ?W else j_src)
            in do {
              v \<leftarrow> read_cell kern (add32 (mul32 i ?wk) j) s;
              write_cell (fft ws)
                (add32 (add32 (mul32 (mul32 (kernel_wrap ?hk ?H i) 2) ?W) (mul32 2 j_src)) 1) v s
            }) t
      = Some (for_loop 0 ?wk (\<lambda>j s.
            let j_src = j - ?wk sdiv 2;
                j_src = (if j_src < 0 then j_src + ?W else j_src)
            in store (data (fft ws)) (kernel_wrap ?hk ?H i * 2 * ?W + 2 * j_src + 1)
                 (load s (data kern) (i * ?wk + j)) s) t)"
    if i: "0 \<le> i" "i < ?hk" for i t
  proof (rule for_loop_opt_Some)
    fix j t
    assume j: "0 \<le> j" "j < ?wk"
    have w1: "(let x = sub32 j (?wk sdiv 2) in if x < 0 then add32 x ?W else x) = kernel_wrap ?wk ?W j"
      by (rule wrap [OF j pos(2) ff(10) hw(2) ff(5)])
    show "(let j_src = sub32 j (?wk sdiv 2);
                j_src = (if j_src < 0 then add32 j_src ?W else j_src)
            in do {
              v \<leftarrow> read_cell kern (add32 (mul32 i ?wk) j) t;
              write_cell (fft ws)
                (add32 (add32 (mul32 (mul32 (kernel_wrap ?hk ?H i) 2) ?W) (mul32 2 j_src)) 1) v t
            })
        = Some (let j_src = j - ?wk sdiv 2;
                j_src = (if j_src < 0 then j_src + ?W else j_src)
            in store (data (fft ws)) (kernel_wrap ?hk ?H i * 2 * ?W + 2 * j_src + 1)
                 (load t (data kern) (i * ?wk + j)) t)"
      using body [OF i j, of t] w1 wrap' [of j ?wk ?W] by (simp add: Let_def)
  qed
  show ?thesis
    unfolding pack_kernel_def pack_kernel_ideal_def
  proof (rule for_loop_opt_Some)
    fix i t
    assume i: "0 \<le> i" "i < ?hk"
    have w1: "(let x = sub32 i (?hk sdiv 2) in if x < 0 then add32 x ?H else x) = kernel_wrap ?hk ?H i"
      by (rule wrap [OF i pos(1) ff(9) hw(1) ff(4)])
    show "(let i_src = sub32 i (?hk sdiv 2);
           i_src = (if i_src < 0 then add32 i_src ?H else i_src)
       in for_loop_opt 0 ?wk (\<lambda>j s.
            let j_src = sub32 j (?wk sdiv 2);
                j_src = (if j_src < 0 then add32 j_src ?W else j_src)
            in do {
              v \<leftarrow> read_cell kern (add32 (mul32 i ?wk) j) s;
              write_cell (fft ws)
                (add32 (add32 (mul32 (mul32 i_src 2) ?W) (mul32 2 j_src)) 1) v s
            })) t
      = Some ((let i_src = i - ?hk sdiv 2;
           i_src = (if i_src < 0 then i_src + ?H else i_src)
       in for_loop 0 ?wk (\<lambda>j s.
            let j_src = j - ?wk sdiv 2;
                j_src = (if j_src < 0 then j_src + ?W else j_src)
            in store (data (fft ws)) (i_src * 2 * ?W + 2 * j_src + 1)
                 (load s (data kern) (i * ?wk + j)) s)) t)"
      using inner [OF i, of t] w1 wrap' [of i ?hk ?H] by (simp add: Let_def)
  qed
qed

lemma transform_lines_refine:
  assumes ok: "workspace_ok ws" and fit: "fits_int ws"
    and M: "size1 m = h_res ws" "tda m = 2 * w_res ws"
  shows "for_loop_opt 0 (h_res ws) (\<lambda>i s.
             if line_in_matrix m (mul32 (mul32 i 2) (w_res ws)) 1 (size_t (w_res ws))
             then Some (T (data m, mul32 (mul32 i 2) (w_res ws)) 1 (size_t (w_res ws)) a b s)
             else None) s0
         = Some (for_loop 0 (h_res ws) (\<lambda>i. T (data m, i * 2 * w_res ws) 1 (w_res ws) a b) s0)"
    and "for_loop_opt 0 (w_res ws) (\<lambda>j s.
       if line_in_matrix m (mul32 2 j) (size_t (w_res ws)) (size_t (h_res ws))
       then Some (T (data m, mul32 2 j) (size_t (w_res ws)) (size_t (h_res ws)) c d s)
       else None) s1
         = Some (for_loop 0 (w_res ws) (\<lambda>j. T (data m, 2 * j) (w_res ws) (h_res ws) c d) s1)"
proof -
  let ?H = "h_res ws" and ?W = "w_res ws"
  note hw = workspace_ok_pos [OF ok]
  note ff = fits_int_facts [OF ok fit]
  have sw: "size_t ?W = ?W" using hw ff by (intro size_t_small) simp_all
  have sh: "size_t ?H = ?H" using hw ff by (intro size_t_small) simp_all
  show "for_loop_opt 0 ?H (\<lambda>i s.
             if line_in_matrix m (mul32 (mul32 i 2) ?W) 1 (size_t ?W)
             then Some (T (data m, mul32 (mul32 i 2) ?W) 1 (size_t ?W) a b s)
             else None) s0
         = Some (for_loop 0 ?H (\<lambda>i. T (data m, i * 2 * ?W) 1 ?W a b) s0)"
  proof (rule for_loop_opt_Some)
    fix i t
    assume i: "0 \<le> i" "i < ?H"
    have z: "(0::int) \<le> 0" "0 < 2 * ?W" using hw by simp_all
    have e: "mul32 (mul32 i 2) ?W = i * 2 * ?W" by (rule row_offset32(1) [OF i z ff(1)])
    have "in_matrix m (i * 2 * ?W + 0)" by (rule in_matrix_row [OF M i z])
    then have m0: "in_matrix m (i * 2 * ?W)" by simp
    have "in_matrix m (i * 2 * ?W + (2 * ?W - 1))"
      by (rule in_matrix_row [OF M i]) (use hw in simp_all)
    then have m1: "in_matrix m (i * 2 * ?W + 2 * 1 * (?W - 1) + 1)" by (simp add: algebra_simps)
    have l: "line_in_matrix m (i * 2 * ?W) 1 ?W" using m0 m1 by (simp add: line_in_matrix_def)
    show "(if line_in_matrix m (mul32 (mul32 i 2) ?W) 1 (size_t ?W)
           then Some (T (data m, mul32 (mul32 i 2) ?W) 1 (size_t ?W) a b t)
           else None) = Some (T (data m, i * 2 * ?W) 1 ?W a b t)"
      by (simp add: e sw l)
  qed
  show "for_loop_opt 0 ?W (\<lambda>j s.
       if line_in_matrix m (mul32 2 j) (size_t ?W) (size_t ?H)
       then Some (T (data m, mul32 2 j) (size_t ?W) (size_t ?H) c d s)
       else None) s1
         = Some (for_loop 0 ?W (\<lambda>j. T (data m, 2 * j) ?W ?H c d) s1)"
  proof (rule for_loop_opt_Some)
    fix j t
    assume j: "0 \<le> j" "j < ?W"
    note dd = double32 [OF j hw(1) ff(1)]
    have z: "(0::int) \<le> 0" "0 < ?H" using hw by simp_all
    have "in_matrix m (0 * 2 * ?W + 2 * j)"
      by (rule in_matrix_row [OF M z dd(4)]) (use dd in simp)
    then have m0: "in_matrix m (2 * j)" by simp
    have "in_matrix m ((?H - 1) * 2 * ?W + (2 * j + 1))"
      by (rule in_matrix_row [OF M]) (use hw dd in simp_all)
    then have m1: "in_matrix m (2 * j + 2 * ?W * (?H - 1) + 1)" by (simp add: algebra_simps)
    have l: "line_in_matrix m (2 * j) ?W ?H" using m0 m1 hw by (simp add: line_in_matrix_def)
    show "(if line_in_matrix m (mul32 2 j) (size_t ?W) (size_t ?H)
           then Some (T (data m, mul32 2 j) (size_t ?W) (size_t ?H) c d t)
           else None) = Some (T (data m, 2 * j) ?W ?H c d t)"
      by (simp add: dd(1) sw sh l)
  qed
qed

lemma forward_transform_refines:
  assumes ok: "workspace_ok ws" and fit: "fits_int ws"
  shows "forward_transform fl ws s = Some (forward_transform_ideal fl ws s)"
proof -
  from ok have F: "size1 (fft ws) = h_res ws" "tda (fft ws) = 2 * w_res ws"
    by (simp_all add: workspace_ok_def)
  show ?thesis
    unfolding forward_transform_def forward_transform_ideal_def Let_def
    by (simp add: transform_lines_refine [OF ok fit F, of "gsl_fft_complex_forward fl"])
qed

lemma inverse_transform_refines:
  assumes ok: "workspace_ok ws" and fit: "fits_int ws"
  shows "inverse_transform fl ws s = Some (inverse_transform_ideal fl ws s)"
proof -
  from ok have C: "size1 (fft_copy ws) = h_res ws" "tda (fft_copy ws) = 2 * w_res ws"
    by (simp_all add: workspace_ok_def)
  show ?thesis
    unfolding inverse_transform_def inverse_transform_ideal_def Let_def
    by (simp add: transform_lines_refine [OF ok fit C, of "gsl_fft_complex_inverse fl"])
qed


lemma mirror_index32:
  assumes "0 \<le> i" "i < H" "0 \<le> j" "j < W" "H * (2 * W) < 2147483648"
  shows "sub32 H i smod H = (H - i) smod H"
    and "sub32 (mul32 2 W) (mul32 2 j) smod mul32 2 W = (2 * W - 2 * j) smod (2 * W)"
    and "0 \<le> (H - i) smod H" "(H - i) smod H < H"
    and "0 \<le> (2 * W - 2 * j) smod (2 * W)" "(2 * W - 2 * j) smod (2 * W) + 1 < 2 * W"
proof -
  have H: "0 < H" using assms by simp
  note d = double32 [OF assms(3,4) H assms(5)]
  have "1 * (2 * W) \<le> H * (2 * W)" using assms by (intro mult_right_mono) simp_all
  moreover have "H * 1 \<le> H * (2 * W)" using assms by (intro mult_left_mono) simp_all
  ultimately have b: "H < 2147483648" using assms(5) by simp
  have "sub32 H i = H - i" unfolding sub32_def using assms b by (intro int32_id) linarith+
  then show "sub32 H i smod H = (H - i) smod H" by simp
  have "sub32 (2 * W) (2 * j) = 2 * W - 2 * j"
    unfolding sub32_def using assms d by (intro int32_id) linarith+
  then show "sub32 (mul32 2 W) (mul32 2 j) smod mul32 2 W = (2 * W - 2 * j) smod (2 * W)"
    by (simp add: d)
  have r: "(H - i) smod H = (- i) mod H" using assms(1,2) by (rule mirror_row)
  show "0 \<le> (H - i) smod H" "(H - i) smod H < H" unfolding r using H by simp_all
  have c: "(2 * W - 2 * j) smod (2 * W) = 2 * ((- j) mod W)" using assms(3,4) by (rule mirror_col)
  have W: "0 < W" using assms by simp
  have m: "0 \<le> (- j) mod W" "(- j) mod W < W" using W by simp_all
  show "0 \<le> (2 * W - 2 * j) smod (2 * W)" "(2 * W - 2 * j) smod (2 * W) + 1 < 2 * W"
    unfolding c using m by simp_all
qed

lemma spectral_product_refines:
  assumes ok: "workspace_ok ws" and fit: "fits_int ws"
  shows "spectral_product fl ws s = Some (spectral_product_ideal fl ws s)"
proof -
  let ?H = "h_res ws" and ?W = "w_res ws" and ?F = "fft ws" and ?C = "fft_copy ws"
  from ok have F: "size1 ?F = ?H" "tda ?F = 2 * ?W" and C: "size1 ?C = ?H" "tda ?C = 2 * ?W"
    by (simp_all add: workspace_ok_def)
  note hw = workspace_ok_pos [OF ok]
  note ff = fits_int_facts [OF ok fit]
  have body: "do {
         re_h \<leftarrow> read_cell ?F (add32 (mul32 (mul32 i 2) ?W) (mul32 2 j)) t;
         im_h \<leftarrow> read_cell ?F (add32 (add32 (mul32 (mul32 i 2) ?W) (mul32 2 j)) 1) t;
         re_hs \<leftarrow> read_cell ?F
                   (add32 (mul32 (mul32 (sub32 ?H i smod ?H) 2) ?W)
                          (sub32 (mul32 2 ?W) (mul32 2 j) smod mul32 2 ?W)) t;
         im_hs' \<leftarrow> read_cell ?F
                   (add32 (add32 (mul32 (mul32 (sub32 ?H i smod ?H) 2) ?W)
                                 (sub32 (mul32 2 ?W) (mul32 2 j) smod mul32 2 ?W))
                          1) t;
         let im_hs = - im_hs';
         s' \<leftarrow> write_cell ?C (add32 (mul32 (mul32 i 2) ?W) (mul32 2 j))
                 (fl (0.5 * fl (fl (re_h * im_h) - fl (re_hs * im_hs)))) t;
         write_cell ?C (add32 (add32 (mul32 (mul32 i 2) ?W) (mul32 2 j)) 1)
           (fl (- 0.25 * fl (fl (fl (fl (re_h * re_h) - fl (im_h * im_h)) - fl (re_hs * re_hs))
                             + fl (im_hs * im_hs)))) s'
       } = Some (
         let re_h = load t (data ?F) (i * 2 * ?W + 2 * j);
             im_h = load t (data ?F) (i * 2 * ?W + 2 * j + 1);
             re_hs = load t (data ?F)
                       (((?H - i) smod ?H) * 2 * ?W + ((2 * ?W - 2 * j) smod (2 * ?W)));
             im_hs = - load t (data ?F)
                       (((?H - i) smod ?H) * 2 * ?W + ((2 * ?W - 2 * j) smod (2 * ?W)) + 1);
             s' = store (data ?C) (i * 2 * ?W + 2 * j)
                    (fl (0.5 * fl (fl (re_h * im_h) - fl (re_hs * im_hs)))) t
         in store (data ?C) (i * 2 * ?W + 2 * j + 1)
              (fl (- 0.25 * fl (fl (fl (fl (re_h * re_h) - fl (im_h * im_h)) - fl (re_hs * re_hs))
                                + fl (im_hs * im_hs)))) s')"
    if ij: "0 \<le> i" "i < ?H" "0 \<le> j" "j < ?W" for i j t
  proof -
    note d = double32 [OF ij(3,4) hw(1) ff(1)]
    note mi = mirror_index32 [OF ij ff(1)]
    have c: "2 * j < 2 * ?W" "(2 * ?W - 2 * j) smod (2 * ?W) < 2 * ?W" using d mi by simp_all
    have e0: "add32 (mul32 (mul32 i 2) ?W) (mul32 2 j) = i * 2 * ?W + 2 * j"
      unfolding d(1) by (rule row_offset32(2) [OF ij(1,2) d(4) c(1) ff(1)])
    have e1: "add32 (add32 (mul32 (mul32 i 2) ?W) (mul32 2 j)) 1 = i * 2 * ?W + 2 * j + 1"
      unfolding d(1) by (rule row_offset32_succ [OF ij(1,2) d(4,5) ff(1)])
    have e2: "add32 (mul32 (mul32 (sub32 ?H i smod ?H) 2) ?W)
                          (sub32 (mul32 2 ?W) (mul32 2 j) smod mul32 2 ?W)
        = ((?H - i) smod ?H) * 2 * ?W + ((2 * ?W - 2 * j) smod (2 * ?W))"
      unfolding mi(1,2) by (rule row_offset32(2) [OF mi(3,4,5) c(2) ff(1)])
    have e3: "add32 (add32 (mul32 (mul32 (sub32 ?H i smod ?H) 2) ?W)
                                 (sub32 (mul32 2 ?W) (mul32 2 j) smod mul32 2 ?W)) 1
        = ((?H - i) smod ?H) * 2 * ?W + ((2 * ?W - 2 * j) smod (2 * ?W)) + 1"
      unfolding mi(1,2) by (rule row_offset32_succ [OF mi(3,4,5,6) ff(1)])
    have f0: "in_matrix ?F (i * 2 * ?W + 2 * j)" by (rule in_matrix_row [OF F ij(1,2) d(4) c(1)])
    have "in_matrix ?F (i * 2 * ?W + (2 * j + 1))"
      by (rule in_matrix_row [OF F ij(1,2)]) (use d in simp_all)
    then have f1: "in_matrix ?F (i * 2 * ?W + 2 * j + 1)" by (simp add: add.assoc)
    have f2: "in_matrix ?F (((?H - i) smod ?H) * 2 * ?W + ((2 * ?W - 2 * j) smod (2 * ?W)))"
      by (rule in_matrix_row [OF F mi(3,4,5) c(2)])
    have "in_matrix ?F (((?H - i) smod ?H) * 2 * ?W + ((2 * ?W - 2 * j) smod (2 * ?W) + 1))"
      by (rule in_matrix_row [OF F mi(3,4)]) (use mi in simp_all)
    then have f3: "in_matrix ?F (((?H - i) smod ?H) * 2 * ?W + ((2 * ?W - 2 * j) smod (2 * ?W)) + 1)"
      by (simp add: add.assoc)
    have c0: "in_matrix ?C (i * 2 * ?W + 2 * j)" by (rule in_matrix_row [OF C ij(1,2) d(4) c(1)])
    have "in_matrix ?C (i * 2 * ?W + (2 * j + 1))"
      by (rule in_matrix_row [OF C ij(1,2)]) (use d in simp_all)
    then have c1: "in_matrix ?C (i * 2 * ?W + 2 * j + 1)" by (simp add: add.assoc)
    show ?thesis
      apply (subst e1, subst e1, subst e3)
      unfolding e0 e2 read_cell_def write_cell_def
      by (simp only: f0 f1 f2 f3 c0 c1 if_True Option.bind.simps Let_def)
  qed
  show ?thesis
    unfolding spectral_product_def spectral_product_ideal_def
    by (rule for_loop_opt_Some, rule for_loop_opt_Some, rule body)
qed

lemma spectral_product_get_set_refines:
  assumes ok: "workspace_ok ws" and fit: "fits_int ws"
  shows "spectral_product_get_set fl ws s = Some (spectral_product_ideal fl ws s)"
proof -
  let ?H = "h_res ws" and ?W = "w_res ws" and ?F = "fft ws" and ?C = "fft_copy ws"
  from ok have F: "size1 ?F = ?H" "size2 ?F = 2 * ?W" "tda ?F = 2 * ?W"
    and C: "size1 ?C = ?H" "size2 ?C = 2 * ?W" "tda ?C = 2 * ?W"
    by (simp_all add: workspace_ok_def)
  note hw = workspace_ok_pos [OF ok]
  note ff = fits_int_facts [OF ok fit]
  have get: "gsl_matrix_get ?F r c t = Some (load t (data ?F) (r * 2 * ?W + c))"
    if "0 \<le> r" "r < ?H" "0 \<le> c" "c < 2 * ?W" for r c t
    using that by (simp add: gsl_matrix_get_def F mult.assoc)
  have set: "gsl_matrix_set ?C r c v t = Some (store (data ?C) (r * 2 * ?W + c) v t)"
    if "0 \<le> r" "r < ?H" "0 \<le> c" "c < 2 * ?W" for r c v t
    using that by (simp add: gsl_matrix_set_def C mult.assoc)
  have succ: "add32 c 1 = c + 1" if "0 \<le> c" "c + 1 < 2 * ?W" for c
    unfolding add32_def using that ff(6) by (intro int32_id) linarith+
  have body: "do {
         re_h \<leftarrow> gsl_matrix_get ?F i (mul32 2 j) t;
         im_h \<leftarrow> gsl_matrix_get ?F i (add32 (mul32 2 j) 1) t;
         re_hs \<leftarrow> gsl_matrix_get ?F (sub32 ?H i smod ?H)
                   (sub32 (mul32 2 ?W) (mul32 2 j) smod mul32 2 ?W) t;
         im_hs' \<leftarrow> gsl_matrix_get ?F (sub32 ?H i smod ?H)
                   (add32 (sub32 (mul32 2 ?W) (mul32 2 j) smod mul32 2 ?W) 1) t;
         let im_hs = - im_hs';
         s' \<leftarrow> gsl_matrix_set ?C i (mul32 2 j)
                 (fl (0.5 * fl (fl (re_h * im_h) - fl (re_hs * im_hs)))) t;
         gsl_matrix_set ?C i (add32 (mul32 2 j) 1)
           (fl (- 0.25 * fl (fl (fl (fl (re_h * re_h) - fl (im_h * im_h)) - fl (re_hs * re_hs))
                             + fl (im_hs * im_hs)))) s'
       } = Some (
         let re_h = load t (data ?F) (i * 2 * ?W + 2 * j);
             im_h = load t (data ?F) (i * 2 * ?W + 2 * j + 1);
             re_hs = load t (data ?F)
                       (((?H - i) smod ?H) * 2 * ?W + ((2 * ?W - 2 * j) smod (2 * ?W)));
             im_hs = - load t (data ?F)
                       (((?H - i) smod ?H) * 2 * ?W + ((2 * ?W - 2 * j) smod (2 * ?W)) + 1);
             s' = store (data ?C) (i * 2 * ?W + 2 * j)
                    (fl (0.5 * fl (fl (re_h * im_h) - fl (re_hs * im_hs)))) t
         in store (data ?C) (i * 2 * ?W + 2 * j + 1)
              (fl (- 0.25 * fl (fl (fl (fl (re_h * re_h) - fl (im_h * im_h)) - fl (re_hs * re_hs))
                                + fl (im_hs * im_hs)))) s')"
    if ij: "0 \<le> i" "i < ?H" "0 \<le> j" "j < ?W" for i j t
  proof -
    note d = double32 [OF ij(3,4) hw(1) ff(1)]
    note mi = mirror_index32 [OF ij ff(1)]
    have c: "2 * j < 2 * ?W" "(2 * ?W - 2 * j) smod (2 * ?W) < 2 * ?W"
      "0 \<le> 2 * j + 1" "0 \<le> (2 * ?W - 2 * j) smod (2 * ?W) + 1"
      using d mi by simp_all
    have j1: "add32 (2 * j) 1 = 2 * j + 1" by (rule succ [OF d(4,5)])
    have c1: "add32 ((2 * ?W - 2 * j) smod (2 * ?W)) 1 = (2 * ?W - 2 * j) smod (2 * ?W) + 1"
      by (rule succ [OF mi(5,6)])
    have g0: "gsl_matrix_get ?F i (2 * j) t = Some (load t (data ?F) (i * 2 * ?W + 2 * j))"
      by (rule get [OF ij(1,2) d(4) c(1)])
    have g1: "gsl_matrix_get ?F i (2 * j + 1) t = Some (load t (data ?F) (i * 2 * ?W + 2 * j + 1))"
      using get [OF ij(1,2) c(3) d(5), of t] by (simp add: add.assoc)
    have g2: "gsl_matrix_get ?F ((?H - i) smod ?H) ((2 * ?W - 2 * j) smod (2 * ?W)) t
        = Some (load t (data ?F) (((?H - i) smod ?H) * 2 * ?W + ((2 * ?W - 2 * j) smod (2 * ?W))))"
      by (rule get [OF mi(3,4,5) c(2)])
    have g3: "gsl_matrix_get ?F ((?H - i) smod ?H) ((2 * ?W - 2 * j) smod (2 * ?W) + 1) t
        = Some (load t (data ?F) (((?H - i) smod ?H) * 2 * ?W + ((2 * ?W - 2 * j) smod (2 * ?W)) + 1))"
      using get [OF mi(3,4) c(4) mi(6), of t] by (simp add: add.assoc)
    have w0: "gsl_matrix_set ?C i (2 * j) v u = Some (store (data ?C) (i * 2 * ?W + 2 * j) v u)"
      for v u by (rule set [OF ij(1,2) d(4) c(1)])
    have w1: "gsl_matrix_set ?C i (2 * j + 1) v u = Some (store (data ?C) (i * 2 * ?W + 2 * j + 1) v u)"
      for v u using set [OF ij(1,2) c(3) d(5), of v u] by (simp add: add.assoc)
    show ?thesis
      apply (subst mi(2), subst mi(2))
      unfolding mi(1) d(1) unfolding j1 c1
      by (simp only: g0 g1 g2 g3 w0 w1 Option.bind.simps Let_def)
  qed
  show ?thesis
    unfolding spectral_product_get_set_def spectral_product_ideal_def
    by (rule for_loop_opt_Some, rule for_loop_opt_Some, rule body)
qed

text \<open>
  The two linear routines and \<open>convolve\<close> in their modes: within the range of int, a call
  returns, and leaves what the stages without overflow leave.
\<close>

lemma view_array_fields [simp]:
  "size1 (gsl_matrix_view_array b n1 n2) = n1" "size2 (gsl_matrix_view_array b n1 n2) = n2"
  "tda (gsl_matrix_view_array b n1 n2) = n2" "data (gsl_matrix_view_array b n1 n2) = b"
  by (simp_all add: gsl_matrix_view_array_def)



lemma working_size_refines:
  assumes pos: "0 < hs" "0 < wsrc" "0 < hk" "0 < wk"
    and b: "hs + hk < 2147483648" "wsrc + wk < 2147483648"
  shows "working_size ws m hs wsrc hk wk = working_size_ideal ws m hs wsrc hk wk"
proof -
  have half: "(hk + 1) div 2 \<le> hk" "(wk + 1) div 2 \<le> wk" "0 \<le> (hk + 1) div 2" "0 \<le> (wk + 1) div 2"
    using pos by simp_all
  have a1: "add32 hk 1 = hk + 1" unfolding add32_def using pos b by (intro int32_id) linarith+
  have a2: "add32 wk 1 = wk + 1" unfolding add32_def using pos b by (intro int32_id) linarith+
  have sd: "(hk + 1) sdiv 2 = (hk + 1) div 2" "(wk + 1) sdiv 2 = (wk + 1) div 2" using pos by simp_all
  have a3: "add32 hs ((hk + 1) div 2) = hs + (hk + 1) div 2"
    unfolding add32_def using pos b half by (intro int32_id) linarith+
  have a4: "add32 wsrc ((wk + 1) div 2) = wsrc + (wk + 1) div 2"
    unfolding add32_def using pos b half by (intro int32_id) linarith+
  have a5: "add32 hs hk = hs + hk" unfolding add32_def using pos b by (intro int32_id) linarith+
  have a6: "add32 wsrc wk = wsrc + wk" unfolding add32_def using pos b by (intro int32_id) linarith+
  show ?thesis
    unfolding working_size_def working_size_ideal_def a1 a2 sd a3 a4 a5 a6 by (rule refl)
qed

lemma init_workspace_refines:
  assumes pos: "0 < hs" "0 < wsrc" "0 < hk" "0 < wk"
    and m: "m = LINEAR \<or> m = LINEAR_OPTIMAL \<or> m = CIRCULAR \<or> m = CIRCULAR_OPTIMAL"
    and init: "init_workspace ws0 m hs wsrc hk wk s = Some (ws, s')"
    and fit: "fits_int ws"
  shows "init_workspace_ideal ws0 m hs wsrc hk wk s = Some (ws, s')"
proof -
  obtain h w where hw: "working_size ws0 m hs wsrc hk wk = Some (h, w)"
    using init by (auto simp: init_workspace_def split: option.splits)
  from init hw have f: "h_src ws = hs" "w_src ws = wsrc" "h_kernel ws = hk" "w_kernel ws = wk"
    "h_res ws = h" "w_res ws = w"
    by (auto simp: init_workspace_def gsl_matrix_alloc_def alloc_def Let_def)
  from fit f have b: "hs + hk < 2147483648" "wsrc + wk < 2147483648" "h * (2 * w) < 2147483648"
    by (simp_all add: fits_int_def)
  have ws_eq: "working_size ws0 m hs wsrc hk wk = working_size_ideal ws0 m hs wsrc hk wk"
    by (rule working_size_refines [OF pos b(1,2)])
  from working_size_recognized [OF pos m, of ws0] hw ws_eq
  have r: "m = LINEAR \<longrightarrow> h = hs + (hk + 1) div 2 \<and> w = wsrc + (wk + 1) div 2"
    "m = LINEAR_OPTIMAL \<longrightarrow> hs + (hk + 1) div 2 \<le> h \<and> wsrc + (wk + 1) div 2 \<le> w"
    "m = CIRCULAR \<longrightarrow> h = hs + hk \<and> w = wsrc + wk"
    "m = CIRCULAR_OPTIMAL \<longrightarrow> hs + hk \<le> h \<and> wsrc + wk \<le> w"
    by auto
  have nn: "0 \<le> (hk + 1) div 2" "0 \<le> (wk + 1) div 2" using pos by simp_all
  from m consider "m = LINEAR" | "m = LINEAR_OPTIMAL" | "m = CIRCULAR" | "m = CIRCULAR_OPTIMAL"
    by blast
  then have ge: "0 < h \<and> 0 < w"
  proof cases
    case 1 with r(1) nn pos show ?thesis by linarith
  next
    case 2 with r(2) nn pos show ?thesis by linarith
  next
    case 3 with r(3) pos show ?thesis by linarith
  next
    case 4 with r(4) pos show ?thesis by linarith
  qed
  have "1 * (2 * w) \<le> h * (2 * w)" using ge by (intro mult_right_mono) simp_all
  then have w2: "2 * w < 2147483648" using b(3) by simp
  have "h * 1 \<le> h * (2 * w)" using ge by (intro mult_left_mono) simp_all
  then have h2: "h < 2147483648" using b(3) by simp
  have m2: "mul32 2 w = 2 * w" unfolding mul32_def using ge w2 by (intro int32_id) linarith+
  have sz: "size_t h = h" "size_t (2 * w) = 2 * w" using ge h2 w2 by (simp_all add: size_t_small)
  from init show ?thesis
    by (simp add: init_workspace_def init_workspace_ideal_def hw ws_eq [symmetric] m2 sz)
qed


lemma wrap_index_refines:
  assumes "0 < k" "0 < n" "n + k < 2147483648" "0 \<le> i" "i < n + k"
  shows "wrap_index i k n = wrap_index_ideal i k n"
proof -
  let ?c = "(k + 1) div 2"
  have c: "0 \<le> ?c" "?c \<le> k" using assms(1) by simp_all
  have a1: "add32 k 1 = k + 1" unfolding add32_def using assms by (intro int32_id) linarith+
  have sd: "(k + 1) sdiv 2 = ?c" using assms(1) by simp
  have a2: "sub32 i ?c = i - ?c" unfolding sub32_def using assms c by (intro int32_id) linarith+
  have a3: "add32 (i - ?c) n = i - ?c + n" if "i - ?c < 0"
    unfolding add32_def using that assms c by (intro int32_id) linarith+
  have a4: "sub32 (i - ?c) n = i - ?c - n" if "\<not> i - ?c < 0"
    unfolding sub32_def using that assms c by (intro int32_id) linarith+
  show ?thesis
    unfolding wrap_index_def wrap_index_ideal_def a1 sd a2 Let_def
    using a3 a4 by simp
qed

lemma sum_bounds32:
  assumes ok: "workspace_ok ws" and fit: "fits_int ws"
  shows "add32 (h_src ws) (h_kernel ws) = h_src ws + h_kernel ws"
    "add32 (w_src ws) (w_kernel ws) = w_src ws + w_kernel ws"
    "add32 (h_kernel ws) 1 sdiv 2 = (h_kernel ws + 1) div 2"
    "add32 (w_kernel ws) 1 sdiv 2 = (w_kernel ws + 1) div 2"
proof -
  from ok have pos: "0 < h_src ws" "0 < w_src ws" "0 < h_kernel ws" "0 < w_kernel ws"
    by (simp_all add: workspace_ok_def)
  note ff = fits_int_facts [OF ok fit]
  show "add32 (h_src ws) (h_kernel ws) = h_src ws + h_kernel ws"
    unfolding add32_def using pos ff by (intro int32_id) linarith+
  show "add32 (w_src ws) (w_kernel ws) = w_src ws + w_kernel ws"
    unfolding add32_def using pos ff by (intro int32_id) linarith+
  have "add32 (h_kernel ws) 1 = h_kernel ws + 1"
    unfolding add32_def using pos ff by (intro int32_id) linarith+
  then show "add32 (h_kernel ws) 1 sdiv 2 = (h_kernel ws + 1) div 2" using pos by simp
  have "add32 (w_kernel ws) 1 = w_kernel ws + 1"
    unfolding add32_def using pos ff by (intro int32_id) linarith+
  then show "add32 (w_kernel ws) 1 sdiv 2 = (w_kernel ws + 1) div 2" using pos by simp
qed

lemma pack_source_wrapped_refines:
  assumes ok: "workspace_ok ws" and fit: "fits_int ws"
    and geo: "h_src ws + h_kernel ws \<le> h_res ws" "w_src ws + w_kernel ws \<le> w_res ws"
    and pre: "(h_kernel ws + 1) div 2 \<le> h_src ws" "(w_kernel ws + 1) div 2 \<le> w_src ws"
    and sv: "size1 src = h_src ws" "tda src = w_src ws"
  shows "pack_source_wrapped ws src s = Some (pack_source_wrapped_ideal ws src s)"
proof -
  let ?H = "h_res ws" and ?W = "w_res ws"
  let ?hs = "h_src ws" and ?wsrc = "w_src ws" and ?hk = "h_kernel ws" and ?wk = "w_kernel ws"
  from ok have pos: "0 < ?hs" "0 < ?wsrc" "0 < ?hk" "0 < ?wk"
    and F: "size1 (fft ws) = ?H" "tda (fft ws) = 2 * ?W"
    by (simp_all add: workspace_ok_def)
  note hw = workspace_ok_pos [OF ok]
  note ff = fits_int_facts [OF ok fit]
  note sb = sum_bounds32 [OF ok fit]
  have body: "do {
         v \<leftarrow> read_cell src (add32 (mul32 (wrap_index i ?hk ?hs) ?wsrc) (wrap_index j ?wk ?wsrc)) t;
         write_cell (fft ws) (add32 (mul32 (mul32 i 2) ?W) (mul32 2 j)) v t
       } = Some (store (data (fft ws)) (i * 2 * ?W + 2 * j)
                   (load t (data src) (wrap_index_ideal i ?hk ?hs * ?wsrc + wrap_index_ideal j ?wk ?wsrc)) t)"
    if ij: "0 \<le> i" "i < ?hs + ?hk" "0 \<le> j" "j < ?wsrc + ?wk" for i j t
  proof -
    have i: "i < ?H" and j: "j < ?W" using ij geo by simp_all
    note d = double32 [OF ij(3) j hw(1) ff(1)]
    have c: "2 * j < 2 * ?W" using d by simp
    have wi: "wrap_index i ?hk ?hs = wrap_index_ideal i ?hk ?hs"
      by (rule wrap_index_refines [OF pos(3,1) ff(11) ij(1,2)])
    have wj: "wrap_index j ?wk ?wsrc = wrap_index_ideal j ?wk ?wsrc"
      by (rule wrap_index_refines [OF pos(4,2) ff(12) ij(3,4)])
    have ri: "0 \<le> wrap_index_ideal i ?hk ?hs" "wrap_index_ideal i ?hk ?hs < ?hs"
      using wrap_index_range [OF pos(3) pre(1) ij(1,2)] by simp_all
    have rj: "0 \<le> wrap_index_ideal j ?wk ?wsrc" "wrap_index_ideal j ?wk ?wsrc < ?wsrc"
      using wrap_index_range [OF pos(4) pre(2) ij(3,4)] by simp_all
    have e1: "add32 (mul32 (wrap_index_ideal i ?hk ?hs) ?wsrc) (wrap_index_ideal j ?wk ?wsrc)
        = wrap_index_ideal i ?hk ?hs * ?wsrc + wrap_index_ideal j ?wk ?wsrc"
      by (rule flat_offset32(1) [OF ri rj ff(3)])
    have e2: "add32 (mul32 (mul32 i 2) ?W) (mul32 2 j) = i * 2 * ?W + 2 * j"
      unfolding d(1) by (rule row_offset32(2) [OF ij(1) i d(4) c ff(1)])
    have m1: "in_matrix src (wrap_index_ideal i ?hk ?hs * ?wsrc + wrap_index_ideal j ?wk ?wsrc)"
      by (rule in_matrix_flat [OF sv ri rj])
    have m2: "in_matrix (fft ws) (i * 2 * ?W + 2 * j)"
      by (rule in_matrix_row [OF F ij(1) i d(4) c])
    show ?thesis unfolding wi wj by (simp add: e1 e2 read_cell_def write_cell_def m1 m2)
  qed
  show ?thesis
    unfolding pack_source_wrapped_def pack_source_wrapped_ideal_def sb Let_def
    by (rule for_loop_opt_Some, rule for_loop_opt_Some, rule body)
qed

lemma extract_central_refines:
  assumes ok: "workspace_ok ws" and fit: "fits_int ws"
    and geo: "h_src ws + h_kernel ws \<le> h_res ws" "w_src ws + w_kernel ws \<le> w_res ws"
    and dv: "size1 dst = h_src ws" "tda dst = w_src ws"
  shows "extract_central ws dst s = Some (extract_central_ideal ws dst s)"
proof -
  let ?H = "h_res ws" and ?W = "w_res ws"
  let ?ch = "(h_kernel ws + 1) div 2" and ?cw = "(w_kernel ws + 1) div 2"
  from ok have pos: "0 < h_src ws" "0 < w_src ws" "0 < h_kernel ws" "0 < w_kernel ws"
    and C: "size1 (fft_copy ws) = ?H" "tda (fft_copy ws) = 2 * ?W"
    by (simp_all add: workspace_ok_def)
  note hw = workspace_ok_pos [OF ok]
  note ff = fits_int_facts [OF ok fit]
  note sb = sum_bounds32 [OF ok fit]
  have sd: "(h_kernel ws + 1) sdiv 2 = ?ch" "(w_kernel ws + 1) sdiv 2 = ?cw" using pos by simp_all
  have ch: "0 \<le> ?ch" "?ch \<le> h_kernel ws" "0 \<le> ?cw" "?cw \<le> w_kernel ws" using pos by simp_all
  have body: "do {
         v \<leftarrow> read_cell (fft_copy ws)
                (add32 (mul32 (mul32 (add32 i ?ch) 2) ?W) (mul32 2 (add32 ?cw j))) t;
         write_cell dst (add32 (mul32 i (w_src ws)) j) v t
       } = Some (store (data dst) (i * w_src ws + j)
           (load t (data (fft_copy ws)) ((i + ?ch) * 2 * ?W + 2 * (?cw + j))) t)"
    if ij: "0 \<le> i" "i < h_src ws" "0 \<le> j" "j < w_src ws" for i j t
  proof -
    have i: "0 \<le> i + ?ch" "i + ?ch < ?H" and j: "0 \<le> ?cw + j" "?cw + j < ?W"
      using ij geo ch by linarith+
    have a1: "add32 i ?ch = i + ?ch" unfolding add32_def using i ff(4) by (intro int32_id) linarith+
    have a2: "add32 ?cw j = ?cw + j" unfolding add32_def using j ff(5) by (intro int32_id) linarith+
    note d = double32 [OF j hw(1) ff(1)]
    have c: "2 * (?cw + j) < 2 * ?W" using d by simp
    have e1: "add32 (mul32 i (w_src ws)) j = i * w_src ws + j"
      by (rule flat_offset32(1) [OF ij ff(3)])
    have e2: "add32 (mul32 (mul32 (i + ?ch) 2) ?W) (mul32 2 (?cw + j)) = (i + ?ch) * 2 * ?W + 2 * (?cw + j)"
      unfolding d(1) by (rule row_offset32(2) [OF i d(4) c ff(1)])
    have m1: "in_matrix dst (i * w_src ws + j)" by (rule in_matrix_flat [OF dv ij])
    have m2: "in_matrix (fft_copy ws) ((i + ?ch) * 2 * ?W + 2 * (?cw + j))"
      by (rule in_matrix_row [OF C i d(4) c])
    show ?thesis unfolding a1 a2 e1 e2 read_cell_def write_cell_def
      by (simp only: m1 m2 if_True Option.bind.simps)
  qed
  show ?thesis
    unfolding extract_central_def extract_central_ideal_def sb sd
    by (rule for_loop_opt_Some, rule for_loop_opt_Some, rule body)
qed

lemma convolve_circular_optimal_refines:
  assumes ok: "workspace_ok ws" and fit: "fits_int ws"
    and geo: "h_src ws + h_kernel ws \<le> h_res ws" "w_src ws + w_kernel ws \<le> w_res ws"
    and pre: "(h_kernel ws + 1) div 2 \<le> h_src ws" "(w_kernel ws + 1) div 2 \<le> w_src ws"
    and m: "mode ws = CIRCULAR_OPTIMAL"
  shows "convolve ws src kern dst s =
           Some (extract_central_ideal ws (gsl_matrix_view_array dst (h_src ws) (w_src ws))
             (inverse_transform_ideal (rounding s) ws
             (spectral_product_ideal (rounding s) ws (forward_transform_ideal (rounding s) ws
               (pack_kernel_ideal ws (gsl_matrix_view_array kern (h_kernel ws) (w_kernel ws))
                 (pack_source_wrapped_ideal ws (gsl_matrix_view_array src (h_src ws) (w_src ws))
                   (gsl_matrix_set_zero (fft ws) s)))))))"
proof -
  from ok have pos: "0 < h_src ws" "0 < w_src ws" "0 < h_kernel ws" "0 < w_kernel ws"
    by (simp_all add: workspace_ok_def)
  note ff = fits_int_facts [OF ok fit]
  have sz: "size_t (h_src ws) = h_src ws" "size_t (w_src ws) = w_src ws"
    "size_t (h_kernel ws) = h_kernel ws" "size_t (w_kernel ws) = w_kernel ws"
    using pos ff by (simp_all add: size_t_small)
  let ?sv = "gsl_matrix_view_array src (h_src ws) (w_src ws)"
  let ?kv = "gsl_matrix_view_array kern (h_kernel ws) (w_kernel ws)"
  let ?dv = "gsl_matrix_view_array dst (h_src ws) (w_src ws)"
  have a: "pack_source_wrapped ws ?sv t = Some (pack_source_wrapped_ideal ws ?sv t)" for t
    by (rule pack_source_wrapped_refines [OF ok fit geo pre]) simp_all
  have b: "pack_kernel ws ?kv t = Some (pack_kernel_ideal ws ?kv t)" for t
    by (rule pack_kernel_refines [OF ok fit]) simp_all
  have c: "extract_central ws ?dv t = Some (extract_central_ideal ws ?dv t)" for t
    by (rule extract_central_refines [OF ok fit geo]) simp_all
  from m show ?thesis
    by (simp add: convolve_def circular_convolution_optimal_def Let_def sz mode_defs a b c
        forward_transform_refines [OF ok fit] spectral_product_refines [OF ok fit]
        inverse_transform_refines [OF ok fit])
qed

lemma convolve_circular_optimal_result:
  assumes ok: "workspace_ok ws" and fit: "fits_int ws"
    and geo: "h_src ws + h_kernel ws \<le> h_res ws" "w_src ws + w_kernel ws \<le> w_res ws"
    and pre: "(h_kernel ws + 1) div 2 \<le> h_src ws" "(w_kernel ws + 1) div 2 \<le> w_src ws"
    and m: "mode ws = CIRCULAR_OPTIMAL"
    and exact: "\<And>x. rounding s x = x"
    and S: "src \<noteq> data (fft ws)" and K: "kern \<noteq> data (fft ws)" and D: "data (fft_copy ws) \<noteq> dst"
    and pq: "0 \<le> p" "p < h_src ws" "0 \<le> q" "q < w_src ws"
  shows "\<exists>s'. convolve ws src kern dst s = Some s' \<and>
           load s' dst (p * w_src ws + q)
             = periodic_convolution (h_src ws) (w_src ws) (h_kernel ws) (w_kernel ws)
                 (load s src) (load s kern) p q"
proof -
  let ?sv = "gsl_matrix_view_array src (h_src ws) (w_src ws)"
  let ?kv = "gsl_matrix_view_array kern (h_kernel ws) (w_kernel ws)"
  let ?dv = "gsl_matrix_view_array dst (h_src ws) (w_src ws)"
  from ok have pos: "0 < h_src ws" "0 < w_src ws" "0 < h_kernel ws" "0 < w_kernel ws"
    by (simp_all add: workspace_ok_def)
  have fl: "rounding s = (\<lambda>x. x)" by (rule ext) (rule exact)
  have S': "data ?sv \<noteq> data (fft ws)" and K': "data ?kv \<noteq> data (fft ws)"
    and D': "data (fft_copy ws) \<noteq> data ?dv"
    using S K D by simp_all
  from wrapped_result [OF ok S' K' D' geo pq, of s]
    convolve_circular_optimal_refines [OF ok fit geo pre m, of src kern dst s]
    wrapped_is_periodic [OF pos pre pq, of "load s src" "load s kern"]
  show ?thesis by (simp add: fl)
qed

lemma pack_source_columns_refines:
  assumes ok: "workspace_ok ws" and fit: "fits_int ws"
  shows "pack_source_columns ws src s = pack_source_columns_ideal ws src s"
proof -
  from ok have pos: "0 < h_src ws" "0 < w_src ws" by (simp_all add: workspace_ok_def)
  note hw = workspace_ok_pos [OF ok]
  note ff = fits_int_facts [OF ok fit]
  have bw: "uint32 (w_src ws) = w_src ws" using pos ff by (intro uint32_small) simp_all
  have sh: "size_t (h_src ws) = h_src ws" using pos ff by (intro size_t_small) simp_all
  show ?thesis
    unfolding pack_source_columns_def pack_source_columns_ideal_def bw sh
  proof (rule for_loop_cong)
    fix i :: int and t :: machine
    assume i: "0 \<le> i" "i < w_src ws"
    have m: "mulu 2 i = 2 * i" unfolding mulu_def using i hw ff by (intro uint32_small) linarith+
    show "(let xv = gsl_matrix_subcolumn (fft ws) (mulu 2 i) 0 (h_src ws);
               yv = gsl_matrix_column src i
           in gsl_vector_memcpy xv yv t) =
          (let xv = gsl_matrix_subcolumn (fft ws) (2 * i) 0 (h_src ws);
               yv = gsl_matrix_column src i
           in gsl_vector_memcpy xv yv t)"
      unfolding m by (rule refl)
  qed
qed

lemma extract_columns_refines:
  assumes ok: "workspace_ok ws" and fit: "fits_int ws"
  shows "extract_columns ws dst s = extract_columns_ideal ws dst s"
proof -
  from ok have pos: "0 < h_src ws" "0 < w_src ws" by (simp_all add: workspace_ok_def)
  note hw = workspace_ok_pos [OF ok]
  note ff = fits_int_facts [OF ok fit]
  have bw: "uint32 (w_src ws) = w_src ws" using pos ff by (intro uint32_small) simp_all
  have sh: "size_t (h_src ws) = h_src ws" using pos ff by (intro size_t_small) simp_all
  show ?thesis
    unfolding extract_columns_def extract_columns_ideal_def bw sh
  proof (rule for_loop_cong)
    fix i :: int and t :: machine
    assume i: "0 \<le> i" "i < w_src ws"
    have m: "mulu 2 i = 2 * i" unfolding mulu_def using i hw ff by (intro uint32_small) linarith+
    show "(let xv = gsl_matrix_subcolumn (fft_copy ws) (mulu 2 i) 0 (h_src ws)
           in gsl_matrix_set_col dst i xv t) =
          (let xv = gsl_matrix_subcolumn (fft_copy ws) (2 * i) 0 (h_src ws)
           in gsl_matrix_set_col dst i xv t)"
      unfolding m by (rule refl)
  qed
qed

lemma pack_kernel_quadrants_refines:
  assumes ok: "workspace_ok ws" and fit: "fits_int ws"
  shows "pack_kernel_quadrants ws kern s = pack_kernel_quadrants_ideal ws kern s"
proof -
  let ?H = "h_res ws" and ?W = "w_res ws" and ?hk = "h_kernel ws" and ?wk = "w_kernel ws"
  from ok have pos: "0 < h_src ws" "0 < w_src ws" "0 < ?hk" "0 < ?wk"
    and room: "h_src ws + (?hk + 1) div 2 \<le> ?H" "w_src ws + (?wk + 1) div 2 \<le> ?W"
    by (simp_all add: workspace_ok_def)
  note hw = workspace_ok_pos [OF ok]
  note ff = fits_int_facts [OF ok fit]
  define c where "c = ?wk sdiv 2"
  define d where "d = ?hk sdiv 2"
  define e where "e = (?hk + 1) sdiv 2"
  have cd: "c = ?wk div 2" "d = ?hk div 2" "e = (?hk + 1) div 2"
    using pos by (simp_all add: c_def d_def e_def)
  have c: "0 \<le> c" "c \<le> ?wk" "c \<le> ?W" "2 * c \<le> ?wk" "?wk \<le> 2 * c + 1"
    using pos room unfolding cd by linarith+
  have d: "0 \<le> d" "d \<le> ?hk" "d \<le> ?H" using pos room unfolding cd by linarith+
  have e: "0 \<le> e" "e \<le> ?hk" using pos unfolding cd by linarith+
  have uc: "uint32 c = c" using c ff by (intro uint32_small) linarith+
  have uw: "uint32 ?wk = ?wk" using pos ff by (intro uint32_small) linarith+
  have sd: "size_t d = d" using d ff by (intro size_t_small) linarith+
  have a1: "add32 ?hk 1 = ?hk + 1" unfolding add32_def using pos ff by (intro int32_id) linarith+
  have se: "size_t (add32 ?hk 1 sdiv 2) = e"
    unfolding a1 e_def [symmetric] using e ff by (intro size_t_small) linarith+
  have hd: "size_t (sub32 ?H d) = ?H - d"
  proof -
    have "sub32 ?H d = ?H - d" unfolding sub32_def using d hw ff by (intro int32_id) linarith+
    then show ?thesis using d ff by (simp add: size_t_small)
  qed
  have base: "uint32 (sub32 (mul32 2 ?W) (mul32 2 c)) = 2 * ?W - 2 * c"
  proof -
    have m1: "mul32 2 ?W = 2 * ?W" unfolding mul32_def using hw ff by (intro int32_id) linarith+
    have m2: "mul32 2 c = 2 * c" unfolding mul32_def using c pos ff by (intro int32_id) linarith+
    have m3: "sub32 (2 * ?W) (2 * c) = 2 * ?W - 2 * c"
      unfolding sub32_def using c hw ff by (intro int32_id) linarith+
    show ?thesis unfolding m1 m2 m3 using c ff by (intro uint32_small) linarith+
  qed
  define f1 where "f1 = (\<lambda>i s.
                 let xv = gsl_matrix_subcolumn (fft ws)
                            (addu (addu (uint32 (sub32 (mul32 2 ?W) (mul32 2 c))) (mulu 2 i)) 1)
                            (size_t (sub32 ?H d)) (size_t d);
                     yv = gsl_matrix_subcolumn kern i 0 (size_t d);
                     s' = gsl_vector_memcpy xv yv s;
                     xv = gsl_matrix_subcolumn (fft ws)
                            (addu (addu (uint32 (sub32 (mul32 2 ?W) (mul32 2 c))) (mulu 2 i)) 1)
                            0 (size_t (add32 ?hk 1 sdiv 2));
                     yv = gsl_matrix_subcolumn kern i (size_t d) (size_t (add32 ?hk 1 sdiv 2))
                 in gsl_vector_memcpy xv yv s')"
  define f2 where "f2 = (\<lambda>i s.
           let xv = gsl_matrix_subcolumn (fft ws) (addu (mulu 2 (subu i (uint32 c))) 1)
                      (size_t (sub32 ?H d)) (size_t d);
               yv = gsl_matrix_subcolumn kern i 0 (size_t d);
               s' = gsl_vector_memcpy xv yv s;
               xv = gsl_matrix_subcolumn (fft ws) (addu (mulu 2 (subu i (uint32 c))) 1)
                      0 (size_t (add32 ?hk 1 sdiv 2));
               yv = gsl_matrix_subcolumn kern i (size_t d) (size_t (add32 ?hk 1 sdiv 2))
           in gsl_vector_memcpy xv yv s')"
  define g1 where "g1 = (\<lambda>i s.
                 let xv = gsl_matrix_subcolumn (fft ws) (2 * ?W - 2 * c + 2 * i + 1) (?H - d) d;
                     yv = gsl_matrix_subcolumn kern i 0 d;
                     s' = gsl_vector_memcpy xv yv s;
                     xv = gsl_matrix_subcolumn (fft ws) (2 * ?W - 2 * c + 2 * i + 1) 0 e;
                     yv = gsl_matrix_subcolumn kern i d e
                 in gsl_vector_memcpy xv yv s')"
  define g2 where "g2 = (\<lambda>i s.
           let xv = gsl_matrix_subcolumn (fft ws) (2 * (i - c) + 1) (?H - d) d;
               yv = gsl_matrix_subcolumn kern i 0 d;
               s' = gsl_vector_memcpy xv yv s;
               xv = gsl_matrix_subcolumn (fft ws) (2 * (i - c) + 1) 0 e;
               yv = gsl_matrix_subcolumn kern i d e
           in gsl_vector_memcpy xv yv s')"
  have F: "pack_kernel_quadrants ws kern s = for_loop (uint32 c) (uint32 ?wk) f2 (for_loop 0 (uint32 c) f1 s)"
    unfolding pack_kernel_quadrants_def f1_def f2_def c_def d_def by (simp only: Let_def)
  have G: "pack_kernel_quadrants_ideal ws kern s = for_loop c ?wk g2 (for_loop 0 c g1 s)"
    unfolding pack_kernel_quadrants_ideal_def g1_def g2_def c_def d_def e_def by (simp only: Let_def)
  have l: "for_loop 0 c f1 t = for_loop 0 c g1 t" for t
  proof (rule for_loop_cong)
    fix i :: int and u :: machine
    assume i: "0 \<le> i" "i < c"
    have m: "mulu 2 i = 2 * i" unfolding mulu_def using i c pos ff by (intro uint32_small) linarith+
    have a: "addu (2 * ?W - 2 * c) (2 * i) = 2 * ?W - 2 * c + 2 * i"
      unfolding addu_def using i c hw ff by (intro uint32_small) linarith+
    have b: "addu (2 * ?W - 2 * c + 2 * i) 1 = 2 * ?W - 2 * c + 2 * i + 1"
      unfolding addu_def using i c hw ff by (intro uint32_small) linarith+
    show "f1 i u = g1 i u" unfolding f1_def g1_def base m a b hd sd se by (rule refl)
  qed
  have r: "for_loop c ?wk f2 t = for_loop c ?wk g2 t" for t
  proof (rule for_loop_cong)
    fix i :: int and u :: machine
    assume i: "c \<le> i" "i < ?wk"
    have su: "subu i c = i - c" unfolding subu_def using i c pos ff by (intro uint32_small) linarith+
    have ic: "0 \<le> i - c" "i - c < 1073741824" using i c(1,4,5) ff(10) by linarith+
    have m: "mulu 2 (i - c) = 2 * (i - c)"
      unfolding mulu_def using ic by (intro uint32_small) simp_all
    have b: "addu (2 * (i - c)) 1 = 2 * (i - c) + 1"
      unfolding addu_def using ic by (intro uint32_small) simp_all
    show "f2 i u = g2 i u" unfolding f2_def g2_def uc su m b hd sd se by (rule refl)
  qed
  show ?thesis unfolding F G uc uw l r by (rule refl)
qed

lemma convolve_circular_refines:
  assumes ok: "workspace_ok ws" and fit: "fits_int ws" and m: "mode ws = CIRCULAR"
  shows "convolve ws src kern dst s =
           Some (extract_columns_ideal ws (gsl_matrix_view_array dst (h_src ws) (w_src ws))
             (inverse_transform_ideal (rounding s) ws
             (spectral_product_ideal (rounding s) ws (forward_transform_ideal (rounding s) ws
               (pack_kernel_quadrants_ideal ws (gsl_matrix_view_array kern (h_kernel ws) (w_kernel ws))
                 (pack_source_columns_ideal ws (gsl_matrix_view_array src (h_src ws) (w_src ws))
                   (gsl_matrix_set_zero (fft ws) s)))))))"
proof -
  from ok have pos: "0 < h_src ws" "0 < w_src ws" "0 < h_kernel ws" "0 < w_kernel ws"
    by (simp_all add: workspace_ok_def)
  note ff = fits_int_facts [OF ok fit]
  have sz: "size_t (h_src ws) = h_src ws" "size_t (w_src ws) = w_src ws"
    "size_t (h_kernel ws) = h_kernel ws" "size_t (w_kernel ws) = w_kernel ws"
    using pos ff by (simp_all add: size_t_small)
  from m show ?thesis
    by (simp add: convolve_def circular_convolution_def Let_def sz mode_defs
        pack_source_columns_refines [OF ok fit] pack_kernel_quadrants_refines [OF ok fit]
        extract_columns_refines [OF ok fit]
        forward_transform_refines [OF ok fit] spectral_product_get_set_refines [OF ok fit]
        inverse_transform_refines [OF ok fit])
qed

lemma convolve_circular_result:
  assumes ok: "workspace_ok ws" and fit: "fits_int ws"
    and geo: "h_kernel ws \<le> h_res ws" "w_kernel ws \<le> w_res ws"
    and m: "mode ws = CIRCULAR"
    and exact: "\<And>x. rounding s x = x"
    and S: "src \<noteq> data (fft ws)" and K: "kern \<noteq> data (fft ws)" and D: "data (fft_copy ws) \<noteq> dst"
    and pq: "0 \<le> p" "p < h_src ws" "0 \<le> q" "q < w_src ws"
  shows "\<exists>s'. convolve ws src kern dst s = Some s' \<and>
           load s' dst (p * w_src ws + q)
             = direct_convolution (h_src ws) (w_src ws) (h_kernel ws) (w_kernel ws)
                 (load s src) (load s kern) p q"
proof -
  let ?sv = "gsl_matrix_view_array src (h_src ws) (w_src ws)"
  let ?kv = "gsl_matrix_view_array kern (h_kernel ws) (w_kernel ws)"
  let ?dv = "gsl_matrix_view_array dst (h_src ws) (w_src ws)"
  have fl: "rounding s = (\<lambda>x. x)" by (rule ext) (rule exact)
  have S': "data ?sv \<noteq> data (fft ws)" and K': "data ?kv \<noteq> data (fft ws)"
    and D': "data (fft_copy ws) \<noteq> data ?dv"
    using S K D by simp_all
  have v: "size1 ?sv = h_src ws" "tda ?sv = w_src ws" "tda ?kv = w_kernel ws"
    "size1 ?dv = h_src ws" "tda ?dv = w_src ws"
    by simp_all
  from circular_padded_result [OF ok S' K' D' v geo pq, of s]
    convolve_circular_refines [OF ok fit m, of src kern dst s]
  show ?thesis by (simp add: fl)
qed

section \<open>Workspaces of the examples\<close>

lemma init_workspace_returns:
  assumes "working_size ws m hs wsrc hk wk = Some (h, w)"
  shows "\<exists>ws' s'. init_workspace ws m hs wsrc hk wk s = Some (ws', s') \<and>
           h_src ws' = hs \<and> w_src ws' = wsrc \<and> h_kernel ws' = hk \<and> w_kernel ws' = wk \<and>
           h_res ws' = h \<and> w_res ws' = w \<and> mode ws' = m"
  using assms by (simp add: init_workspace_def gsl_matrix_alloc_def alloc_def)

lemma workspace2_init:
  "init_workspace workspace0 CIRCULAR_OPTIMAL 4 4 3 3 machine0 = Some (workspace2, machine1)"
proof -
  have "find_closest_factor 7 GSL_FACTORS = Some 7" by (rule find_closest_factor_member) simp
  then show ?thesis
    by (simp add: init_workspace_def working_size_def gsl_matrix_alloc_def alloc_def workspace0_def
      machine0_def workspace2_def machine1_def null_matrix_def mode_defs add32_def mul32_def
      int32_def size_t_def)
qed

lemma workspace2_ok: "workspace_ok workspace2" "fits_int workspace2"
  by (simp_all add: workspace_ok_def fits_int_def workspace2_def)

lemma wrap_index_ideal_in_range_iff:
  assumes "0 < hs" "0 < wsrc" "0 < hk" "0 < wk"
  shows "(\<forall>i j. 0 \<le> i \<and> i < hs + hk \<and> 0 \<le> j \<and> j < wsrc + wk \<longrightarrow>
             0 \<le> wrap_index_ideal i hk hs \<and> wrap_index_ideal i hk hs < hs \<and>
             0 \<le> wrap_index_ideal j wk wsrc \<and> wrap_index_ideal j wk wsrc < wsrc)
          \<longleftrightarrow> (hk + 1) div 2 \<le> hs \<and> (wk + 1) div 2 \<le> wsrc"
    (is "?inb \<longleftrightarrow> ?pre")
proof
  assume inb: ?inb
  have "0 \<le> wrap_index_ideal 0 hk hs \<and> 0 \<le> wrap_index_ideal 0 wk wsrc"
    using inb [rule_format, of 0 0] assms by simp
  then have "0 \<le> wrap_index_ideal 0 hk hs" "0 \<le> wrap_index_ideal 0 wk wsrc" by simp_all
  moreover have "0 < (hk + 1) div 2" "0 < (wk + 1) div 2" using assms by simp_all
  ultimately show ?pre using assms by (simp add: wrap_index_ideal_def Let_def split: if_splits)
next
  assume pre: ?pre
  show ?inb using wrap_index_range [of hk hs] wrap_index_range [of wk wsrc] pre assms by simp
qed

lemma wrap_index_in_range_iff:
  assumes pos: "0 < hs" "0 < wsrc" "0 < hk" "0 < wk"
    and b: "hs + hk < 2147483648" "wsrc + wk < 2147483648"
  shows "(\<forall>i j. 0 \<le> i \<and> i < hs + hk \<and> 0 \<le> j \<and> j < wsrc + wk \<longrightarrow>
             0 \<le> wrap_index i hk hs \<and> wrap_index i hk hs < hs \<and>
             0 \<le> wrap_index j wk wsrc \<and> wrap_index j wk wsrc < wsrc)
          \<longleftrightarrow> (hk + 1) div 2 \<le> hs \<and> (wk + 1) div 2 \<le> wsrc"
proof -
  have "(\<forall>i j. 0 \<le> i \<and> i < hs + hk \<and> 0 \<le> j \<and> j < wsrc + wk \<longrightarrow>
             0 \<le> wrap_index i hk hs \<and> wrap_index i hk hs < hs \<and>
             0 \<le> wrap_index j wk wsrc \<and> wrap_index j wk wsrc < wsrc)
      \<longleftrightarrow> (\<forall>i j. 0 \<le> i \<and> i < hs + hk \<and> 0 \<le> j \<and> j < wsrc + wk \<longrightarrow>
             0 \<le> wrap_index_ideal i hk hs \<and> wrap_index_ideal i hk hs < hs \<and>
             0 \<le> wrap_index_ideal j wk wsrc \<and> wrap_index_ideal j wk wsrc < wsrc)"
    using wrap_index_refines [OF pos(3,1) b(1)] wrap_index_refines [OF pos(4,2) b(2)] by simp
  then show ?thesis using wrap_index_ideal_in_range_iff [OF pos] by simp
qed

lemma workspace3_init:
  "init_workspace workspace0 CIRCULAR_OPTIMAL 65535 65535 1 1 machine0 = Some (workspace3, machine1)"
proof -
  have "is_product 65536 [7, 6, 5, 4, 3, 2]" using is_product_power2 [of 15] by simp
  then have "scan_from [7, 6, 5, 4, 3, 2] 65536 = Some 65536"
    by (subst scan_from.simps) simp
  then have "find_closest_factor 65536 GSL_FACTORS = Some 65536"
    by (simp add: find_closest_factor_def takeWhile_GSL_FACTORS)
  then show ?thesis
    by (simp add: init_workspace_def working_size_def gsl_matrix_alloc_def alloc_def workspace0_def
      machine0_def workspace3_def machine1_def null_matrix_def mode_defs add32_def mul32_def
      int32_def size_t_def)
qed

lemma bind_None_right: "(\<And>x. f x = None) \<Longrightarrow> Option.bind m f = None"
  by (cases m) simp_all



lemma init_workspace_ok_fit:
  assumes "0 < hs" "0 < wsrc" "0 < hk" "0 < wk"
    and "m = LINEAR \<or> m = LINEAR_OPTIMAL \<or> m = CIRCULAR \<or> m = CIRCULAR_OPTIMAL"
    and "init_workspace ws0 m hs wsrc hk wk s = Some (ws, s')"
    and "fits_int ws"
  shows "workspace_ok ws \<and> h_src ws = hs \<and> w_src ws = wsrc \<and> h_kernel ws = hk \<and> w_kernel ws = wk \<and>
         mode ws = m \<and> data (fft ws) = next_block s \<and> data (fft_copy ws) = Suc (next_block s) \<and>
         mem s' = mem s \<and> stdout s' = stdout s \<and> next_block s < next_block s' \<and>
         (m = LINEAR \<longrightarrow> h_res ws = hs + (hk + 1) div 2 \<and> w_res ws = wsrc + (wk + 1) div 2) \<and>
         (m = CIRCULAR \<longrightarrow> h_res ws = hs + hk \<and> w_res ws = wsrc + wk) \<and>
         (m = CIRCULAR_OPTIMAL \<longrightarrow> hs + hk \<le> h_res ws \<and> wsrc + wk \<le> w_res ws)"
  by (rule init_workspace_ok [OF assms(1-5) init_workspace_refines [OF assms]])





lemma sum_upto_1: "(\<Sum>m = 0..<(1::int). g m) = (g 0 :: real)"
proof -
  have "{0..<1::int} = {0}" by auto
  then show ?thesis by simp
qed




lemma spectral_product_cells:
  assumes W: "0 < w_res ws" and FC: "data (fft ws) \<noteq> data (fft_copy ws)"
    and ij: "0 \<le> i" "i < h_res ws" "0 \<le> j" "j < w_res ws"
  shows "load (spectral_product_ideal fl ws s) (data (fft_copy ws)) (i * 2 * w_res ws + 2 * j) =
           product_re fl (cell s (data (fft ws)) (w_res ws) i j)
             (cell s (data (fft ws)) (w_res ws) ((- i) mod h_res ws) ((- j) mod w_res ws))"
    and "load (spectral_product_ideal fl ws s) (data (fft_copy ws)) (i * 2 * w_res ws + 2 * j + 1) =
           product_im fl (cell s (data (fft ws)) (w_res ws) i j)
             (cell s (data (fft ws)) (w_res ws) ((- i) mod h_res ws) ((- j) mod w_res ws))"
proof -
  let ?W = "w_res ws" and ?H = "h_res ws"
  let ?F = "data (fft ws)" and ?C = "data (fft_copy ws)"
  define vre where "vre i j = product_re fl (cell s ?F ?W i j)
      (cell s ?F ?W ((- i) mod ?H) ((- j) mod ?W))" for i j
  define vim where "vim i j = product_im fl (cell s ?F ?W i j)
      (cell s ?F ?W ((- i) mod ?H) ((- j) mod ?W))" for i j
  define A where "A i j = {i * 2 * ?W + 2 * j, i * 2 * ?W + 2 * j + 1}" for i j :: int
  define Q where "Q i j a v \<longleftrightarrow>
      (a = i * 2 * ?W + 2 * j \<longrightarrow> v = vre i j) \<and>
      (a = i * 2 * ?W + 2 * j + 1 \<longrightarrow> v = vim i j)" for i j a v
  define body where "body i j t =
      (let re_h = load t ?F (i * 2 * ?W + 2 * j);
           im_h = load t ?F (i * 2 * ?W + 2 * j + 1);
           re_hs = load t ?F (((?H - i) smod ?H) * 2 * ?W + ((2 * ?W - 2 * j) smod (2 * ?W)));
           im_hs = - load t ?F (((?H - i) smod ?H) * 2 * ?W + ((2 * ?W - 2 * j) smod (2 * ?W)) + 1);
           t' = store ?C (i * 2 * ?W + 2 * j)
                  (fl (0.5 * fl (fl (re_h * im_h) - fl (re_hs * im_hs)))) t
       in store ?C (i * 2 * ?W + 2 * j + 1)
            (fl (- 0.25 * fl (fl (fl (fl (re_h * re_h) - fl (im_h * im_h)) - fl (re_hs * re_hs))
                              + fl (im_hs * im_hs)))) t')" for i j t
  have sp: "spectral_product_ideal fl ws s = for_loop 0 ?H (\<lambda>i. for_loop 0 ?W (body i)) s"
    unfolding spectral_product_ideal_def body_def by (rule refl)
  have eff: "(\<forall>b a. b \<noteq> ?C \<or> a \<notin> A i j \<longrightarrow> load (body i j t) b a = load t b a) \<and>
      (\<forall>a\<in>A i j. Q i j a (load (body i j t) ?C a))"
    if "0 \<le> i" "i < ?H" "0 \<le> j" "j < ?W" and t: "\<forall>b a. b \<noteq> ?C \<longrightarrow> load t b a = load s b a"
    for i j t
  proof -
    have rd: "load t ?F a = load s ?F a" for a using t FC by simp
    have m1: "(?H - i) smod ?H = (- i) mod ?H" using that(1,2) by (rule mirror_row)
    have m2: "(2 * ?W - 2 * j) smod (2 * ?W) = 2 * ((- j) mod ?W)"
      using that(3,4) by (rule mirror_col)
    have fr: "\<forall>b a. b \<noteq> ?C \<or> a \<notin> A i j \<longrightarrow> load (body i j t) b a = load t b a"
      by (simp add: body_def A_def Let_def)
    have v0: "load (body i j t) ?C (i * 2 * ?W + 2 * j) = vre i j"
      by (simp add: body_def Let_def rd m1 m2 vre_def product_re_def cell_def)
    have v1: "load (body i j t) ?C (i * 2 * ?W + 2 * j + 1) = vim i j"
      by (simp add: body_def Let_def rd m1 m2 vim_def product_im_def cell_def)
    have "\<forall>a\<in>A i j. Q i j a (load (body i j t) ?C a)"
      using v0 v1 by (simp add: A_def Q_def)
    with fr show ?thesis by blast
  qed
  have disj: "i = i' \<and> j = j'"
    if "0 \<le> j" "j < ?W" "0 \<le> j'" "j' < ?W" "a \<in> A i j" "a \<in> A i' j'" for i i' j j' a
  proof -
    from that(5) obtain c where c: "0 \<le> c" "c \<le> 1" "a = i * 2 * ?W + 2 * j + c"
      by (auto simp: A_def)
    from that(6) obtain c' where c': "0 \<le> c'" "c' \<le> 1" "a = i' * 2 * ?W + 2 * j' + c'"
      by (auto simp: A_def)
    have "i * 2 * ?W + 2 * j + c = i' * 2 * ?W + 2 * j' + c'" using c(3) c'(3) by simp
    from cell_index_unique [OF that(1-4) c(1,2) c'(1,2) this] show ?thesis by simp
  qed
  from for_loop2_effect [of 0 ?H 0 ?W ?C s A body Q, OF eff, folded sp]
  have r2: "\<And>i j a. 0 \<le> i \<and> i < ?H \<and> 0 \<le> j \<and> j < ?W \<and> a \<in> A i j \<and>
        (\<forall>i' j'. 0 \<le> i' \<and> i' < ?H \<and> 0 \<le> j' \<and> j' < ?W \<and> (i < i' \<or> (i = i' \<and> j < j'))
            \<longrightarrow> a \<notin> A i' j') \<Longrightarrow> Q i j a (load (spectral_product_ideal fl ws s) ?C a)"
    by blast
  have last: "\<forall>i' j'. 0 \<le> i' \<and> i' < ?H \<and> 0 \<le> j' \<and> j' < ?W \<and> (i < i' \<or> (i = i' \<and> j < j'))
      \<longrightarrow> a \<notin> A i' j'" if "a \<in> A i j" for a
  proof (intro allI impI notI)
    fix i' j'
    assume h: "0 \<le> i' \<and> i' < ?H \<and> 0 \<le> j' \<and> j' < ?W \<and> (i < i' \<or> (i = i' \<and> j < j'))"
      and "a \<in> A i' j'"
    with disj [of j j' a i i'] that ij have "i = i' \<and> j = j'" by blast
    with h show False by simp
  qed
  have in0: "i * 2 * ?W + 2 * j \<in> A i j" and in1: "i * 2 * ?W + 2 * j + 1 \<in> A i j"
    by (simp_all add: A_def)
  have "Q i j (i * 2 * ?W + 2 * j) (load (spectral_product_ideal fl ws s) ?C (i * 2 * ?W + 2 * j))"
    by (rule r2) (use ij in0 last [OF in0] in blast)
  then show "load (spectral_product_ideal fl ws s) ?C (i * 2 * ?W + 2 * j) =
      product_re fl (cell s ?F ?W i j) (cell s ?F ?W ((- i) mod ?H) ((- j) mod ?W))"
    by (simp add: Q_def vre_def)
  have "Q i j (i * 2 * ?W + 2 * j + 1)
      (load (spectral_product_ideal fl ws s) ?C (i * 2 * ?W + 2 * j + 1))"
    by (rule r2) (use ij in1 last [OF in1] in blast)
  then show "load (spectral_product_ideal fl ws s) ?C (i * 2 * ?W + 2 * j + 1) =
      product_im fl (cell s ?F ?W i j) (cell s ?F ?W ((- i) mod ?H) ((- j) mod ?W))"
    by (simp add: Q_def vim_def)
qed

lemma for_loop_opt_returns:
  assumes "\<And>i t. lo \<le> i \<Longrightarrow> i < hi \<Longrightarrow> \<exists>t'. bodyM i t = Some t'"
  shows "\<exists>s'. for_loop_opt lo hi bodyM s = Some s'"
  using assms
proof (induction lo hi bodyM s rule: for_loop_opt.induct)
  case (1 i n body s)
  show ?case
  proof (cases "i < n")
    case True
    from "1.prems" [of i s] True obtain t where t: "body i s = Some t" by auto
    have "\<exists>s'. for_loop_opt (i + 1) n body t = Some s'"
      by (rule "1.IH" [OF True t]) (use "1.prems" in simp)
    then show ?thesis using True t by (simp add: for_loop_opt_step)
  next
    case False
    then show ?thesis by simp
  qed
qed

lemma sum_upto_2:
  fixes f :: "int \<Rightarrow> 'a::comm_monoid_add"
  shows "(\<Sum>m = 0..<2. f m) = f 0 + f 1"
proof -
  have "(\<Sum>m = 0..<2. f m) = (\<Sum>u<nat 2. f (int u))" by (rule sum_int_range) simp
  also have "\<dots> = f 0 + f 1" by (simp add: numeral_2_eq_2 lessThan_Suc add.commute)
  finally show ?thesis .
qed




section \<open>The dispatch on the mode\<close>

text \<open>
  Claim C4. \<open>convolve\<close> on a workspace whose mode field is 4, a value outside the
  enumeration: the call prints the five lines that name the modes and returns normally,
  with the memory (the destination array with it) as it was. The routine returns no value,
  so no error reaches the caller.
\<close>

theorem convolve_unrecognized_mode:
  "convolve (workspace0\<lparr>mode := 4\<rparr>) 0 1 2 machine0 =
     Some (machine0\<lparr>stdout := [''Unrecognized convolution mode, possible modes are :'',
        ''   - LINEAR '', ''   - LINEAR_OPTIMAL '', ''   - CIRCULAR '', ''   - CIRCULAR_OPTIMAL'']\<rparr>)"
  by (simp add: convolve_def mode_defs printf_def machine0_def)

lemma convolve_default_branch:
  assumes "mode ws \<noteq> LINEAR" "mode ws \<noteq> LINEAR_OPTIMAL" "mode ws \<noteq> CIRCULAR"
    "mode ws \<noteq> CIRCULAR_OPTIMAL"
  shows "\<exists>s'. convolve ws src kern dst s = Some s' \<and> mem s' = mem s"
  using assms by (simp add: convolve_def printf_def)

section \<open>The geometry of the workspace\<close>




text \<open>
  Claim C8, with the bound it needs. The periodic extension of
  \<open>circular_convolution_optimal\<close> is the passage \<open>pack_source_wrapped\<close>; it reads the source
  at the row \<open>wrap_index i h_kernel h_src\<close> and the column \<open>wrap_index j w_kernel w_src\<close>,
  one conditional addition or subtraction of the dimension. For a workspace of the geometry
  of the circular modes whose sizes are within the range of int (\<open>fits_int\<close>), all these
  indices lie within the source, for every \<open>i < h_src + h_kernel\<close> and
  \<open>j < w_src + w_kernel\<close>, exactly when \<open>\<lceil>h_kernel / 2\<rceil> \<le> h_src\<close> and
  \<open>\<lceil>w_kernel / 2\<rceil> \<le> w_src\<close>; and then the passage returns: none of its reads leaves the
  \<open>h_src * w_src\<close> elements of the source, none of its writes the working buffer.
\<close>

theorem periodic_extension_reads_in_bounds:
  assumes ok: "workspace_ok ws" and fit: "fits_int ws"
    and geo: "h_src ws + h_kernel ws \<le> h_res ws" "w_src ws + w_kernel ws \<le> w_res ws"
    and sv: "size1 src = h_src ws" "tda src = w_src ws"
  shows "((\<forall>i j. 0 \<le> i \<and> i < h_src ws + h_kernel ws \<and> 0 \<le> j \<and> j < w_src ws + w_kernel ws \<longrightarrow>
             0 \<le> wrap_index i (h_kernel ws) (h_src ws) \<and>
             wrap_index i (h_kernel ws) (h_src ws) < h_src ws \<and>
             0 \<le> wrap_index j (w_kernel ws) (w_src ws) \<and>
             wrap_index j (w_kernel ws) (w_src ws) < w_src ws)
          \<longleftrightarrow> (h_kernel ws + 1) div 2 \<le> h_src ws \<and> (w_kernel ws + 1) div 2 \<le> w_src ws) \<and>
         ((h_kernel ws + 1) div 2 \<le> h_src ws \<and> (w_kernel ws + 1) div 2 \<le> w_src ws \<longrightarrow>
          (\<exists>s'. pack_source_wrapped ws src s = Some s'))"
proof (intro conjI impI)
  from ok have pos: "0 < h_src ws" "0 < w_src ws" "0 < h_kernel ws" "0 < w_kernel ws"
    by (simp_all add: workspace_ok_def)
  note ff = fits_int_facts [OF ok fit]
  show "(\<forall>i j. 0 \<le> i \<and> i < h_src ws + h_kernel ws \<and> 0 \<le> j \<and> j < w_src ws + w_kernel ws \<longrightarrow>
             0 \<le> wrap_index i (h_kernel ws) (h_src ws) \<and>
             wrap_index i (h_kernel ws) (h_src ws) < h_src ws \<and>
             0 \<le> wrap_index j (w_kernel ws) (w_src ws) \<and>
             wrap_index j (w_kernel ws) (w_src ws) < w_src ws)
          \<longleftrightarrow> (h_kernel ws + 1) div 2 \<le> h_src ws \<and> (w_kernel ws + 1) div 2 \<le> w_src ws"
    by (rule wrap_index_in_range_iff [OF pos ff(11,12)])
next
  assume pre: "(h_kernel ws + 1) div 2 \<le> h_src ws \<and> (w_kernel ws + 1) div 2 \<le> w_src ws"
  then have p: "(h_kernel ws + 1) div 2 \<le> h_src ws" "(w_kernel ws + 1) div 2 \<le> w_src ws"
    by simp_all
  show "\<exists>s'. pack_source_wrapped ws src s = Some s'"
    using pack_source_wrapped_refines [OF ok fit geo p sv, of s] by simp
qed

theorem periodic_extension_reads_in_bounds_witness:
  "0 \<le> wrap_index 0 3 4 \<and> wrap_index 0 3 4 < 4 \<and>
   0 \<le> wrap_index 6 3 4 \<and> wrap_index 6 3 4 < 4 \<and>
   (\<exists>s'. pack_source_wrapped workspace2 (gsl_matrix_view_array 0 4 4) machine0 = Some s')"
proof -
  have geo: "h_src workspace2 + h_kernel workspace2 \<le> h_res workspace2"
    "w_src workspace2 + w_kernel workspace2 \<le> w_res workspace2"
    by (simp_all add: workspace2_def)
  have sv: "size1 (gsl_matrix_view_array 0 4 4) = h_src workspace2"
    "tda (gsl_matrix_view_array 0 4 4) = w_src workspace2"
    by (simp_all add: workspace2_def)
  note t = periodic_extension_reads_in_bounds [OF workspace2_ok geo sv, of machine0]
  have pre: "(h_kernel workspace2 + 1) div 2 \<le> h_src workspace2 \<and>
      (w_kernel workspace2 + 1) div 2 \<le> w_src workspace2"
    by (simp add: workspace2_def)
  from t pre have a: "\<forall>i j. 0 \<le> i \<and> i < h_src workspace2 + h_kernel workspace2 \<and>
       0 \<le> j \<and> j < w_src workspace2 + w_kernel workspace2 \<longrightarrow>
             0 \<le> wrap_index i (h_kernel workspace2) (h_src workspace2) \<and>
             wrap_index i (h_kernel workspace2) (h_src workspace2) < h_src workspace2 \<and>
             0 \<le> wrap_index j (w_kernel workspace2) (w_src workspace2) \<and>
             wrap_index j (w_kernel workspace2) (w_src workspace2) < w_src workspace2"
    by blast
  from t pre have b: "\<exists>s'. pack_source_wrapped workspace2 (gsl_matrix_view_array 0 4 4) machine0 = Some s'"
    by blast
  from a [rule_format, of 0 6] b show ?thesis by (simp add: workspace2_def)
qed

text \<open>
  Without the bound the claim fails. For a 65535 \<times> 65535 source and a 1 \<times> 1 kernel the
  precondition holds, and the first element that the passage reads is at row 65534 and
  column 65534: the product \<open>65534 * 65535\<close> does not fit an int, and the offset that is
  computed is negative.
\<close>

theorem periodic_extension_int_overflow:
  "(1 + 1) div 2 \<le> (65535::int) \<and>
   wrap_index 0 1 65535 = 65534 \<and>
   add32 (mul32 (wrap_index 0 1 65535) 65535) (wrap_index 0 1 65535) = - 131072 \<and>
   pack_source_wrapped workspace3
     (gsl_matrix_view_array 0 65535 65535) machine0 = None"
proof -
  have w: "wrap_index 0 1 65535 = 65534"
    by (simp add: wrap_index_def add32_def sub32_def int32_def Let_def)
  have o: "add32 (mul32 65534 65535) 65534 = - 131072"
    by (simp add: add32_def mul32_def int32_def)
  have r: "read_cell (gsl_matrix_view_array 0 65535 65535) (- 131072) t = None" for t
    by (simp add: read_cell_def in_matrix_def)
  have s: "add32 65535 1 = 65536" by (simp add: add32_def int32_def)
  show ?thesis
    unfolding pack_source_wrapped_def
    by (simp add: w o r s Let_def for_loop_opt_step [of 0] workspace3_def)
qed







text \<open>
  Claim C2, with the bound on the sizes that it needs. In each of the four modes
  \<open>convolve\<close> is the chain of its packing passages and the forward transform, then the
  spectral product (written with \<open>gsl_matrix_get\<close> and \<open>gsl_matrix_set\<close> in the mode
  CIRCULAR, with flat indices in the three others), then the inverse transform and the
  extraction. For a workspace whose sizes are within the range of int, and from every state
  \<open>Z\<close> of the forward-transformed buffer, the spectral product returns and has stored at
  every index \<open>(i, j)\<close> of the working buffer the real part
  \<open>0.5*(Re z * Im z - Re zs * Im zs)\<close> and the imaginary part
  \<open>-0.25*(Re z * Re z - Im z * Im z - Re zs * Re zs + Im zs * Im zs)\<close>, where \<open>z\<close> is the
  value of \<open>Z\<close> at \<open>(i, j)\<close> and \<open>zs\<close> the conjugate of its value at
  \<open>((-i) mod h_res, (-j) mod w_res)\<close>, every operation rounded by the rounding \<open>fl\<close> of the
  machine.
\<close>

theorem spectral_product_closed_form:
  assumes "workspace_ok ws" "fits_int ws"
    and "mode ws = LINEAR \<or> mode ws = LINEAR_OPTIMAL \<or> mode ws = CIRCULAR \<or>
         mode ws = CIRCULAR_OPTIMAL"
  shows "let srcv = gsl_matrix_view_array src (size_t (h_src ws)) (size_t (w_src ws));
             kernv = gsl_matrix_view_array kern (size_t (h_kernel ws)) (size_t (w_kernel ws));
             dstv = gsl_matrix_view_array dst (size_t (h_src ws)) (size_t (w_src ws));
             fl = rounding s;
             stage = (if mode ws = CIRCULAR then spectral_product_get_set fl ws
                      else spectral_product fl ws)
         in convolve ws src kern dst s = do {
              s4 \<leftarrow> (if mode ws = CIRCULAR then
                       forward_transform fl ws (pack_kernel_quadrants ws kernv
                         (pack_source_columns ws srcv (gsl_matrix_set_zero (fft ws) s)))
                     else if mode ws = CIRCULAR_OPTIMAL then do {
                       s2 \<leftarrow> pack_source_wrapped ws srcv (gsl_matrix_set_zero (fft ws) s);
                       s3 \<leftarrow> pack_kernel ws kernv s2;
                       forward_transform fl ws s3 }
                     else do {
                       s2 \<leftarrow> pack_source ws srcv (gsl_matrix_set_zero (fft ws) s);
                       s3 \<leftarrow> pack_kernel ws kernv s2;
                       forward_transform fl ws s3 });
              s5 \<leftarrow> stage s4;
              s6 \<leftarrow> inverse_transform fl ws s5;
              (if mode ws = CIRCULAR then Some (extract_columns ws dstv s6)
               else if mode ws = CIRCULAR_OPTIMAL then extract_central ws dstv s6
               else extract_real ws dstv s6) } \<and>
            (\<forall>Z. \<exists>s5. stage Z = Some s5 \<and>
               (\<forall>i j. 0 \<le> i \<and> i < h_res ws \<and> 0 \<le> j \<and> j < w_res ws \<longrightarrow>
                  (let z = cell Z (data (fft ws)) (w_res ws) i j;
                       zs = cnj (cell Z (data (fft ws)) (w_res ws)
                                  ((- i) mod h_res ws) ((- j) mod w_res ws))
                   in load s5 (data (fft_copy ws)) (i * 2 * w_res ws + 2 * j) =
                        fl (0.5 * fl (fl (Re z * Im z) - fl (Re zs * Im zs))) \<and>
                      load s5 (data (fft_copy ws)) (i * 2 * w_res ws + 2 * j + 1) =
                        fl (- 0.25 * fl (fl (fl (fl (Re z * Re z) - fl (Im z * Im z))
                                              - fl (Re zs * Re zs)) + fl (Im zs * Im zs))))))"
proof -
  let ?fl = "rounding s"
  let ?stage = "if mode ws = CIRCULAR then spectral_product_get_set ?fl ws
                else spectral_product ?fl ws"
  have W: "0 < w_res ws" and FC: "data (fft ws) \<noteq> data (fft_copy ws)"
    using workspace_ok_pos [OF assms(1)] assms(1) by (simp_all add: workspace_ok_def)
  have chain: "convolve ws src kern dst s = do {
              s4 \<leftarrow> (if mode ws = CIRCULAR then
                       forward_transform ?fl ws (pack_kernel_quadrants ws
                         (gsl_matrix_view_array kern (size_t (h_kernel ws)) (size_t (w_kernel ws)))
                         (pack_source_columns ws
                           (gsl_matrix_view_array src (size_t (h_src ws)) (size_t (w_src ws)))
                           (gsl_matrix_set_zero (fft ws) s)))
                     else if mode ws = CIRCULAR_OPTIMAL then do {
                       s2 \<leftarrow> pack_source_wrapped ws
                         (gsl_matrix_view_array src (size_t (h_src ws)) (size_t (w_src ws)))
                         (gsl_matrix_set_zero (fft ws) s);
                       s3 \<leftarrow> pack_kernel ws
                         (gsl_matrix_view_array kern (size_t (h_kernel ws)) (size_t (w_kernel ws))) s2;
                       forward_transform ?fl ws s3 }
                     else do {
                       s2 \<leftarrow> pack_source ws
                         (gsl_matrix_view_array src (size_t (h_src ws)) (size_t (w_src ws)))
                         (gsl_matrix_set_zero (fft ws) s);
                       s3 \<leftarrow> pack_kernel ws
                         (gsl_matrix_view_array kern (size_t (h_kernel ws)) (size_t (w_kernel ws))) s2;
                       forward_transform ?fl ws s3 });
              s5 \<leftarrow> ?stage s4;
              s6 \<leftarrow> inverse_transform ?fl ws s5;
              (if mode ws = CIRCULAR then Some (extract_columns ws
                  (gsl_matrix_view_array dst (size_t (h_src ws)) (size_t (w_src ws))) s6)
               else if mode ws = CIRCULAR_OPTIMAL then extract_central ws
                  (gsl_matrix_view_array dst (size_t (h_src ws)) (size_t (w_src ws))) s6
               else extract_real ws
                  (gsl_matrix_view_array dst (size_t (h_src ws)) (size_t (w_src ws))) s6) }"
    using assms(3)
    by (auto simp add: convolve_def linear_convolution_def linear_convolution_optimal_def
        circular_convolution_def circular_convolution_optimal_def Let_def mode_defs)
  have st: "?stage Z = Some (spectral_product_ideal ?fl ws Z)" for Z
    using spectral_product_refines [OF assms(1,2)] spectral_product_get_set_refines [OF assms(1,2)]
    by simp
  have cells: "\<exists>s5. ?stage Z = Some s5 \<and>
               (\<forall>i j. 0 \<le> i \<and> i < h_res ws \<and> 0 \<le> j \<and> j < w_res ws \<longrightarrow>
                  (let z = cell Z (data (fft ws)) (w_res ws) i j;
                       zs = cnj (cell Z (data (fft ws)) (w_res ws)
                                  ((- i) mod h_res ws) ((- j) mod w_res ws))
                   in load s5 (data (fft_copy ws)) (i * 2 * w_res ws + 2 * j) =
                        ?fl (0.5 * ?fl (?fl (Re z * Im z) - ?fl (Re zs * Im zs))) \<and>
                      load s5 (data (fft_copy ws)) (i * 2 * w_res ws + 2 * j + 1) =
                        ?fl (- 0.25 * ?fl (?fl (?fl (?fl (Re z * Re z) - ?fl (Im z * Im z))
                                              - ?fl (Re zs * Re zs)) + ?fl (Im zs * Im zs)))))" for Z
  proof (intro exI conjI allI impI)
    show "?stage Z = Some (spectral_product_ideal ?fl ws Z)" by (rule st)
  next
    fix i j
    assume ij: "0 \<le> i \<and> i < h_res ws \<and> 0 \<le> j \<and> j < w_res ws"
    then have r: "0 \<le> i" "i < h_res ws" "0 \<le> j" "j < w_res ws" by simp_all
    show "let z = cell Z (data (fft ws)) (w_res ws) i j;
              zs = cnj (cell Z (data (fft ws)) (w_res ws) ((- i) mod h_res ws) ((- j) mod w_res ws))
          in load (spectral_product_ideal ?fl ws Z) (data (fft_copy ws)) (i * 2 * w_res ws + 2 * j) =
               ?fl (0.5 * ?fl (?fl (Re z * Im z) - ?fl (Re zs * Im zs))) \<and>
             load (spectral_product_ideal ?fl ws Z) (data (fft_copy ws)) (i * 2 * w_res ws + 2 * j + 1) =
               ?fl (- 0.25 * ?fl (?fl (?fl (?fl (Re z * Re z) - ?fl (Im z * Im z))
                                     - ?fl (Re zs * Re zs)) + ?fl (Im zs * Im zs)))"
      unfolding Let_def spectral_product_cells [OF W FC r]
      by (simp add: product_re_def product_im_def)
  qed
  from chain cells show ?thesis unfolding Let_def by blast
qed

theorem spectral_product_closed_form_witness:
  "\<exists>s5. spectral_product (rounding machine5) workspace4 machine5 = Some s5 \<and>
     cell machine5 3 6 1 2 = Complex 3 2 \<and> cell machine5 3 6 ((- 1) mod 6) ((- 2) mod 6) = Complex 5 7 \<and>
     load s5 4 (1 * 2 * 6 + 2 * 2) = 20.5 \<and> load s5 4 (1 * 2 * 6 + 2 * 2 + 1) = - 7.25"
proof -
  have ok: "workspace_ok workspace4" "fits_int workspace4"
    by (simp_all add: workspace_ok_def fits_int_def workspace4_def)
  have md: "mode workspace4 = LINEAR \<or> mode workspace4 = LINEAR_OPTIMAL \<or>
      mode workspace4 = CIRCULAR \<or> mode workspace4 = CIRCULAR_OPTIMAL"
    by (simp add: workspace4_def mode_defs)
  have f: "h_res workspace4 = 6" "w_res workspace4 = 6" "data (fft workspace4) = 3"
    "data (fft_copy workspace4) = 4" "(mode workspace4 = CIRCULAR) = False"
    by (simp_all add: workspace4_def mode_defs)
  have fl: "rounding machine5 = (\<lambda>x. x)" by (simp add: machine5_def machine1_def)
  have z: "cell machine5 3 6 1 2 = Complex 3 2" "cell machine5 3 6 5 4 = Complex 5 7"
    by (simp_all add: cell_def load_def machine5_def)
  note t = spectral_product_closed_form [OF ok md, of 0 1 2 machine5, unfolded Let_def,
      THEN conjunct2, THEN spec, of machine5]
  have "\<exists>s5. spectral_product (\<lambda>x. x) workspace4 machine5 = Some s5 \<and>
      (\<forall>i j. 0 \<le> i \<and> i < 6 \<and> 0 \<le> j \<and> j < 6 \<longrightarrow>
         (let z = cell machine5 3 6 i j; zs = cnj (cell machine5 3 6 ((- i) mod 6) ((- j) mod 6))
          in load s5 4 (i * 2 * 6 + 2 * j) = 0.5 * (Re z * Im z - Re zs * Im zs) \<and>
             load s5 4 (i * 2 * 6 + 2 * j + 1) =
               - 0.25 * (Re z * Re z - Im z * Im z - Re zs * Re zs + Im zs * Im zs)))"
    using t unfolding Let_def f fl if_False by blast
  then obtain s5 where s5: "spectral_product (\<lambda>x. x) workspace4 machine5 = Some s5"
    and c: "\<And>i j. 0 \<le> i \<and> i < 6 \<and> 0 \<le> j \<and> j < 6 \<Longrightarrow>
         (let z = cell machine5 3 6 i j; zs = cnj (cell machine5 3 6 ((- i) mod 6) ((- j) mod 6))
          in load s5 4 (i * 2 * 6 + 2 * j) = 0.5 * (Re z * Im z - Re zs * Im zs) \<and>
             load s5 4 (i * 2 * 6 + 2 * j + 1) =
               - 0.25 * (Re z * Re z - Im z * Im z - Re zs * Re zs + Im zs * Im zs))"
    by blast
  have m: "(- 1) mod (6::int) = 5" "(- 2) mod (6::int) = 4" by simp_all
  from c [of 1 2] have "load s5 4 (1 * 2 * 6 + 2 * 2) = 20.5 \<and> load s5 4 (1 * 2 * 6 + 2 * 2 + 1) = - 7.25"
    unfolding Let_def m z by simp
  with s5 z m show ?thesis unfolding fl by simp
qed

text \<open>
  Without the bound on the sizes the claim fails. For a source of 32767 rows and 32768
  columns and a 1 \<times> 1 kernel in the mode LINEAR the working size is 32768 \<times> 32769. The
  packing and the forward transform return, for their offsets stay below \<open>2\<^sup>3\<^sup>1\<close>; in
  the spectral product the offset \<open>i*2*ws.w_res + 2*j\<close> of the index (32767, 1) does not
  fit an int, and the stage has no defined result.
\<close>

theorem spectral_product_int_overflow:
  "\<exists>ws s1 s4. init_workspace workspace0 LINEAR 32767 32768 1 1 machine0 = Some (ws, s1) \<and>
     h_res ws = 32768 \<and> w_res ws = 32769 \<and>
     do { s2 \<leftarrow> pack_source ws (gsl_matrix_view_array 0 (size_t (h_src ws)) (size_t (w_src ws)))
                  (gsl_matrix_set_zero (fft ws) s1);
          s3 \<leftarrow> pack_kernel ws
                  (gsl_matrix_view_array 1 (size_t (h_kernel ws)) (size_t (w_kernel ws))) s2;
          forward_transform (rounding s1) ws s3 } = Some s4 \<and>
     add32 (mul32 (mul32 32767 2) (w_res ws)) (mul32 2 1) = - 2147483648 \<and>
     spectral_product (rounding s1) ws s4 = None \<and>
     convolve ws 0 1 2 s1 = None"
proof -
  define ws where "ws = workspace0\<lparr>ws_column := 5, ws_line := 6, wv_column := 7, wv_line := 8,
      h_src := 32767, w_src := 32768, h_kernel := 1, w_kernel := 1,
      h_res := 32768, w_res := 32769,
      fft := \<lparr>size1 = 32768, size2 = 65538, tda = 65538, data = 3\<rparr>,
      fft_copy := \<lparr>size1 = 32768, size2 = 65538, tda = 65538, data = 4\<rparr>, mode := LINEAR\<rparr>"
  define srcv where "srcv = gsl_matrix_view_array 0 (size_t (h_src ws)) (size_t (w_src ws))"
  define kernv where "kernv = gsl_matrix_view_array 1 (size_t (h_kernel ws)) (size_t (w_kernel ws))"
  have f: "h_src ws = 32767" "w_src ws = 32768" "h_kernel ws = 1" "w_kernel ws = 1"
    "h_res ws = 32768" "w_res ws = 32769" "mode ws = LINEAR"
    "fft ws = \<lparr>size1 = 32768, size2 = 65538, tda = 65538, data = 3\<rparr>"
    by (simp_all add: ws_def)
  have sv: "srcv = \<lparr>size1 = 32767, size2 = 32768, tda = 32768, data = 0\<rparr>"
    "kernv = \<lparr>size1 = 1, size2 = 1, tda = 1, data = 1\<rparr>"
    by (simp_all add: srcv_def kernv_def f gsl_matrix_view_array_def size_t_def)
  have init: "init_workspace workspace0 LINEAR 32767 32768 1 1 machine0 = Some (ws, machine1)"
    by (simp add: init_workspace_def working_size_def gsl_matrix_alloc_def alloc_def
      machine0_def machine1_def mode_defs add32_def mul32_def int32_def size_t_def ws_def)
  have inF: "in_matrix (fft ws) a \<longleftrightarrow> 0 \<le> a \<and> a < 2147549184" for a
    by (simp add: in_matrix_def f)
  have inS: "in_matrix srcv a \<longleftrightarrow> 0 \<le> a \<and> a < 1073709056" for a
    by (simp add: in_matrix_def sv)
  have ps: "\<exists>t'. pack_source ws srcv t = Some t'" for t
    unfolding pack_source_def
  proof (rule for_loop_opt_returns, rule for_loop_opt_returns)
    fix i j :: int and t u :: machine
    assume i: "0 \<le> i" "i < uint32 (h_src ws)" and j: "0 \<le> j" "j < uint32 (w_src ws)"
    then have b: "i < 32767" "j < 32768" by (simp_all add: f uint32_def)
    have a1: "mulu i (uint32 (w_src ws)) = i * 32768"
      unfolding f mulu_def using i(1) b by (simp add: uint32_def)
    have a2: "addu (i * 32768) j = i * 32768 + j"
      unfolding addu_def using i(1) j(1) b by (intro uint32_id) linarith+
    have a3: "mulu i 2 = i * 2" unfolding mulu_def using i(1) b by (intro uint32_id) linarith+
    have a4: "mulu (i * 2) (uint32 (w_res ws)) = i * 65538"
      unfolding f mulu_def using i(1) b by (simp add: uint32_def)
    have a5: "mulu 2 j = 2 * j" unfolding mulu_def using j(1) b by (intro uint32_id) linarith+
    have a6: "addu (i * 65538) (2 * j) = i * 65538 + 2 * j"
      unfolding addu_def using i(1) j(1) b by (intro uint32_id) linarith+
    have m1: "in_matrix srcv (i * 32768 + j)" unfolding inS using i(1) j(1) b by linarith
    have m2: "in_matrix (fft ws) (i * 65538 + 2 * j)" unfolding inF using i(1) j(1) b by linarith
    show "\<exists>t'. do {
          v \<leftarrow> read_cell srcv (addu (mulu i (uint32 (w_src ws))) j) u;
          write_cell (fft ws) (addu (mulu (mulu i 2) (uint32 (w_res ws))) (mulu 2 j)) v u
        } = Some t'"
      unfolding a1 a2 a3 a4 a5 a6 read_cell_def write_cell_def by (simp add: m1 m2)
  qed
  have pk: "\<exists>t'. pack_kernel ws kernv t = Some t'" for t
    unfolding pack_kernel_def
  proof (rule for_loop_opt_returns)
    fix i :: int and u :: machine
    assume "0 \<le> i" "i < h_kernel ws"
    then have i: "i = 0" by (simp add: f)
    show "\<exists>t'. (let i_src = sub32 i (h_kernel ws sdiv 2);
          i_src = (if i_src < 0 then add32 i_src (h_res ws) else i_src)
      in for_loop_opt 0 (w_kernel ws) (\<lambda>j s.
           let j_src = sub32 j (w_kernel ws sdiv 2);
               j_src = (if j_src < 0 then add32 j_src (w_res ws) else j_src)
           in do {
             v \<leftarrow> read_cell kernv (add32 (mul32 i (w_kernel ws)) j) s;
             write_cell (fft ws)
               (add32 (add32 (mul32 (mul32 i_src 2) (w_res ws)) (mul32 2 j_src)) 1) v s
           })) u = Some t'"
      unfolding Let_def
    proof (rule for_loop_opt_returns)
      fix j :: int and v :: machine
      assume "0 \<le> j" "j < w_kernel ws"
      then have j: "j = 0" by (simp add: f)
      show "\<exists>t'. do {
             va \<leftarrow> read_cell kernv (add32 (mul32 i (w_kernel ws)) j) v;
             write_cell (fft ws)
               (add32 (add32 (mul32 (mul32 (if sub32 i (h_kernel ws sdiv 2) < 0
                    then add32 (sub32 i (h_kernel ws sdiv 2)) (h_res ws)
                    else sub32 i (h_kernel ws sdiv 2)) 2) (w_res ws))
                 (mul32 2 (if sub32 j (w_kernel ws sdiv 2) < 0
                    then add32 (sub32 j (w_kernel ws sdiv 2)) (w_res ws)
                    else sub32 j (w_kernel ws sdiv 2)))) 1) va v
           } = Some t'"
        unfolding i j f(3,4,5,6)
        by (simp add: sub32_def add32_def mul32_def int32_def read_cell_def write_cell_def
            in_matrix_def sv f(8))
    qed
  qed
  have ft: "\<exists>t'. forward_transform fl ws t = Some t'" for fl t
  proof -
    have sz: "size_t (w_res ws) = 32769" "size_t (h_res ws) = 32768" by (simp_all add: f size_t_def)
    have rows: "\<exists>t'. for_loop_opt 0 (h_res ws) (\<lambda>i s.
             let off = mul32 (mul32 i 2) (w_res ws)
             in if line_in_matrix (fft ws) off 1 (size_t (w_res ws))
                then Some (gsl_fft_complex_forward fl (data (fft ws), off) 1 (size_t (w_res ws))
                             (wv_line ws) (ws_line ws) s)
                else None) t = Some t'"
    proof (rule for_loop_opt_returns)
      fix i :: int and u :: machine
      assume i: "0 \<le> i" "i < h_res ws"
      then have b: "i < 32768" by (simp add: f)
      have a1: "mul32 i 2 = i * 2" unfolding mul32_def using i(1) b by (intro int32_id) linarith+
      have a2: "mul32 (i * 2) (w_res ws) = i * 65538"
      proof -
        have "int32 (i * 2 * 32769) = i * 2 * 32769" using i(1) b by (intro int32_id) linarith+
        then show ?thesis by (simp add: mul32_def f)
      qed
      have l: "line_in_matrix (fft ws) (i * 65538) 1 32769"
        unfolding line_in_matrix_def inF using i(1) b by simp
      show "\<exists>t'. (let off = mul32 (mul32 i 2) (w_res ws)
             in if line_in_matrix (fft ws) off 1 (size_t (w_res ws))
                then Some (gsl_fft_complex_forward fl (data (fft ws), off) 1 (size_t (w_res ws))
                             (wv_line ws) (ws_line ws) u)
                else None) = Some t'"
        unfolding Let_def a1 a2 sz by (simp add: l)
    qed
    have cols: "\<exists>t'. for_loop_opt 0 (w_res ws) (\<lambda>j s.
       let off = mul32 2 j
       in if line_in_matrix (fft ws) off (size_t (w_res ws)) (size_t (h_res ws))
          then Some (gsl_fft_complex_forward fl (data (fft ws), off) (size_t (w_res ws))
                       (size_t (h_res ws)) (wv_column ws) (ws_column ws) s)
          else None) u = Some t'" for u
    proof (rule for_loop_opt_returns)
      fix j :: int and v :: machine
      assume j: "0 \<le> j" "j < w_res ws"
      then have b: "j < 32769" by (simp add: f)
      have a1: "mul32 2 j = 2 * j" unfolding mul32_def using j(1) b by (intro int32_id) linarith+
      have l: "line_in_matrix (fft ws) (2 * j) 32769 32768"
        unfolding line_in_matrix_def inF using j(1) b by simp
      show "\<exists>t'. (let off = mul32 2 j
       in if line_in_matrix (fft ws) off (size_t (w_res ws)) (size_t (h_res ws))
          then Some (gsl_fft_complex_forward fl (data (fft ws), off) (size_t (w_res ws))
                       (size_t (h_res ws)) (wv_column ws) (ws_column ws) v)
          else None) = Some t'"
        unfolding Let_def a1 sz by (simp add: l)
    qed
    from rows obtain t1 where t1: "for_loop_opt 0 (h_res ws) (\<lambda>i s.
             let off = mul32 (mul32 i 2) (w_res ws)
             in if line_in_matrix (fft ws) off 1 (size_t (w_res ws))
                then Some (gsl_fft_complex_forward fl (data (fft ws), off) 1 (size_t (w_res ws))
                             (wv_line ws) (ws_line ws) s)
                else None) t = Some t1" by blast
    show ?thesis unfolding forward_transform_def t1 using cols [of t1] by simp
  qed
  from ps obtain s2 where s2: "pack_source ws srcv (gsl_matrix_set_zero (fft ws) machine1) = Some s2"
    by blast
  from pk obtain s3 where s3: "pack_kernel ws kernv s2 = Some s3" by blast
  from ft obtain s4 where s4: "forward_transform (rounding machine1) ws s3 = Some s4" by blast
  have front: "do { s2 \<leftarrow> pack_source ws srcv (gsl_matrix_set_zero (fft ws) machine1);
          s3 \<leftarrow> pack_kernel ws kernv s2;
          forward_transform (rounding machine1) ws s3 } = Some s4"
    by (simp add: s2 s3 s4)
  have o: "add32 (mul32 (mul32 32767 2) 32769) (mul32 2 1) = - 2147483648"
    by (simp add: add32_def mul32_def int32_def)
  have sp: "spectral_product fl ws t = None" for fl t
    unfolding spectral_product_def
  proof (rule for_loop_opt_None [of 0 32767], simp, simp add: f,
      rule for_loop_opt_None [of 0 1], simp, simp add: f)
    fix u
    show "do {
         re_h \<leftarrow> read_cell (fft ws) (add32 (mul32 (mul32 32767 2) (w_res ws)) (mul32 2 1)) u;
         im_h \<leftarrow> read_cell (fft ws)
                  (add32 (add32 (mul32 (mul32 32767 2) (w_res ws)) (mul32 2 1)) 1) u;
         re_hs \<leftarrow> read_cell (fft ws)
                   (add32 (mul32 (mul32 (sub32 (h_res ws) 32767 smod h_res ws) 2) (w_res ws))
                          (sub32 (mul32 2 (w_res ws)) (mul32 2 1) smod mul32 2 (w_res ws))) u;
         im_hs' \<leftarrow> read_cell (fft ws)
                   (add32 (add32 (mul32 (mul32 (sub32 (h_res ws) 32767 smod h_res ws) 2) (w_res ws))
                                 (sub32 (mul32 2 (w_res ws)) (mul32 2 1) smod mul32 2 (w_res ws)))
                          1) u;
         let im_hs = - im_hs';
         s' \<leftarrow> write_cell (fft_copy ws) (add32 (mul32 (mul32 32767 2) (w_res ws)) (mul32 2 1))
                 (fl (0.5 * fl (fl (re_h * im_h) - fl (re_hs * im_hs)))) u;
         write_cell (fft_copy ws) (add32 (add32 (mul32 (mul32 32767 2) (w_res ws)) (mul32 2 1)) 1)
           (fl (- 0.25 * fl (fl (fl (fl (re_h * re_h) - fl (im_h * im_h)) - fl (re_hs * re_hs))
                             + fl (im_hs * im_hs)))) s'
       } = None"
      unfolding f(6) o by (simp add: read_cell_def inF)
  qed
  have cv: "convolve ws 0 1 2 machine1 = None"
  proof -
    have "linear_convolution ws a b c t = None" for a b c t
      unfolding linear_convolution_def Let_def
      by (rule bind_None_right, rule bind_None_right, rule bind_None_right) (simp add: sp)
    then show ?thesis by (simp add: convolve_def f mode_defs)
  qed
  from init f(5,6) front o sp [of "rounding machine1" s4] cv
  show ?thesis unfolding srcv_def kernv_def f(6) [symmetric]
    by (intro exI [of _ ws] exI [of _ machine1] exI [of _ s4]) simp
qed

text \<open>
  Claim C6 does not hold of the code. For a source of one row 1, 2 and a kernel of one
  row 1, 1, on a machine with exact arithmetic and with workspaces that \<open>init_workspace\<close>
  builds (both of working size 2 \<times> 4), \<open>convolve\<close> writes 3, 2 in the mode CIRCULAR and
  3, 3 in the mode CIRCULAR_OPTIMAL: \<open>circular_convolution\<close> copies the source into a
  buffer of zeros, so that the kernel meets zeros beyond the edge of the source, where
  \<open>circular_convolution_optimal\<close> has copied the source again. The first is the
  zero-padded convolution of the mode LINEAR, the second the periodic one.
\<close>

theorem circular_modes_differ:
  "\<exists>wc sc wo so t t'.
     init_workspace workspace0 CIRCULAR 1 2 1 2 machine0 = Some (wc, sc) \<and>
     init_workspace workspace0 CIRCULAR_OPTIMAL 1 2 1 2 machine0 = Some (wo, so) \<and>
     h_res wc = 2 \<and> w_res wc = 4 \<and> h_res wo = 2 \<and> w_res wo = 4 \<and>
     (1 + 1) div 2 \<le> h_src wo \<and> (2 + 1) div 2 \<le> w_src wo \<and>
     convolve wc 0 1 2 machine6 = Some t \<and> convolve wo 0 1 2 machine6 = Some t' \<and>
     load t 2 0 = 3 \<and> load t 2 1 = 2 \<and> load t' 2 0 = 3 \<and> load t' 2 1 = 3 \<and>
     direct_convolution 1 2 1 2 (load machine6 0) (load machine6 1) 0 1 = 2 \<and>
     periodic_convolution 1 2 1 2 (load machine6 0) (load machine6 1) 0 1 = 3"
proof -
  have f2: "find_closest_factor 2 GSL_FACTORS = Some 2" by (rule find_closest_factor_member) simp
  have f4: "find_closest_factor 4 GSL_FACTORS = Some 4" by (rule find_closest_factor_member) simp
  have "working_size workspace0 CIRCULAR 1 2 1 2 = Some (2, 4)"
    by (simp add: working_size_def mode_defs add32_def int32_def)
  from init_workspace_returns [OF this, of machine0]
  obtain wc sc where wc: "init_workspace workspace0 CIRCULAR 1 2 1 2 machine0 = Some (wc, sc)"
    "h_src wc = 1" "w_src wc = 2" "h_kernel wc = 1" "w_kernel wc = 2" "h_res wc = 2" "w_res wc = 4"
    by blast
  have "working_size workspace0 CIRCULAR_OPTIMAL 1 2 1 2 = Some (2, 4)"
    by (simp add: working_size_def mode_defs add32_def int32_def f2 f4)
  from init_workspace_returns [OF this, of machine0]
  obtain wo so where wo: "init_workspace workspace0 CIRCULAR_OPTIMAL 1 2 1 2 machine0 = Some (wo, so)"
    "h_src wo = 1" "w_src wo = 2" "h_kernel wo = 1" "w_kernel wo = 2" "h_res wo = 2" "w_res wo = 4"
    by blast
  have fit: "fits_int wc" "fits_int wo" by (simp_all add: fits_int_def wc wo)
  have okc: "workspace_ok wc" "mode wc = CIRCULAR" "data (fft wc) = 3" "data (fft_copy wc) = 4"
    using init_workspace_ok_fit [OF _ _ _ _ _ wc(1) fit(1)] by (simp_all add: machine0_def)
  have oko: "workspace_ok wo" "mode wo = CIRCULAR_OPTIMAL" "data (fft wo) = 3" "data (fft_copy wo) = 4"
    using init_workspace_ok_fit [OF _ _ _ _ _ wo(1) fit(2)] by (simp_all add: machine0_def)
  have ex: "rounding machine6 x = x" for x by (simp add: machine6_def machine1_def)
  have dc: "direct_convolution 1 2 1 2 (load machine6 0) (load machine6 1) 0 0 = 3"
    "direct_convolution 1 2 1 2 (load machine6 0) (load machine6 1) 0 1 = 2"
    by (simp_all add: direct_convolution_def Let_def sum_upto_1 sum_upto_2 load_def machine6_def)
  have pc: "periodic_convolution 1 2 1 2 (load machine6 0) (load machine6 1) 0 0 = 3"
    "periodic_convolution 1 2 1 2 (load machine6 0) (load machine6 1) 0 1 = 3"
    by (simp_all add: periodic_convolution_def sum_upto_1 sum_upto_2 load_def machine6_def)
  have c: "\<exists>s'. convolve wc 0 1 2 machine6 = Some s' \<and> load s' 2 (0 * w_src wc + q)
      = direct_convolution (h_src wc) (w_src wc) (h_kernel wc) (w_kernel wc)
          (load machine6 0) (load machine6 1) 0 q" if "0 \<le> q" "q < 2" for q
    by (rule convolve_circular_result [OF okc(1) fit(1) _ _ okc(2) ex])
      (use that wc okc in simp_all)
  from c [of 0] obtain t where t0: "convolve wc 0 1 2 machine6 = Some t"
    "load t 2 (0 * w_src wc + 0) = direct_convolution (h_src wc) (w_src wc) (h_kernel wc) (w_kernel wc)
          (load machine6 0) (load machine6 1) 0 0"
    by auto
  from c [of 1] t0(1) have t1: "load t 2 (0 * w_src wc + 1)
      = direct_convolution (h_src wc) (w_src wc) (h_kernel wc) (w_kernel wc)
          (load machine6 0) (load machine6 1) 0 1"
    by auto
  have t: "convolve wc 0 1 2 machine6 = Some t" "load t 2 0 = 3" "load t 2 1 = 2"
    using t0 t1 unfolding wc dc by simp_all
  have o: "\<exists>s'. convolve wo 0 1 2 machine6 = Some s' \<and> load s' 2 (0 * w_src wo + q)
      = periodic_convolution (h_src wo) (w_src wo) (h_kernel wo) (w_kernel wo)
          (load machine6 0) (load machine6 1) 0 q" if "0 \<le> q" "q < 2" for q
    by (rule convolve_circular_optimal_result [OF oko(1) fit(2) _ _ _ _ oko(2) ex])
      (use that wo oko in simp_all)
  from o [of 0] obtain t' where u0: "convolve wo 0 1 2 machine6 = Some t'"
    "load t' 2 (0 * w_src wo + 0) = periodic_convolution (h_src wo) (w_src wo) (h_kernel wo) (w_kernel wo)
          (load machine6 0) (load machine6 1) 0 0"
    by auto
  from o [of 1] u0(1) have u1: "load t' 2 (0 * w_src wo + 1)
      = periodic_convolution (h_src wo) (w_src wo) (h_kernel wo) (w_kernel wo)
          (load machine6 0) (load machine6 1) 0 1"
    by auto
  have t': "convolve wo 0 1 2 machine6 = Some t'" "load t' 2 0 = 3" "load t' 2 1 = 3"
    using u0 u1 unfolding wo pc by simp_all
  from wc wo t t' dc(2) pc(2) show ?thesis by simp
qed




end
